(* ===== verification/Runnel_Prelude.thy ===== *)
theory Runnel_Prelude
  imports Main "HOL-Library.FSet" "HOL-Library.Finite_Map" "HOL-Library.Word"
    "HOL-Library.Multiset"
begin

text \<open>
  Shared vocabulary of the development: the machine-integer operations the code uses
  (saturating, checked and wrapping arithmetic on \<open>u32\<close> and \<open>u64\<close>), strings and bytes, the
  numerals that Rust's formatter prints, and a small result-and-state monad in which the
  operations of the components that mutate state and may fail are written. The monad comes
  with a Hoare predicate and its composition rules, collected in \<open>hoare_rules\<close>.
\<close>

named_theorems op_simps \<open>unfolding rules of the result-and-state monad\<close>
named_theorems hoare_rules \<open>composition rules of the Hoare predicate\<close>

section \<open>Machine integers\<close>

text \<open>
  Offsets, lengths and timestamps are \<open>u64\<close> (\<open>usize\<close> is 64 bits wide on the supported
  platform), delivery attempts are \<open>u32\<close>. They are natural numbers here; every operation
  whose result depends on the width is written out.
\<close>

type_synonym offset = nat
type_synonym byte = "8 word"
type_synonym bytes = "8 word list"

abbreviation u32_max :: nat where "u32_max \<equiv> 4294967295"
abbreviation u64_max :: nat where "u64_max \<equiv> 18446744073709551615"

definition saturating_add64 :: "nat \<Rightarrow> nat \<Rightarrow> nat" where
  "saturating_add64 a b = min (a + b) u64_max"

definition saturating_add32 :: "nat \<Rightarrow> nat \<Rightarrow> nat" where
  "saturating_add32 a b = min (a + b) u32_max"

definition checked_add64 :: "nat \<Rightarrow> nat \<Rightarrow> nat option" where
  "checked_add64 a b = (if a + b \<le> u64_max then Some (a + b) else None)"

text \<open>The unchecked \<open>+\<close> of a release build.\<close>

definition wrapping_add64 :: "nat \<Rightarrow> nat \<Rightarrow> nat" where
  "wrapping_add64 a b = (a + b) mod 2 ^ 64"

lemma saturating_add64_le [simp]: "saturating_add64 a b \<le> u64_max"
  by (simp add: saturating_add64_def)

lemma saturating_add64_exact: "a + b \<le> u64_max \<Longrightarrow> saturating_add64 a b = a + b"
  by (simp add: saturating_add64_def)

lemma saturating_add64_mono: "a \<le> c \<Longrightarrow> b \<le> d \<Longrightarrow> saturating_add64 a b \<le> saturating_add64 c d"
  by (simp add: saturating_add64_def)

lemma saturating_add64_ge: "a \<le> u64_max \<Longrightarrow> a \<le> saturating_add64 a b"
  by (simp add: saturating_add64_def)

lemma wrapping_add64_exact: "a + b \<le> u64_max \<Longrightarrow> wrapping_add64 a b = a + b"
  by (simp add: wrapping_add64_def)

lemma wrapping_succ [simp]: "c < u64_max \<Longrightarrow> wrapping_add64 c (Suc 0) = Suc c"
  by (simp add: wrapping_add64_def)

lemma saturating_succ32_pos [simp]: "0 < saturating_add32 a (Suc 0)"
  by (simp add: saturating_add32_def)

section \<open>Strings, bytes and printed numerals\<close>

text \<open>
  A Rust \<open>String\<close> is its UTF-8 bytes, one \<open>char\<close> per byte; \<open>len\<close> counts bytes.
\<close>

definition as_bytes :: "string \<Rightarrow> bytes" where
  "as_bytes s = map (\<lambda>c. word_of_nat (of_char c)) s"

definition of_bytes :: "bytes \<Rightarrow> string" where
  "of_bytes bs = map (\<lambda>b. char_of (unat b)) bs"

lemma length_as_bytes [simp]: "length (as_bytes s) = length s"
  by (simp add: as_bytes_def)

lemma as_bytes_Nil [simp]: "as_bytes [] = []"
  by (simp add: as_bytes_def)

lemma as_bytes_eq_Nil_iff [simp]: "as_bytes s = [] \<longleftrightarrow> s = []"
  by (simp add: as_bytes_def)

lemma unat_of_char [simp]: "unat (word_of_nat (of_char c) :: byte) = of_char c"
proof -
  have "(of_char c :: nat) < 256" by simp
  then show ?thesis by (simp add: unat_of_nat)
qed

lemma of_bytes_as_bytes [simp]: "of_bytes (as_bytes s) = s"
  by (simp add: as_bytes_def of_bytes_def comp_def)

lemma as_bytes_inject [simp]: "as_bytes s = as_bytes t \<longleftrightarrow> s = t"
  by (metis of_bytes_as_bytes)

text \<open>The numeral that \<open>{}\<close> (radix 10) and \<open>{:x}\<close> (radix 16) print, without leading zeros.\<close>

definition digit_char :: "nat \<Rightarrow> char" where
  "digit_char d = (if d < 10 then char_of (48 + d) else char_of (87 + d))"

definition digit_value :: "char \<Rightarrow> nat" where
  "digit_value c = (let n = of_char c in if n < 87 then n - 48 else n - 87)"

function radix_string :: "nat \<Rightarrow> nat \<Rightarrow> string" where
  "radix_string b n =
     (if b < 2 \<or> n < b then [digit_char n]
      else radix_string b (n div b) @ [digit_char (n mod b)])"
  by pat_completeness auto
termination
  by (relation "measure snd") (auto intro: div_less_dividend)

declare radix_string.simps [simp del]

abbreviation dec_string :: "nat \<Rightarrow> string" where "dec_string \<equiv> radix_string 10"
abbreviation hex_string :: "nat \<Rightarrow> string" where "hex_string \<equiv> radix_string 16"

definition radix_value :: "nat \<Rightarrow> string \<Rightarrow> nat" where
  "radix_value b s = foldl (\<lambda>acc c. acc * b + digit_value c) 0 s"

lemma digit_value_char [simp]: "d < 16 \<Longrightarrow> digit_value (digit_char d) = d"
  by (simp add: digit_value_def digit_char_def Let_def)

lemma radix_value_string:
  assumes "2 \<le> b" "b \<le> 16"
  shows "radix_value b (radix_string b n) = n"
  using assms
proof (induction b n rule: radix_string.induct)
  case (1 b n)
  show ?case
  proof (cases "n < b")
    case True
    with "1.prems" show ?thesis
      by (simp add: radix_string.simps [of b n] radix_value_def)
  next
    case False
    with "1.IH" "1.prems" have IH: "radix_value b (radix_string b (n div b)) = n div b"
      by simp
    from "1.prems" have "n mod b < b" by simp
    with "1.prems" have "n mod b < 16" by linarith
    with False IH "1.prems" show ?thesis
      by (simp add: radix_string.simps [of b n] radix_value_def)
  qed
qed

lemma radix_string_inject:
  assumes "2 \<le> b" "b \<le> 16"
  shows "radix_string b m = radix_string b n \<longleftrightarrow> m = n"
  using radix_value_string [OF assms] by metis

lemma dec_string_inject [simp]: "dec_string m = dec_string n \<longleftrightarrow> m = n"
  by (simp add: radix_string_inject)

lemma hex_string_inject [simp]: "hex_string m = hex_string n \<longleftrightarrow> m = n"
  by (simp add: radix_string_inject)

lemma radix_string_nonempty [simp]: "radix_string b n \<noteq> []"
  by (subst radix_string.simps) simp

lemma radix_string_digits:
  assumes "2 \<le> b"
  shows "set (radix_string b n) \<subseteq> digit_char ` {..<b}"
  using assms
proof (induction b n rule: radix_string.induct)
  case (1 b n)
  show ?case
  proof (cases "n < b")
    case True
    then show ?thesis by (simp add: radix_string.simps [of b n])
  next
    case False
    with "1.IH" "1.prems" have "set (radix_string b (n div b)) \<subseteq> digit_char ` {..<b}"
      by simp
    moreover from "1.prems" have "n mod b < b" by simp
    ultimately show ?thesis
      using False "1.prems" by (auto simp: radix_string.simps [of b n])
  qed
qed

section \<open>Fallible operations on a state\<close>

text \<open>
  An operation takes the state and returns its result (\<open>Inl\<close> an error) with the state it
  leaves behind. An error does not roll the state back: what the code did before the \<open>?\<close> that
  returned stays done. \<^term>\<open>and_then\<close> is the \<open>?\<close> operator followed by the rest of the body.
\<close>

type_synonym ('s, 'e, 'a) op = "'s \<Rightarrow> ('e + 'a) \<times> 's"

definition return_op :: "'a \<Rightarrow> ('s, 'e, 'a) op" where
  "return_op x s = (Inr x, s)"

definition throw :: "'e \<Rightarrow> ('s, 'e, 'a) op" where
  "throw e s = (Inl e, s)"

definition and_then :: "('s, 'e, 'a) op \<Rightarrow> ('a \<Rightarrow> ('s, 'e, 'b) op) \<Rightarrow> ('s, 'e, 'b) op" where
  "and_then m f s = (case m s of (Inl e, t) \<Rightarrow> (Inl e, t) | (Inr x, t) \<Rightarrow> f x t)"

definition lift_res :: "'e + 'a \<Rightarrow> ('s, 'e, 'a) op" where
  "lift_res r s = (r, s)"

definition reads :: "('s \<Rightarrow> 'a) \<Rightarrow> ('s, 'e, 'a) op" where
  "reads f s = (Inr (f s), s)"

definition modify :: "('s \<Rightarrow> 's) \<Rightarrow> ('s, 'e, unit) op" where
  "modify f s = (Inr (), f s)"

text \<open>Cleanup on the error path: \<open>if let Err(error) = m { h; return Err(error) }\<close>.\<close>

definition on_error :: "('s, 'e, 'a) op \<Rightarrow> ('s \<Rightarrow> 's) \<Rightarrow> ('s, 'e, 'a) op" where
  "on_error m h s = (case m s of (Inl e, t) \<Rightarrow> (Inl e, h t) | (Inr x, t) \<Rightarrow> (Inr x, t))"

definition map_error :: "('e \<Rightarrow> 'f) \<Rightarrow> ('s, 'e, 'a) op \<Rightarrow> ('s, 'f, 'a) op" where
  "map_error g m s = (case m s of (Inl e, t) \<Rightarrow> (Inl (g e), t) | (Inr x, t) \<Rightarrow> (Inr x, t))"

text \<open>A \<open>for\<close> loop whose body may return early with \<open>?\<close>.\<close>

primrec each :: "('x \<Rightarrow> ('s, 'e, unit) op) \<Rightarrow> 'x list \<Rightarrow> ('s, 'e, unit) op" where
  "each f [] = return_op ()"
| "each f (x # xs) = and_then (f x) (\<lambda>_. each f xs)"

text \<open>Run an operation on a part of the state.\<close>

definition zoom :: "('s \<Rightarrow> 't) \<Rightarrow> ('t \<Rightarrow> 's \<Rightarrow> 's) \<Rightarrow> ('t, 'e, 'a) op \<Rightarrow> ('s, 'e, 'a) op" where
  "zoom get put m s = (case m (get s) of (r, t) \<Rightarrow> (r, put t s))"

lemmas op_defs [op_simps] =
  return_op_def throw_def and_then_def lift_res_def reads_def modify_def
  on_error_def map_error_def zoom_def

lemma and_then_assoc: "and_then (and_then m f) g = and_then m (\<lambda>x. and_then (f x) g)"
  by (rule ext) (simp add: and_then_def split: prod.splits sum.splits)

lemma and_then_return [simp]: "and_then m return_op = m"
  by (rule ext) (simp add: and_then_def return_op_def split: prod.splits sum.splits)

lemma return_and_then [simp]: "and_then (return_op x) f = f x"
  by (rule ext) (simp add: and_then_def return_op_def)

subsection \<open>Hoare reasoning\<close>

text \<open>
  \<^term>\<open>hoare P m Q R\<close>: run from a state satisfying \<open>P\<close>, a successful \<open>m\<close> establishes \<open>Q\<close>
  of its result and the state it leaves, a failing one establishes \<open>R\<close>.
\<close>

definition hoare ::
  "('s \<Rightarrow> bool) \<Rightarrow> ('s, 'e, 'a) op \<Rightarrow> ('a \<Rightarrow> 's \<Rightarrow> bool) \<Rightarrow> ('e \<Rightarrow> 's \<Rightarrow> bool) \<Rightarrow> bool" where
  "hoare P m Q R \<longleftrightarrow>
     (\<forall>s. P s \<longrightarrow> (case m s of (Inl e, t) \<Rightarrow> R e t | (Inr x, t) \<Rightarrow> Q x t))"

abbreviation keeps :: "('s \<Rightarrow> bool) \<Rightarrow> ('s, 'e, 'a) op \<Rightarrow> bool" where
  "keeps P m \<equiv> hoare P m (\<lambda>_. P) (\<lambda>_. P)"

lemma hoareI:
  assumes "\<And>s x t. P s \<Longrightarrow> m s = (Inr x, t) \<Longrightarrow> Q x t"
    and "\<And>s e t. P s \<Longrightarrow> m s = (Inl e, t) \<Longrightarrow> R e t"
  shows "hoare P m Q R"
  using assms by (auto simp: hoare_def split: prod.split sum.split)

lemma hoareD_ok: "hoare P m Q R \<Longrightarrow> P s \<Longrightarrow> m s = (Inr x, t) \<Longrightarrow> Q x t"
  by (auto simp: hoare_def)

lemma hoareD_err: "hoare P m Q R \<Longrightarrow> P s \<Longrightarrow> m s = (Inl e, t) \<Longrightarrow> R e t"
  by (auto simp: hoare_def)

lemma keepsD: "keeps P m \<Longrightarrow> P s \<Longrightarrow> P (snd (m s))"
  by (cases "m s"; cases "fst (m s)") (auto simp: hoare_def split: sum.splits)

lemma hoare_and_then [hoare_rules]:
  "hoare P m Q R \<Longrightarrow> (\<And>x. hoare (Q x) (f x) S R) \<Longrightarrow> hoare P (and_then m f) S R"
  by (fastforce simp: hoare_def and_then_def split: prod.splits sum.splits)

lemma hoare_return [hoare_rules]: "hoare (Q x) (return_op x) Q R"
  by (simp add: hoare_def return_op_def)

lemma hoare_throw [hoare_rules]: "hoare (R e) (throw e) Q R"
  by (simp add: hoare_def throw_def)

lemma hoare_weaken_pre: "hoare P' m Q R \<Longrightarrow> (\<And>s. P s \<Longrightarrow> P' s) \<Longrightarrow> hoare P m Q R"
  by (simp add: hoare_def)

lemma hoare_strengthen_post:
  "hoare P m Q R \<Longrightarrow> (\<And>x s. Q x s \<Longrightarrow> Q' x s) \<Longrightarrow> (\<And>e s. R e s \<Longrightarrow> R' e s) \<Longrightarrow> hoare P m Q' R'"
  by (fastforce simp: hoare_def split: prod.splits sum.splits)

lemma hoare_each [hoare_rules]:
  assumes "\<And>x. x \<in> set xs \<Longrightarrow> hoare I (f x) (\<lambda>_. I) R"
  shows "hoare I (each f xs) (\<lambda>_. I) R"
  using assms
proof (induction xs)
  case Nil
  show ?case by (simp add: hoare_def return_op_def)
next
  case (Cons x xs)
  have "hoare I (f x) (\<lambda>_. I) R" by (rule Cons.prems) simp
  moreover have "hoare I (each f xs) (\<lambda>_. I) R" by (rule Cons.IH) (rule Cons.prems, simp)
  ultimately show ?case by (auto intro: hoare_and_then)
qed

section \<open>Lists, options and finite maps\<close>

text \<open>\<open>entry(k).or_insert(v)\<close> of the map types.\<close>

definition or_insert :: "'k \<Rightarrow> 'v \<Rightarrow> ('k, 'v) fmap \<Rightarrow> ('k, 'v) fmap" where
  "or_insert k v m = (case fmlookup m k of None \<Rightarrow> fmupd k v m | Some _ \<Rightarrow> m)"

lemma fmlookup_or_insert [simp]:
  "fmlookup (or_insert k v m) j =
     (if j = k then (case fmlookup m k of None \<Rightarrow> Some v | Some w \<Rightarrow> Some w) else fmlookup m j)"
  by (auto simp: or_insert_def split: option.split)

lemma fmdom_or_insert [simp]: "fmdom (or_insert k v m) = finsert k (fmdom m)"
  by (auto simp: or_insert_def fmlookup_dom_iff split: option.split)

text \<open>\<open>Vec::swap_remove\<close>: the last element takes the place of the removed one.\<close>

definition swap_remove :: "nat \<Rightarrow> 'a list \<Rightarrow> 'a list" where
  "swap_remove i xs = (if i < length xs then butlast (xs[i := last xs]) else xs)"

text \<open>\<open>iter().position(p)\<close>.\<close>

primrec position :: "('a \<Rightarrow> bool) \<Rightarrow> 'a list \<Rightarrow> nat option" where
  "position p [] = None"
| "position p (x # xs) = (if p x then Some 0 else map_option Suc (position p xs))"

lemma position_SomeD: "position p xs = Some i \<Longrightarrow> i < length xs \<and> p (xs ! i)"
  by (induction xs arbitrary: i) (auto split: if_splits)

lemma position_None_iff: "position p xs = None \<longleftrightarrow> (\<forall>x \<in> set xs. \<not> p x)"
  by (induction xs) auto

lemma mset_swap_remove: "i < length xs \<Longrightarrow> mset (swap_remove i xs) = mset xs - {#xs ! i#}"
proof -
  assume i: "i < length xs"
  then have ne: "xs[i := last xs] \<noteq> []" by auto
  have l: "last (xs[i := last xs]) = last xs"
    using i by (cases xs rule: rev_cases) (auto simp: list_update_append split: nat.split)
  have "mset (xs[i := last xs]) = mset (butlast (xs[i := last xs])) + {#last xs#}"
    using ne l by (metis append_butlast_last_id mset.simps(1,2) mset_append)
  moreover have "mset (xs[i := last xs]) = add_mset (last xs) (mset xs - {#xs ! i#})"
    using i by (rule mset_update)
  ultimately show ?thesis using i by (simp add: swap_remove_def)
qed

end
