(* ===== verification/Engine_Contract.thy ===== *)
theory Engine_Contract
  imports Runnel_Prelude
begin

text \<open>
  The topology-free engine contract of \<open>crates/runnel-engine/src/lib.rs\<close>: its limits, the
  message and policy types, the error type with its semantic classification, the request
  validators, and the conservative size bounds of the encoded poll responses.
\<close>

section \<open>Limits\<close>

definition MAX_CONSUMER_POLICY_ACK_TIMEOUT_MS :: nat where
  "MAX_CONSUMER_POLICY_ACK_TIMEOUT_MS = 7 * 24 * 60 * 60 * 1000"

definition MAX_CONSUMER_POLICY_RETRY_DELAY_MS :: nat where
  "MAX_CONSUMER_POLICY_RETRY_DELAY_MS = MAX_CONSUMER_POLICY_ACK_TIMEOUT_MS"

definition MAX_PUBLISH_BATCH_RECORDS :: nat where
  "MAX_PUBLISH_BATCH_RECORDS = 1024"

definition MAX_CONSUME_BATCH_RECORDS :: nat where
  "MAX_CONSUME_BATCH_RECORDS = 1024"

definition MAX_CONSUME_BATCH_RESPONSE_BYTES :: nat where
  "MAX_CONSUME_BATCH_RESPONSE_BYTES = 65 * 1024 * 1024"

lemmas engine_limits =
  MAX_CONSUMER_POLICY_ACK_TIMEOUT_MS_def MAX_CONSUMER_POLICY_RETRY_DELAY_MS_def
  MAX_PUBLISH_BATCH_RECORDS_def MAX_CONSUME_BATCH_RECORDS_def
  MAX_CONSUME_BATCH_RESPONSE_BYTES_def

section \<open>Data\<close>

record consume_batch_limits =
  max_records :: nat
  max_bytes :: nat
  max_wait_ms :: nat

record delivery_receipt =
  receipt_offset :: offset
  receipt_token :: string

datatype ack_batch_rejection = NotInFlight | StaleReceipt

datatype ack_batch_outcome =
    Confirmed
  | AlreadyConfirmed
  | Rejected ack_batch_rejection

record ack_batch_item =
  item_offset :: offset
  item_outcome :: ack_batch_outcome

record publish_record =
  pr_key :: "string option"
  pr_payload :: bytes
  pr_request_id :: "string option"

record consumer_policy =
  cp_version :: nat
  cp_configured :: bool
  cp_ack_timeout_ms :: nat
  cp_max_delivery_attempts :: "nat option"
  cp_retry_delay_ms :: nat

definition policy_legacy :: "nat \<Rightarrow> nat option \<Rightarrow> consumer_policy" where
  "policy_legacy timeout_ms max_attempts =
     \<lparr>cp_version = 0, cp_configured = False, cp_ack_timeout_ms = timeout_ms,
      cp_max_delivery_attempts = max_attempts, cp_retry_delay_ms = 0\<rparr>"

definition policy_configured ::
  "nat \<Rightarrow> nat \<Rightarrow> nat option \<Rightarrow> nat \<Rightarrow> consumer_policy" where
  "policy_configured version timeout_ms max_attempts delay_ms =
     \<lparr>cp_version = version, cp_configured = True, cp_ack_timeout_ms = timeout_ms,
      cp_max_delivery_attempts = max_attempts, cp_retry_delay_ms = delay_ms\<rparr>"

record message =
  m_stream :: string
  m_offset :: offset
  m_key :: "string option"
  m_payload :: bytes
  m_published_at_ms :: nat
  m_delivery_token :: "string option"
  m_delivery_attempt :: "nat option"

record replay_message =
  rm_stream :: string
  rm_offset :: offset
  rm_key :: "string option"
  rm_payload :: bytes
  rm_published_at_ms :: nat

datatype poll_result = PollMessage message | PollEmpty

datatype ack_result = Acknowledged | AlreadyAcknowledged

record health_snapshot =
  hs_streams :: nat
  hs_storage_bytes :: nat
  hs_in_flight_deliveries :: nat
  hs_redeliveries :: nat
  hs_dead_letters :: nat

section \<open>Errors\<close>

text \<open>
  \<open>std::io::Error\<close> as its kind and message; a \<open>serde_json::Error\<close> is its message.
\<close>

datatype io_kind =
    IoNotFound | IoWouldBlock | IoInvalidInput | IoInvalidData | IoInterrupted
  | IoAlreadyExists | IoUnexpectedEof | IoOther

datatype io_error = IoError (io_error_kind: io_kind) (io_message: string)

datatype consumer_state_persist_stage = BeforeAppend | Append | Sync

datatype broker_error =
    InvalidName string string
  | InvalidRecord string
  | StreamNotFound string
  | StreamNotReady string
  | AckNotInFlight string offset
  | StaleDelivery string offset
  | OutOfOrderAck string offset offset
  | HistoryUnavailable string offset offset offset
  | CorruptRecord offset
  | Io io_error
  | State string
  | ConsumerStatePersistence consumer_state_persist_stage string
  | RequestIdContentConflict
  | LockPoisoned
  | Configuration string
  | InvalidBatchRequest string
  | ConsumeBatchRecordTooLarge nat
  | ResponseTooLarge nat
  | NotLeader "nat option"
  | Cluster string

datatype broker_error_kind =
    KindInvalidRequest | KindResourceNotFound | KindResourceNotReady | KindDeliveryRejected
  | KindRequestIdContentConflict | KindHistoryUnavailable | KindCorruptData | KindStorage
  | KindState | KindConfiguration | KindRouting | KindCluster | KindInternal

datatype broker_error_outcome = OutcomeRejected | OutcomeRetryable | OutcomeUnknown

fun error_kind :: "broker_error \<Rightarrow> broker_error_kind" where
  "error_kind (InvalidName _ _) = KindInvalidRequest"
| "error_kind (InvalidRecord _) = KindInvalidRequest"
| "error_kind (StreamNotFound _) = KindResourceNotFound"
| "error_kind (StreamNotReady _) = KindResourceNotReady"
| "error_kind (AckNotInFlight _ _) = KindDeliveryRejected"
| "error_kind (StaleDelivery _ _) = KindDeliveryRejected"
| "error_kind (OutOfOrderAck _ _ _) = KindDeliveryRejected"
| "error_kind RequestIdContentConflict = KindRequestIdContentConflict"
| "error_kind (HistoryUnavailable _ _ _ _) = KindHistoryUnavailable"
| "error_kind (CorruptRecord _) = KindCorruptData"
| "error_kind (Io _) = KindStorage"
| "error_kind (State _) = KindState"
| "error_kind (ConsumerStatePersistence _ _) = KindState"
| "error_kind LockPoisoned = KindInternal"
| "error_kind (Configuration _) = KindConfiguration"
| "error_kind (InvalidBatchRequest _) = KindInvalidRequest"
| "error_kind (ConsumeBatchRecordTooLarge _) = KindInvalidRequest"
| "error_kind (ResponseTooLarge _) = KindInvalidRequest"
| "error_kind (NotLeader _) = KindRouting"
| "error_kind (Cluster _) = KindCluster"

fun kind_outcome :: "broker_error_kind \<Rightarrow> broker_error_outcome" where
  "kind_outcome KindResourceNotReady = OutcomeRetryable"
| "kind_outcome KindRouting = OutcomeRetryable"
| "kind_outcome KindCorruptData = OutcomeUnknown"
| "kind_outcome KindStorage = OutcomeUnknown"
| "kind_outcome KindState = OutcomeUnknown"
| "kind_outcome KindInternal = OutcomeUnknown"
| "kind_outcome KindCluster = OutcomeUnknown"
| "kind_outcome KindInvalidRequest = OutcomeRejected"
| "kind_outcome KindResourceNotFound = OutcomeRejected"
| "kind_outcome KindDeliveryRejected = OutcomeRejected"
| "kind_outcome KindRequestIdContentConflict = OutcomeRejected"
| "kind_outcome KindHistoryUnavailable = OutcomeRejected"
| "kind_outcome KindConfiguration = OutcomeRejected"

definition error_outcome :: "broker_error \<Rightarrow> broker_error_outcome" where
  "error_outcome e =
     (case e of ConsumerStatePersistence BeforeAppend _ \<Rightarrow> OutcomeRetryable
      | _ \<Rightarrow> kind_outcome (error_kind e))"

text \<open>The \<open>Display\<close> text of an error, where the code stores it inside another error.\<close>

fun stage_debug :: "consumer_state_persist_stage \<Rightarrow> string" where
  "stage_debug BeforeAppend = ''BeforeAppend''"
| "stage_debug Append = ''Append''"
| "stage_debug Sync = ''Sync''"

fun error_to_string :: "broker_error \<Rightarrow> string" where
  "error_to_string (InvalidName kind name) =
     ''invalid '' @ kind @ '' name '' @ [CHR 0x27] @ name @ [CHR 0x27] @
     ''; use 1-128 ASCII letters, digits, '' @ [CHR 0x27] @ ''.'' @ [CHR 0x27] @ '', '' @
     [CHR 0x27] @ ''_'' @ [CHR 0x27] @ '', or '' @ [CHR 0x27] @ ''-'' @ [CHR 0x27]"
| "error_to_string (InvalidRecord m) = ''invalid message record: '' @ m"
| "error_to_string (StreamNotFound s) = ''stream '' @ [CHR 0x27] @ s @ [CHR 0x27] @ '' does not exist''"
| "error_to_string (StreamNotReady s) = ''stream '' @ [CHR 0x27] @ s @ [CHR 0x27] @ '' is not ready''"
| "error_to_string (AckNotInFlight c off) =
     ''consumer '' @ [CHR 0x27] @ c @ [CHR 0x27] @ '' has no in-flight message for offset '' @ dec_string off"
| "error_to_string (StaleDelivery c off) =
     ''consumer '' @ [CHR 0x27] @ c @ [CHR 0x27] @ '' has a stale delivery for offset '' @ dec_string off"
| "error_to_string (OutOfOrderAck c expected received) =
     ''consumer '' @ [CHR 0x27] @ c @ [CHR 0x27] @ '' must acknowledge offset '' @ dec_string expected @
     '' before offset '' @ dec_string received"
| "error_to_string (HistoryUnavailable s requested earliest next) =
     ''replay offset '' @ dec_string requested @ '' is unavailable for stream '' @ [CHR 0x27] @ s @
     [CHR 0x27] @ ''; available offsets are ['' @ dec_string earliest @ '', '' @ dec_string next @ '')''"
| "error_to_string (CorruptRecord off) = ''record log is malformed at offset '' @ dec_string off"
| "error_to_string (Io e) = ''I/O error: '' @ io_message e"
| "error_to_string (State m) = ''consumer state error: '' @ m"
| "error_to_string (ConsumerStatePersistence stage m) =
     ''consumer state persistence failed at '' @ stage_debug stage @ '': '' @ m"
| "error_to_string RequestIdContentConflict =
     ''request ID was already used for different message content''"
| "error_to_string LockPoisoned = ''broker lock is poisoned''"
| "error_to_string (Configuration m) = ''invalid broker configuration: '' @ m"
| "error_to_string (InvalidBatchRequest m) = ''invalid consume-batch request: '' @ m"
| "error_to_string (ConsumeBatchRecordTooLarge n) =
     ''the first eligible message cannot fit in the '' @ dec_string n @
     ''-byte consume-batch response bound''"
| "error_to_string (ResponseTooLarge n) =
     ''the eligible message cannot fit in the '' @ dec_string n @ ''-byte response bound''"
| "error_to_string (NotLeader leader) =
     ''request must be sent to the elected leader '' @
     (case leader of None \<Rightarrow> ''None'' | Some n \<Rightarrow> ''Some('' @ dec_string n @ '')'')"
| "error_to_string (Cluster m) = ''cluster error: '' @ m"

section \<open>Request validation\<close>

definition validate_consume_batch_limits :: "consume_batch_limits \<Rightarrow> broker_error + unit" where
  "validate_consume_batch_limits limits =
     (if \<not> (1 \<le> max_records limits \<and> max_records limits \<le> MAX_CONSUME_BATCH_RECORDS)
      then Inl (InvalidBatchRequest (''max_records must be between 1 and '' @
             dec_string MAX_CONSUME_BATCH_RECORDS))
      else if max_bytes limits = 0 \<or> max_bytes limits > MAX_CONSUME_BATCH_RESPONSE_BYTES
      then Inl (InvalidBatchRequest (''max_bytes must be between 1 and '' @
             dec_string MAX_CONSUME_BATCH_RESPONSE_BYTES))
      else Inr ())"

definition validate_poll_response_limit :: "nat \<Rightarrow> broker_error + unit" where
  "validate_poll_response_limit max_response_bytes =
     (if \<not> (1 \<le> max_response_bytes \<and> max_response_bytes \<le> MAX_CONSUME_BATCH_RESPONSE_BYTES)
      then Inl (InvalidBatchRequest (''max_response_bytes must be between 1 and '' @
             dec_string MAX_CONSUME_BATCH_RESPONSE_BYTES))
      else Inr ())"

text \<open>The duplicate check inserts every receipt's offset into a set and stops at the first repeat.\<close>

fun check_distinct_receipts :: "offset fset \<Rightarrow> delivery_receipt list \<Rightarrow> broker_error + unit" where
  "check_distinct_receipts seen [] = Inr ()"
| "check_distinct_receipts seen (r # rs) =
     (if receipt_offset r |\<in>| seen
      then Inl (InvalidBatchRequest (''duplicate acknowledgement offset '' @ dec_string (receipt_offset r)))
      else check_distinct_receipts (finsert (receipt_offset r) seen) rs)"

definition validate_ack_batch_receipts :: "delivery_receipt list \<Rightarrow> broker_error + unit" where
  "validate_ack_batch_receipts receipts =
     (if receipts = [] \<or> length receipts > MAX_CONSUME_BATCH_RECORDS
      then Inl (InvalidBatchRequest (''acknowledgement receipt count must be between 1 and '' @
             dec_string MAX_CONSUME_BATCH_RECORDS))
      else check_distinct_receipts {||} receipts)"

definition validate_consumer_policy :: "nat \<Rightarrow> nat option \<Rightarrow> nat \<Rightarrow> broker_error + unit" where
  "validate_consumer_policy timeout_ms max_attempts delay_ms =
     (if timeout_ms > MAX_CONSUMER_POLICY_ACK_TIMEOUT_MS
      then Inl (Configuration (''consumer acknowledgement timeout must not exceed '' @
             dec_string MAX_CONSUMER_POLICY_ACK_TIMEOUT_MS @ '' milliseconds''))
      else if max_attempts = Some 0
      then Inl (Configuration ''max delivery attempts must be greater than zero'')
      else if delay_ms > MAX_CONSUMER_POLICY_RETRY_DELAY_MS
      then Inl (Configuration (''consumer retry delay must not exceed '' @
             dec_string MAX_CONSUMER_POLICY_RETRY_DELAY_MS @ '' milliseconds''))
      else Inr ())"

lemma validate_consumer_policy_Inr [simp]:
  "validate_consumer_policy t m d = Inr () \<longleftrightarrow>
     t \<le> MAX_CONSUMER_POLICY_ACK_TIMEOUT_MS \<and> m \<noteq> Some 0 \<and>
     d \<le> MAX_CONSUMER_POLICY_RETRY_DELAY_MS"
  by (auto simp: validate_consumer_policy_def)

lemma check_distinct_receipts_Inr:
  "check_distinct_receipts seen rs = Inr () \<longleftrightarrow>
     distinct (map receipt_offset rs) \<and> fset seen \<inter> receipt_offset ` set rs = {}"
  by (induction rs arbitrary: seen) auto

lemma validate_ack_batch_receipts_Inr:
  "validate_ack_batch_receipts rs = Inr () \<longleftrightarrow>
     rs \<noteq> [] \<and> length rs \<le> MAX_CONSUME_BATCH_RECORDS \<and> distinct (map receipt_offset rs)"
  by (auto simp: validate_ack_batch_receipts_def check_distinct_receipts_Inr)

section \<open>Response size bounds\<close>

function protobuf_varint_loop :: "nat \<Rightarrow> nat \<Rightarrow> nat" where
  "protobuf_varint_loop value len =
     (if value \<ge> 128 then protobuf_varint_loop (value div 128) (len + 1) else len)"
  by pat_completeness auto
termination
  by (relation "measure fst") auto

declare protobuf_varint_loop.simps [simp del]

definition protobuf_varint_len :: "nat \<Rightarrow> nat" where
  "protobuf_varint_len value = protobuf_varint_loop value 1"

definition protobuf_bytes_field_upper_bound :: "nat \<Rightarrow> nat" where
  "protobuf_bytes_field_upper_bound value_len =
     saturating_add64 (saturating_add64 1 (protobuf_varint_len value_len)) value_len"

definition protobuf_string_field_upper_bound :: "string \<Rightarrow> nat" where
  "protobuf_string_field_upper_bound v = protobuf_bytes_field_upper_bound (length v)"

definition protobuf_varint_field_upper_bound :: "nat \<Rightarrow> nat" where
  "protobuf_varint_field_upper_bound value = saturating_add64 1 (protobuf_varint_len value)"

definition length_delimited_field_upper_bound :: "nat \<Rightarrow> nat" where
  "length_delimited_field_upper_bound value_len = protobuf_bytes_field_upper_bound value_len"

record message_result_metadata =
  md_stream :: string
  md_consumer :: string
  md_member :: "string option"
  md_offset :: offset
  md_key :: "string option"
  md_payload_len :: nat
  md_published_at_ms :: nat
  md_delivery_token :: "string option"
  md_delivery_attempt :: "nat option"
  md_include_delivery_token :: bool

definition message_result_upper_bound :: "message_result_metadata \<Rightarrow> nat" where
  "message_result_upper_bound m =
     (let len = saturating_add64 (saturating_add64 (saturating_add64 (saturating_add64
                  (protobuf_string_field_upper_bound (md_stream m))
                  (protobuf_string_field_upper_bound (md_consumer m)))
                  (protobuf_varint_field_upper_bound (md_offset m)))
                  (protobuf_bytes_field_upper_bound (md_payload_len m)))
                  (protobuf_varint_field_upper_bound (md_published_at_ms m));
          len = (case md_member m of None \<Rightarrow> len
                 | Some member \<Rightarrow> saturating_add64 len (protobuf_string_field_upper_bound member));
          len = (case md_key m of None \<Rightarrow> len
                 | Some key \<Rightarrow> saturating_add64 len (protobuf_string_field_upper_bound key));
          len = (case md_delivery_token m of
                   Some token \<Rightarrow>
                     if md_include_delivery_token m
                     then saturating_add64 len (protobuf_string_field_upper_bound token) else len
                 | None \<Rightarrow> len);
          len = (case md_delivery_attempt m of None \<Rightarrow> len
                 | Some attempt \<Rightarrow> saturating_add64 len (protobuf_varint_field_upper_bound attempt))
      in len)"

definition poll_message_response_upper_bound_parts :: "message_result_metadata \<Rightarrow> nat" where
  "poll_message_response_upper_bound_parts md =
     (let message_len = message_result_upper_bound md;
          application_response_len =
            saturating_add64 4 (length_delimited_field_upper_bound message_len)
      in length_delimited_field_upper_bound application_response_len)"

definition message_metadata :: "message \<Rightarrow> string \<Rightarrow> string option \<Rightarrow> bool \<Rightarrow> message_result_metadata" where
  "message_metadata m consumer member include_delivery_token =
     \<lparr>md_stream = m_stream m, md_consumer = consumer, md_member = member,
      md_offset = m_offset m, md_key = m_key m, md_payload_len = length (m_payload m),
      md_published_at_ms = m_published_at_ms m, md_delivery_token = m_delivery_token m,
      md_delivery_attempt = m_delivery_attempt m,
      md_include_delivery_token = include_delivery_token\<rparr>"

definition poll_message_response_upper_bound ::
  "message \<Rightarrow> string \<Rightarrow> string option \<Rightarrow> bool \<Rightarrow> nat" where
  "poll_message_response_upper_bound m consumer member include_delivery_token =
     poll_message_response_upper_bound_parts (message_metadata m consumer member include_delivery_token)"

definition batch_message_item_upper_bound :: "message \<Rightarrow> string \<Rightarrow> string option \<Rightarrow> nat" where
  "batch_message_item_upper_bound m consumer member =
     (let message_len = message_result_upper_bound
            (message_metadata m consumer member (m_delivery_token m \<noteq> None));
          item_len = saturating_add64 4 (length_delimited_field_upper_bound message_len)
      in length_delimited_field_upper_bound item_len)"

record poll_batch_response_sizer =
  sz_consumer :: string
  sz_member :: "string option"
  sz_encoded_len :: nat

definition sizer_new :: "string \<Rightarrow> string \<Rightarrow> string option \<Rightarrow> poll_batch_response_sizer" where
  "sizer_new stream consumer member =
     (let batch_result_len = saturating_add64 (protobuf_string_field_upper_bound stream)
            (protobuf_string_field_upper_bound consumer);
          application_response_len = length_delimited_field_upper_bound batch_result_len
      in \<lparr>sz_consumer = consumer, sz_member = member,
          sz_encoded_len = length_delimited_field_upper_bound application_response_len\<rparr>)"

definition projected_len :: "poll_batch_response_sizer \<Rightarrow> message \<Rightarrow> nat" where
  "projected_len z m =
     saturating_add64 (sz_encoded_len z) (batch_message_item_upper_bound m (sz_consumer z) (sz_member z))"

definition sizer_push :: "poll_batch_response_sizer \<Rightarrow> message \<Rightarrow> poll_batch_response_sizer" where
  "sizer_push z m = z\<lparr>sz_encoded_len := projected_len z m\<rparr>"

definition poll_batch_response_len ::
  "string \<Rightarrow> string \<Rightarrow> string option \<Rightarrow> message list \<Rightarrow> nat" where
  "poll_batch_response_len stream consumer member messages =
     sz_encoded_len (foldl sizer_push (sizer_new stream consumer member) messages)"

subsection \<open>The size of a varint\<close>

lemma protobuf_varint_loop_bounds:
  assumes "0 < k"
  shows "\<exists>n. protobuf_varint_loop v k = k + n \<and> v < 128 ^ Suc n \<and> (0 < n \<longrightarrow> 128 ^ n \<le> v)"
  using assms
proof (induction v k rule: protobuf_varint_loop.induct)
  case (1 v k)
  show ?case
  proof (cases "v \<ge> 128")
    case True
    with "1.IH" obtain n where n: "protobuf_varint_loop (v div 128) (k + 1) = k + 1 + n"
      "v div 128 < 128 ^ Suc n" "0 < n \<longrightarrow> 128 ^ n \<le> v div 128"
      by auto
    from n(2) have "v < 128 ^ Suc (Suc n)"
      by (simp add: div_less_iff_less_mult)
    moreover from n(3) True have "128 ^ Suc n \<le> v"
      by (cases n) (auto simp: less_eq_div_iff_mult_less_eq)
    ultimately show ?thesis
      using True n(1) by (intro exI [of _ "Suc n"]) (simp add: protobuf_varint_loop.simps [of v k])
  next
    case False
    then show ?thesis
      by (intro exI [of _ 0]) (simp add: protobuf_varint_loop.simps [of v k])
  qed
qed

lemma protobuf_varint_len_spec:
  "v < 128 ^ protobuf_varint_len v \<and>
   (1 < protobuf_varint_len v \<longrightarrow> 128 ^ (protobuf_varint_len v - 1) \<le> v) \<and>
   1 \<le> protobuf_varint_len v"
  using protobuf_varint_loop_bounds [of 1 v] by (auto simp: protobuf_varint_len_def)

lemma protobuf_varint_len_le_10: "v \<le> u64_max \<Longrightarrow> protobuf_varint_len v \<le> 10"
proof (rule ccontr)
  assume b: "v \<le> u64_max" and "\<not> protobuf_varint_len v \<le> 10"
  then have "(10::nat) \<le> protobuf_varint_len v - 1" "1 < protobuf_varint_len v" by auto
  then have "(128::nat) ^ 10 \<le> 128 ^ (protobuf_varint_len v - 1)"
    by (intro power_increasing) auto
  moreover have "128 ^ (protobuf_varint_len v - 1) \<le> v"
    using protobuf_varint_len_spec [of v] \<open>1 < protobuf_varint_len v\<close> by blast
  ultimately have "(128::nat) ^ 10 \<le> v" by (rule order_trans)
  with b show False by simp
qed

subsection \<open>The incremental sizer\<close>

lemma sizer_push_sel [simp]:
  "sz_consumer (sizer_push z m) = sz_consumer z" "sz_member (sizer_push z m) = sz_member z"
  "sz_encoded_len (sizer_push z m) = projected_len z m"
  by (simp_all add: sizer_push_def)

lemma foldl_sizer_push_sel [simp]:
  "sz_consumer (foldl sizer_push z ms) = sz_consumer z"
  "sz_member (foldl sizer_push z ms) = sz_member z"
  by (induction ms arbitrary: z) auto

lemma protobuf_bytes_field_upper_bound_le [simp]: "protobuf_bytes_field_upper_bound n \<le> u64_max"
  by (simp add: protobuf_bytes_field_upper_bound_def)

lemma sizer_new_len_le [simp]: "sz_encoded_len (sizer_new s c m) \<le> u64_max"
  by (simp add: sizer_new_def length_delimited_field_upper_bound_def Let_def)

lemma projected_len_le [simp]: "projected_len z m \<le> u64_max"
  by (simp add: projected_len_def)

lemma projected_len_ge: "sz_encoded_len z \<le> u64_max \<Longrightarrow> sz_encoded_len z \<le> projected_len z m"
  by (simp add: projected_len_def saturating_add64_ge)

lemma sizer_total:
  assumes "sz_encoded_len z \<le> u64_max"
  shows "sz_encoded_len (foldl sizer_push z ms) =
    min u64_max (sz_encoded_len z +
      (\<Sum>m\<leftarrow>ms. batch_message_item_upper_bound m (sz_consumer z) (sz_member z)))"
  using assms
proof (induction ms arbitrary: z)
  case Nil
  then show ?case by simp
next
  case (Cons m ms)
  have "sz_encoded_len (foldl sizer_push (sizer_push z m) ms) =
    min u64_max (projected_len z m +
      (\<Sum>m\<leftarrow>ms. batch_message_item_upper_bound m (sz_consumer z) (sz_member z)))"
    using Cons.IH [of "sizer_push z m"] by simp
  then show ?case by (simp add: projected_len_def saturating_add64_def)
qed

section \<open>The trait's default publish batch\<close>

text \<open>
  The default method publishes record by record through \<open>publish\<close> (here any operation on the
  engine's state) and collects the outcomes.
\<close>

fun publish_each ::
  "(publish_record \<Rightarrow> 's \<Rightarrow> (broker_error + offset) \<times> 's) \<Rightarrow> publish_record list \<Rightarrow> 's \<Rightarrow>
   (broker_error + offset) list \<times> 's" where
  "publish_each publish [] s = ([], s)"
| "publish_each publish (r # rs) s =
     (case publish r s of (outcome, s1) \<Rightarrow>
      case publish_each publish rs s1 of (outcomes, s2) \<Rightarrow> (outcome # outcomes, s2))"

definition default_publish_batch ::
  "(publish_record \<Rightarrow> 's \<Rightarrow> (broker_error + offset) \<times> 's) \<Rightarrow> publish_record list \<Rightarrow>
   ('s, broker_error, (broker_error + offset) list) op" where
  "default_publish_batch publish records s =
     (if length records > MAX_PUBLISH_BATCH_RECORDS
      then (Inl (Configuration (''publish batch contains more than '' @
              dec_string MAX_PUBLISH_BATCH_RECORDS @ '' records'')), s)
      else case publish_each publish records s of (outcomes, s1) \<Rightarrow> (Inr outcomes, s1))"

lemma length_publish_each: "length (fst (publish_each publish rs s)) = length rs"
proof (induction rs arbitrary: s)
  case Nil
  show ?case by simp
next
  case (Cons r rs)
  obtain outcome s1 where 1: "publish r s = (outcome, s1)" by fastforce
  obtain outcomes s2 where 2: "publish_each publish rs s1 = (outcomes, s2)" by fastforce
  from Cons.IH [of s1] 1 2 show ?case by simp
qed

section \<open>Properties\<close>

text \<open>The varint length the size bounds use is the least number of seven-bit groups that holds the
  value, and at least one.\<close>

theorem varint_len_least:
  "protobuf_varint_len v = (LEAST n. 1 \<le> n \<and> v < 128 ^ n)"
proof (rule Least_equality [symmetric])
  show "1 \<le> protobuf_varint_len v \<and> v < 128 ^ protobuf_varint_len v"
    using protobuf_varint_len_spec by blast
  fix n :: nat
  assume n: "1 \<le> n \<and> v < 128 ^ n"
  show "protobuf_varint_len v \<le> n"
  proof (rule ccontr)
    assume "\<not> protobuf_varint_len v \<le> n"
    with n have "n \<le> protobuf_varint_len v - 1" "1 < protobuf_varint_len v" by auto
    then have "(128::nat) ^ n \<le> 128 ^ (protobuf_varint_len v - 1)" by (intro power_increasing) auto
    also have "\<dots> \<le> v" using protobuf_varint_len_spec [of v] \<open>1 < protobuf_varint_len v\<close> by blast
    finally show False using n by simp
  qed
qed


text \<open>A batch acknowledgement is accepted exactly when it is non-empty, within the record limit and
  names no offset twice.\<close>

theorem ack_batch_receipts_accepted:
  "validate_ack_batch_receipts rs = Inr () \<longleftrightarrow>
     rs \<noteq> [] \<and> length rs \<le> MAX_CONSUME_BATCH_RECORDS \<and> distinct (map receipt_offset rs)"
  by (rule validate_ack_batch_receipts_Inr)

end
