(* ===== verification/Core_Names.thy ===== *)
theory Core_Names
  imports Engine_Contract
begin

text \<open>
  Names and derived identities of the local engine (\<open>crates/runnel-core/src/lib.rs\<close>): the name
  validator, the dead-letter stream derived from a source stream, the internal identity of a
  dead-letter move, and the test that recognises derived streams.
\<close>

unbundle bit_operations_syntax

definition DEAD_LETTER_SUFFIX :: string where
  "DEAD_LETTER_SUFFIX = ''.dead-letter''"

definition DEAD_LETTER_HASH_PREFIX :: string where
  "DEAD_LETTER_HASH_PREFIX = ''runnel.dead-letter.''"

definition MAX_REQUEST_ID_LEN :: nat where
  "MAX_REQUEST_ID_LEN = 1024"

definition is_ascii_alphanumeric :: "char \<Rightarrow> bool" where
  "is_ascii_alphanumeric c =
     (let n = (of_char c :: nat)
      in (48 \<le> n \<and> n \<le> 57) \<or> (65 \<le> n \<and> n \<le> 90) \<or> (97 \<le> n \<and> n \<le> 122))"

definition valid_name_char :: "char \<Rightarrow> bool" where
  "valid_name_char c =
     (is_ascii_alphanumeric c \<or> c = CHR ''.'' \<or> c = CHR ''_'' \<or> c = CHR ''-'')"

definition valid_name :: "string \<Rightarrow> bool" where
  "valid_name name = (1 \<le> length name \<and> length name \<le> 128 \<and> list_all valid_name_char name)"

definition validate_name :: "string \<Rightarrow> string \<Rightarrow> broker_error + unit" where
  "validate_name kind name = (if valid_name name then Inr () else Inl (InvalidName kind name))"

definition fnv_step :: "64 word \<Rightarrow> char \<Rightarrow> 64 word" where
  "fnv_step hash c = (hash XOR word_of_nat (of_char c)) * 0x100000001b3"

definition fnv1a :: "string \<Rightarrow> 64 word" where
  "fnv1a s = foldl fnv_step 0xcbf29ce484222325 s"

text \<open>The format \<open>{:016x}\<close>.\<close>

definition hex16 :: "64 word \<Rightarrow> string" where
  "hex16 w = (let h = hex_string (unat w) in replicate (16 - length h) (CHR ''0'') @ h)"

definition dead_letter_stream_name :: "string \<Rightarrow> broker_error + string" where
  "dead_letter_stream_name stream =
     (let name = stream @ DEAD_LETTER_SUFFIX
      in if length name \<le> 128
         then (case validate_name ''dead-letter stream'' name of
                 Inl e \<Rightarrow> Inl e | Inr _ \<Rightarrow> Inr name)
         else (let fallback = DEAD_LETTER_HASH_PREFIX @ hex16 (fnv1a stream)
               in case validate_name ''dead-letter stream'' fallback of
                    Inl e \<Rightarrow> Inl e | Inr _ \<Rightarrow> Inr fallback))"

definition move_id_string :: "string \<Rightarrow> string \<Rightarrow> offset \<Rightarrow> string" where
  "move_id_string source_stream source_consumer source_offset =
     ''runnel-dlq/v1/'' @ dec_string (length source_stream) @ '':'' @ source_stream @ ''/'' @
     dec_string (length source_consumer) @ '':'' @ source_consumer @ ''/'' @ dec_string source_offset"

definition dead_letter_move_id :: "string \<Rightarrow> string \<Rightarrow> offset \<Rightarrow> broker_error + string" where
  "dead_letter_move_id source_stream source_consumer source_offset =
     (let move_id = move_id_string source_stream source_consumer source_offset
      in if length move_id \<le> MAX_REQUEST_ID_LEN then Inr move_id
         else Inl (Io (IoError IoInvalidInput ''dead-letter move identity exceeds storage limit'')))"

definition ends_with :: "string \<Rightarrow> string \<Rightarrow> bool" where
  "ends_with s suf = (length suf \<le> length s \<and> drop (length s - length suf) s = suf)"

definition starts_with :: "string \<Rightarrow> string \<Rightarrow> bool" where
  "starts_with s pre = (take (length pre) s = pre)"

definition is_dead_letter_stream :: "string fset \<Rightarrow> string \<Rightarrow> bool" where
  "is_dead_letter_stream streams stream =
     (if ends_with stream DEAD_LETTER_SUFFIX then True
      else if \<not> starts_with stream DEAD_LETTER_HASH_PREFIX then False
      else fBex streams (\<lambda>source. dead_letter_stream_name source = Inr stream))"

section \<open>Printed numerals are short and made of name characters\<close>

lemma valid_name_char_digit: "d < 16 \<Longrightarrow> valid_name_char (digit_char d)"
  by (auto simp: valid_name_char_def is_ascii_alphanumeric_def digit_char_def Let_def)

lemma list_all_radix_string:
  assumes "2 \<le> b" "b \<le> 16"
  shows "list_all valid_name_char (radix_string b n)"
  using radix_string_digits [OF assms(1), of n] assms
  by (auto simp: list_all_iff intro!: valid_name_char_digit)

lemma length_radix_string:
  assumes "2 \<le> b" "0 < k" "n < b ^ k"
  shows "length (radix_string b n) \<le> k"
  using assms
proof (induction b n arbitrary: k rule: radix_string.induct)
  case (1 b n)
  show ?case
  proof (cases "n < b")
    case True
    with "1.prems" show ?thesis by (simp add: radix_string.simps [of b n])
  next
    case False
    with "1.prems" obtain j where k: "k = Suc j" "0 < j"
      by (cases k; cases "k - 1") auto
    with "1.prems" have "n div b < b ^ j"
      by (simp add: div_less_iff_less_mult mult.commute)
    with False k "1.prems" "1.IH" [of j] have "length (radix_string b (n div b)) \<le> j" by simp
    with False k "1.prems" show ?thesis by (simp add: radix_string.simps [of b n])
  qed
qed

lemma length_hex16 [simp]: "length (hex16 w) = 16"
proof -
  have "unat w < 2 ^ 64" using unsigned_less [of w] by simp
  then have "unat w < 16 ^ 16" by simp
  then have "length (hex_string (unat w)) \<le> 16" by (intro length_radix_string) auto
  then show ?thesis by (simp add: hex16_def Let_def)
qed

lemma list_all_hex16: "list_all valid_name_char (hex16 w)"
  using list_all_radix_string [of 16 "unat w"]
  by (auto simp: hex16_def Let_def list_all_iff valid_name_char_def is_ascii_alphanumeric_def)

section \<open>Derived dead-letter streams\<close>

lemma valid_suffix: "list_all valid_name_char DEAD_LETTER_SUFFIX"
  by (simp add: DEAD_LETTER_SUFFIX_def valid_name_char_def is_ascii_alphanumeric_def)

lemma valid_hash_prefix: "list_all valid_name_char DEAD_LETTER_HASH_PREFIX"
  by (simp add: DEAD_LETTER_HASH_PREFIX_def valid_name_char_def is_ascii_alphanumeric_def)

lemma valid_fallback: "valid_name (DEAD_LETTER_HASH_PREFIX @ hex16 w)"
  using valid_hash_prefix list_all_hex16 [of w]
  by (simp add: valid_name_def) (simp add: DEAD_LETTER_HASH_PREFIX_def)

lemma dead_letter_stream_name_cases:
  assumes "valid_name stream"
  shows "dead_letter_stream_name stream =
    Inr (if length stream \<le> 116 then stream @ DEAD_LETTER_SUFFIX
         else DEAD_LETTER_HASH_PREFIX @ hex16 (fnv1a stream))"
proof -
  have "valid_name (stream @ DEAD_LETTER_SUFFIX)" if "length stream \<le> 116"
    using that assms valid_suffix by (simp add: valid_name_def) (simp add: DEAD_LETTER_SUFFIX_def)
  moreover have "length (stream @ DEAD_LETTER_SUFFIX) \<le> 128 \<longleftrightarrow> length stream \<le> 116"
    by (simp add: DEAD_LETTER_SUFFIX_def)
  ultimately show ?thesis
    using valid_fallback [of "fnv1a stream"]
    by (simp add: dead_letter_stream_name_def validate_name_def Let_def)
qed

lemma dead_letter_stream_name_valid:
  assumes "valid_name stream" "dead_letter_stream_name stream = Inr target"
  shows "valid_name target"
  using assms by (auto simp: dead_letter_stream_name_def validate_name_def Let_def split: if_splits)

lemma dead_letter_stream_name_neq:
  assumes "valid_name stream" "dead_letter_stream_name stream = Inr target"
  shows "target \<noteq> stream"
proof (cases "length stream \<le> 116")
  case True
  with assms show ?thesis by (auto simp: dead_letter_stream_name_cases DEAD_LETTER_SUFFIX_def)
next
  case False
  with assms have "length target = 35"
    by (auto simp: dead_letter_stream_name_cases DEAD_LETTER_HASH_PREFIX_def)
  with False show ?thesis by auto
qed

lemma ends_with_append [simp]: "ends_with (s @ suf) suf"
  by (simp add: ends_with_def)

lemma starts_with_append [simp]: "starts_with (pre @ s) pre"
  by (simp add: starts_with_def)

lemma dead_letter_target_recognised:
  assumes "valid_name stream" "dead_letter_stream_name stream = Inr target" "stream |\<in>| streams"
  shows "is_dead_letter_stream streams target"
  using assms
  by (auto simp: is_dead_letter_stream_def dead_letter_stream_name_cases intro!: fBexI [of _ stream] split: if_splits)

section \<open>Move identities\<close>

lemma colon_not_in_dec: "CHR '':'' \<notin> set (dec_string n)" and slash_not_in_dec: "CHR ''/'' \<notin> set (dec_string n)"
  using list_all_radix_string [of 10 n]
  by (auto simp: list_all_iff valid_name_char_def is_ascii_alphanumeric_def)

lemma length_prefixed_inject:
  assumes "dec_string (length s) @ CHR '':'' # s @ r = dec_string (length s') @ CHR '':'' # s' @ r'"
  shows "s = s' \<and> r = r'"
proof -
  have "takeWhile (\<lambda>c. c \<noteq> CHR '':'') (dec_string (length s) @ CHR '':'' # s @ r) = dec_string (length s)"
    for s r
    using colon_not_in_dec by (subst takeWhile_append2) auto
  from this [of s r] this [of s' r'] assms have "dec_string (length s) = dec_string (length s')" by simp
  then have "length s = length s'" by simp
  with assms show ?thesis by simp
qed

lemma move_id_string_inject:
  "move_id_string s c off = move_id_string s' c' off' \<longleftrightarrow> s = s' \<and> c = c' \<and> off = off'"
proof
  assume "move_id_string s c off = move_id_string s' c' off'"
  then have a: "dec_string (length s) @ CHR '':'' # s @ (CHR ''/'' # dec_string (length c) @ CHR '':'' # c @
      (CHR ''/'' # dec_string off)) =
    dec_string (length s') @ CHR '':'' # s' @ (CHR ''/'' # dec_string (length c') @ CHR '':'' # c' @
      (CHR ''/'' # dec_string off'))"
    by (simp add: move_id_string_def)
  from length_prefixed_inject [OF this] have s: "s = s'"
    and b: "dec_string (length c) @ CHR '':'' # c @ (CHR ''/'' # dec_string off) =
      dec_string (length c') @ CHR '':'' # c' @ (CHR ''/'' # dec_string off')"
    by auto
  from length_prefixed_inject [OF b] s show "s = s' \<and> c = c' \<and> off = off'" by simp
qed simp

lemma dead_letter_move_id_ok:
  assumes "valid_name s" "valid_name c" "off \<le> u64_max"
  shows "dead_letter_move_id s c off = Inr (move_id_string s c off)"
proof -
  have l: "length (dec_string n) \<le> 3" if "n \<le> 128" for n
    using that by (intro length_radix_string) auto
  have "length (dec_string off) \<le> 20"
    using assms(3) by (intro length_radix_string) auto
  with l [of "length s"] l [of "length c"] assms show ?thesis
    by (simp add: dead_letter_move_id_def move_id_string_def Let_def MAX_REQUEST_ID_LEN_def valid_name_def)
qed

section \<open>Properties\<close>

text \<open>C32: Every valid stream has a dead-letter stream with a valid name different from its own, and as
  long as the source exists that stream is recognised as a dead-letter stream, so records are never
  dead-lettered out of it again.\<close>

theorem dead_letter_routing:
  assumes "valid_name stream" "stream |\<in>| streams"
  shows "\<exists>target. dead_letter_stream_name stream = Inr target \<and> valid_name target \<and> target \<noteq> stream \<and>
    is_dead_letter_stream streams target"
  using dead_letter_stream_name_cases [OF assms(1)] dead_letter_stream_name_valid [OF assms(1)]
    dead_letter_stream_name_neq [OF assms(1)] dead_letter_target_recognised [OF assms(1) _ assms(2)] by auto

theorem dead_letter_routing_witness:
  "dead_letter_stream_name ''orders'' = Inr ''orders.dead-letter'' \<and>
   (\<exists>target. dead_letter_stream_name ''orders'' = Inr target \<and> valid_name target \<and> target \<noteq> ''orders'' \<and>
     is_dead_letter_stream {|''orders''|} target)"
proof
  show "\<exists>target. dead_letter_stream_name ''orders'' = Inr target \<and> valid_name target \<and> target \<noteq> ''orders'' \<and>
      is_dead_letter_stream {|''orders''|} target"
    by (rule dead_letter_routing) (simp_all add: valid_name_def valid_name_char_def is_ascii_alphanumeric_def)
qed (simp add: dead_letter_stream_name_def validate_name_def DEAD_LETTER_SUFFIX_def valid_name_def
    valid_name_char_def is_ascii_alphanumeric_def)

text \<open>C33: The identity of a dead-letter move is defined for every valid source and determines the
  source stream, the consumer and the offset, so two different moves never share an identity.\<close>

theorem dead_letter_move_id_injective:
  assumes "valid_name s" "valid_name c" "off \<le> u64_max" "valid_name s'" "valid_name c'" "off' \<le> u64_max"
  shows "\<exists>i. dead_letter_move_id s c off = Inr i \<and>
    (dead_letter_move_id s' c' off' = Inr i \<longleftrightarrow> s' = s \<and> c' = c \<and> off' = off)"
  using assms by (simp add: dead_letter_move_id_ok move_id_string_inject)

theorem dead_letter_move_id_injective_witness:
  "\<exists>i. dead_letter_move_id ''a'' ''b'' 7 = Inr i \<and>
    (dead_letter_move_id ''a'' ''b'' 8 = Inr i \<longleftrightarrow> ''a'' = ''a'' \<and> ''b'' = ''b'' \<and> (8::nat) = 7)"
  by (rule dead_letter_move_id_injective)
    (simp_all add: valid_name_def valid_name_char_def is_ascii_alphanumeric_def)

end
