(* ===== verification/Consumer_State.thy ===== *)
theory Consumer_State
  imports Engine_Contract
begin

text \<open>
  The durable progress of one consumer (\<open>crates/runnel-core/src/consumer_state.rs\<close>): the
  committed offset with the offsets acknowledged ahead of it, the attempts, pinned policies and
  retry schedules of unsettled offsets, and the journal events that change them. The lemmas
  show that the pair of committed offset and acknowledged set represents one set of settled
  offsets, that every event keeps the state well formed, and that replaying a journal over a
  state that already contains it changes nothing.
\<close>

section \<open>State and events\<close>

record retry_schedule =
  rs_not_before_ms :: nat
  rs_key :: "string option"

record consumer_state =
  cs_stream :: string
  cs_consumer :: string
  committed_offset :: offset
  acknowledged_offsets :: "offset fset"
  delivery_attempts :: "(offset, nat) fmap"
  cs_policy :: "consumer_policy option"
  delivery_policies :: "(offset, consumer_policy) fmap"
  retry_not_before :: "(offset, retry_schedule) fmap"

record retry_schedule_event =
  rse_offset :: offset
  rse_not_before_ms :: nat
  rse_key :: "string option"

record delivery_attempt =
  da_offset :: offset
  da_attempt :: nat
  da_policy :: consumer_policy

datatype consumer_state_event =
    DeliveryAttempt delivery_attempt
  | DeliveryAttempts "delivery_attempt list"
  | RetrySchedules "retry_schedule_event list"
  | Acknowledge offset
  | AcknowledgeBatch "offset list"
  | PolicyConfigured consumer_policy

definition new_consumer_state :: "string \<Rightarrow> string \<Rightarrow> consumer_state" where
  "new_consumer_state stream consumer =
     \<lparr>cs_stream = stream, cs_consumer = consumer, committed_offset = 0,
      acknowledged_offsets = {||}, delivery_attempts = fmempty, cs_policy = None,
      delivery_policies = fmempty, retry_not_before = fmempty\<rparr>"

section \<open>Operations\<close>

text \<open>The loop of \<open>retry_filter\<close> visits the schedules in offset order.\<close>

definition retry_filter_step ::
  "nat \<Rightarrow> offset fset \<times> string fset \<Rightarrow> offset \<times> retry_schedule \<Rightarrow> offset fset \<times> string fset" where
  "retry_filter_step now_ms acc entry =
     (case acc of (offsets, keys) \<Rightarrow> case entry of (off, schedule) \<Rightarrow>
        if rs_not_before_ms schedule \<le> now_ms then (offsets, keys)
        else (finsert off offsets,
              case rs_key schedule of None \<Rightarrow> keys | Some key \<Rightarrow> finsert key keys))"

definition retry_filter :: "nat \<Rightarrow> consumer_state \<Rightarrow> offset fset \<times> string fset" where
  "retry_filter now_ms s =
     foldl (retry_filter_step now_ms) ({||}, {||}) (sorted_list_of_fmap (retry_not_before s))"

text \<open>
  The loop of \<open>acknowledge\<close> that moves the committed offset over the offsets acknowledged ahead
  of it. Every round removes one element of a finite set.
\<close>

function advance_committed :: "consumer_state \<Rightarrow> consumer_state" where
  "advance_committed s =
     (let c = committed_offset s
      in if c |\<in>| acknowledged_offsets s
         then advance_committed
           (s\<lparr>acknowledged_offsets := acknowledged_offsets s |-| {|c|},
             delivery_attempts := fmdrop c (delivery_attempts s),
             delivery_policies := fmdrop c (delivery_policies s),
             committed_offset := wrapping_add64 c 1\<rparr>)
         else s)"
  by pat_completeness auto
termination
proof (relation "measure (\<lambda>s. fcard (acknowledged_offsets s))", goal_cases)
  case 1
  show ?case by simp
next
  case (2 s c)
  then have "fcard (acknowledged_offsets s |-| {|c|}) < fcard (acknowledged_offsets s)"
    by (intro fcard_fminus1_less) simp
  then show ?case by simp
qed

declare advance_committed.simps [simp del]

definition acknowledge :: "offset \<Rightarrow> consumer_state \<Rightarrow> consumer_state" where
  "acknowledge off s =
     (if off < committed_offset s \<or> off |\<in>| acknowledged_offsets s then s
      else let s1 = s\<lparr>delivery_attempts := fmdrop off (delivery_attempts s),
                      delivery_policies := fmdrop off (delivery_policies s),
                      retry_not_before := fmdrop off (retry_not_before s)\<rparr>
           in if off = committed_offset s
              then advance_committed (s1\<lparr>committed_offset := wrapping_add64 (committed_offset s) 1\<rparr>)
              else s1\<lparr>acknowledged_offsets := finsert off (acknowledged_offsets s)\<rparr>)"

definition invalid_state_data :: "string \<Rightarrow> broker_error" where
  "invalid_state_data m = Io (IoError IoInvalidData m)"

definition validate_policy :: "consumer_policy \<Rightarrow> broker_error + unit" where
  "validate_policy p =
     (if cp_version p = 0 \<or> \<not> cp_configured p
      then Inl (invalid_state_data
             ''persisted consumer policy must be configured with a positive version'')
      else validate_consumer_policy (cp_ack_timeout_ms p) (cp_max_delivery_attempts p)
             (cp_retry_delay_ms p))"

text \<open>The body the two attempt events share.\<close>

definition record_attempt :: "delivery_attempt \<Rightarrow> consumer_state \<Rightarrow> consumer_state" where
  "record_attempt a s =
     (let off = da_offset a
      in if off \<ge> committed_offset s \<and> off |\<notin>| acknowledged_offsets s
         then s\<lparr>delivery_attempts :=
                  fmupd off (case fmlookup (delivery_attempts s) off of
                               None \<Rightarrow> da_attempt a
                             | Some current \<Rightarrow> max current (da_attempt a)) (delivery_attempts s),
                retry_not_before := fmdrop off (retry_not_before s),
                delivery_policies := or_insert off (da_policy a) (delivery_policies s)\<rparr>
         else s)"

definition record_retry :: "retry_schedule_event \<Rightarrow> consumer_state \<Rightarrow> consumer_state" where
  "record_retry r s =
     (let off = rse_offset r
      in if off < committed_offset s \<or> off |\<in>| acknowledged_offsets s \<or>
            off |\<notin>| fmdom (delivery_attempts s)
         then s
         else s\<lparr>retry_not_before :=
                  or_insert off \<lparr>rs_not_before_ms = rse_not_before_ms r, rs_key = rse_key r\<rparr>
                    (retry_not_before s)\<rparr>)"

fun apply_event :: "consumer_state_event \<Rightarrow> consumer_state \<Rightarrow> broker_error + consumer_state" where
  "apply_event (DeliveryAttempt a) s =
     (if da_attempt a = 0
      then Inl (invalid_state_data ''consumer delivery attempt must be greater than zero'')
      else Inr (record_attempt a s))"
| "apply_event (DeliveryAttempts attempts) s =
     (if list_ex (\<lambda>a. da_attempt a = 0) attempts
      then Inl (invalid_state_data ''consumer delivery attempt must be greater than zero'')
      else Inr (fold record_attempt attempts s))"
| "apply_event (RetrySchedules schedules) s = Inr (fold record_retry schedules s)"
| "apply_event (Acknowledge off) s = Inr (acknowledge off s)"
| "apply_event (AcknowledgeBatch offsets) s = Inr (fold acknowledge offsets s)"
| "apply_event (PolicyConfigured policy) s =
     (case validate_policy policy of Inl e \<Rightarrow> Inl e | Inr _ \<Rightarrow> Inr (s\<lparr>cs_policy := Some policy\<rparr>))"

fun apply_events :: "consumer_state_event list \<Rightarrow> consumer_state \<Rightarrow> broker_error + consumer_state" where
  "apply_events [] s = Inr s"
| "apply_events (e # es) s = (case apply_event e s of Inl x \<Rightarrow> Inl x | Inr s1 \<Rightarrow> apply_events es s1)"

definition policy_for_offset ::
  "offset \<Rightarrow> consumer_policy \<Rightarrow> consumer_state \<Rightarrow> broker_error + consumer_policy" where
  "policy_for_offset off legacy_policy s =
     (case fmlookup (delivery_policies s) off of
        Some policy \<Rightarrow> Inr policy
      | None \<Rightarrow>
          if off |\<in>| fmdom (delivery_attempts s)
          then Inl (invalid_state_data
                 ''persisted delivery attempt is missing its pinned consumer policy'')
          else Inr (case cs_policy s of Some policy \<Rightarrow> policy | None \<Rightarrow> legacy_policy))"

definition retry_state_consistent :: "consumer_state \<Rightarrow> bool" where
  "retry_state_consistent s =
     (fBall (fmdom (delivery_attempts s))
        (\<lambda>off. fmlookup (delivery_attempts s) off \<noteq> Some 0 \<and> off |\<in>| fmdom (delivery_policies s)) \<and>
      fBall (fmdom (delivery_policies s)) (\<lambda>off. off |\<in>| fmdom (delivery_attempts s)) \<and>
      fBall (fmdom (retry_not_before s)) (\<lambda>off. off |\<in>| fmdom (delivery_attempts s)))"

definition validate_state :: "consumer_state \<Rightarrow> broker_error + unit" where
  "validate_state s =
     (if retry_state_consistent s then Inr ()
      else Inl (invalid_state_data ''persisted consumer retry state is inconsistent''))"

section \<open>Settled offsets and well-formed states\<close>

text \<open>
  An offset is settled when progress has passed it: it lies below the committed offset or was
  acknowledged ahead of it.
\<close>

definition settled :: "consumer_state \<Rightarrow> offset \<Rightarrow> bool" where
  "settled s off \<longleftrightarrow> off < committed_offset s \<or> off |\<in>| acknowledged_offsets s"

definition cs_wf :: "consumer_state \<Rightarrow> bool" where
  "cs_wf s \<longleftrightarrow>
     committed_offset s \<le> u64_max \<and>
     (\<forall>off. off |\<in>| acknowledged_offsets s \<longrightarrow> committed_offset s < off \<and> off < u64_max) \<and>
     (\<forall>off. off |\<in>| fmdom (delivery_attempts s) \<longrightarrow> \<not> settled s off) \<and>
     retry_state_consistent s"

lemma cs_wf_new [simp]: "cs_wf (new_consumer_state stream consumer)"
  by (simp add: cs_wf_def new_consumer_state_def retry_state_consistent_def)

lemma settled_new [simp]: "\<not> settled (new_consumer_state stream consumer) off"
  by (simp add: settled_def new_consumer_state_def)

lemma consistent_doms:
  "retry_state_consistent s \<Longrightarrow> fmdom (delivery_policies s) = fmdom (delivery_attempts s)"
  by (auto simp: retry_state_consistent_def)

lemma cs_wf_unsettled:
  assumes "cs_wf s" "settled s off"
  shows "fmlookup (delivery_attempts s) off = None \<and> fmlookup (delivery_policies s) off = None \<and>
     fmlookup (retry_not_before s) off = None"
proof -
  from assms have a: "off |\<notin>| fmdom (delivery_attempts s)" and c: "retry_state_consistent s"
    by (auto simp: cs_wf_def)
  from c a have "off |\<notin>| fmdom (delivery_policies s)" "off |\<notin>| fmdom (retry_not_before s)"
    by (auto simp: consistent_doms) (auto simp: retry_state_consistent_def)
  with a show ?thesis by (simp add: fmdom_notD)
qed

text \<open>The two progress fields are determined by the settled set.\<close>

lemma committed_not_settled: "cs_wf s \<Longrightarrow> \<not> settled s (committed_offset s)"
  by (auto simp: cs_wf_def settled_def)

lemma progress_canonical:
  assumes "cs_wf s" "cs_wf t" "\<And>off. settled s off \<longleftrightarrow> settled t off"
  shows "committed_offset s = committed_offset t" "acknowledged_offsets s = acknowledged_offsets t"
proof -
  have "\<not> committed_offset s < committed_offset t" "\<not> committed_offset t < committed_offset s"
    using assms committed_not_settled [of s] committed_not_settled [of t]
    by (auto simp: settled_def)
  then show c: "committed_offset s = committed_offset t" by simp
  show "acknowledged_offsets s = acknowledged_offsets t"
  proof (rule fset_eqI)
    fix off
    have "off |\<in>| acknowledged_offsets r \<longleftrightarrow> settled r off \<and> \<not> off < committed_offset r"
      if "cs_wf r" for r
      using that by (auto simp: cs_wf_def settled_def)
    from this [OF assms(1)] this [OF assms(2)] assms(3) c
    show "off |\<in>| acknowledged_offsets s \<longleftrightarrow> off |\<in>| acknowledged_offsets t" by simp
  qed
qed

lemma consumer_state_eqI:
  assumes "cs_wf s" "cs_wf t" "\<And>off. settled s off \<longleftrightarrow> settled t off"
    and "cs_stream s = cs_stream t" "cs_consumer s = cs_consumer t"
    and "\<And>off. fmlookup (delivery_attempts s) off = fmlookup (delivery_attempts t) off"
    and "cs_policy s = cs_policy t"
    and "\<And>off. fmlookup (delivery_policies s) off = fmlookup (delivery_policies t) off"
    and "\<And>off. fmlookup (retry_not_before s) off = fmlookup (retry_not_before t) off"
  shows "s = t"
proof (rule consumer_state.equality)
  show "committed_offset s = committed_offset t" "acknowledged_offsets s = acknowledged_offsets t"
    by (rule progress_canonical [OF assms(1-3)])+
  show "delivery_attempts s = delivery_attempts t" by (rule fmap_ext) (rule assms)
  show "delivery_policies s = delivery_policies t" by (rule fmap_ext) (rule assms)
  show "retry_not_before s = retry_not_before t" by (rule fmap_ext) (rule assms)
qed (simp_all add: assms)

section \<open>Acknowledgement\<close>

text \<open>
  What the loop preserves: between its rounds the committed offset itself may be in the
  acknowledged set, so the invariant is weaker than \<^term>\<open>cs_wf\<close> until it stops.
\<close>

definition advancing :: "consumer_state \<Rightarrow> bool" where
  "advancing s \<longleftrightarrow>
     committed_offset s \<le> u64_max \<and>
     (\<forall>off. off |\<in>| acknowledged_offsets s \<longrightarrow> committed_offset s \<le> off \<and> off < u64_max) \<and>
     (\<forall>off. off |\<in>| fmdom (delivery_attempts s) \<longrightarrow> \<not> settled s off) \<and>
     retry_state_consistent s"

lemma advance_committed_spec:
  assumes "advancing s"
  shows "cs_wf (advance_committed s) \<and> (\<forall>off. settled (advance_committed s) off \<longleftrightarrow> settled s off) \<and>
    cs_stream (advance_committed s) = cs_stream s \<and>
    cs_consumer (advance_committed s) = cs_consumer s \<and>
    cs_policy (advance_committed s) = cs_policy s \<and>
    delivery_attempts (advance_committed s) = delivery_attempts s \<and>
    delivery_policies (advance_committed s) = delivery_policies s \<and>
    retry_not_before (advance_committed s) = retry_not_before s"
  using assms
proof (induction s rule: advance_committed.induct)
  case (1 s)
  let ?c = "committed_offset s"
  show ?case
  proof (cases "?c |\<in>| acknowledged_offsets s")
    case False
    with "1.prems" show ?thesis
      by (auto simp: advance_committed.simps [of s] advancing_def cs_wf_def Let_def le_less)
  next
    case True
    let ?t = "s\<lparr>acknowledged_offsets := acknowledged_offsets s |-| {|?c|},
             delivery_attempts := fmdrop ?c (delivery_attempts s),
             delivery_policies := fmdrop ?c (delivery_policies s),
             committed_offset := wrapping_add64 ?c 1\<rparr>"
    from "1.prems" True have lt: "?c < u64_max" by (auto simp: advancing_def)
    from "1.prems" True have no: "?c |\<notin>| fmdom (delivery_attempts s)" "?c |\<notin>| fmdom (delivery_policies s)"
      by (auto simp: advancing_def settled_def dest: consistent_doms)
    then have t: "?t = s\<lparr>acknowledged_offsets := acknowledged_offsets s |-| {|?c|},
             committed_offset := Suc ?c\<rparr>"
      using lt by (simp add: fmdrop_idle)
    have st: "settled ?t off \<longleftrightarrow> settled s off" for off
      using True unfolding t by (auto simp: settled_def less_Suc_eq)
    have adv: "advancing ?t"
      using "1.prems" st lt True unfolding t advancing_def
      by (auto simp: retry_state_consistent_def settled_def Suc_le_eq le_less)
    have eq: "advance_committed s = advance_committed ?t"
      using True by (simp add: advance_committed.simps [of s] Let_def)
    from "1.IH" [OF refl True adv] st show ?thesis
      unfolding eq unfolding t by simp
  qed
qed

lemma acknowledge_sel [simp]:
  assumes "cs_wf s" "off < u64_max"
  shows "cs_stream (acknowledge off s) = cs_stream s"
    and "cs_consumer (acknowledge off s) = cs_consumer s"
    and "cs_policy (acknowledge off s) = cs_policy s"
    and "delivery_attempts (acknowledge off s) = fmdrop off (delivery_attempts s)"
    and "delivery_policies (acknowledge off s) = fmdrop off (delivery_policies s)"
    and "retry_not_before (acknowledge off s) = fmdrop off (retry_not_before s)"
    and "settled (acknowledge off s) x \<longleftrightarrow> x = off \<or> settled s x"
    and "cs_wf (acknowledge off s)"
proof -
  let ?s1 = "s\<lparr>delivery_attempts := fmdrop off (delivery_attempts s),
               delivery_policies := fmdrop off (delivery_policies s),
               retry_not_before := fmdrop off (retry_not_before s)\<rparr>"
  have "cs_stream (acknowledge off s) = cs_stream s \<and>
    cs_consumer (acknowledge off s) = cs_consumer s \<and>
    cs_policy (acknowledge off s) = cs_policy s \<and>
    delivery_attempts (acknowledge off s) = fmdrop off (delivery_attempts s) \<and>
    delivery_policies (acknowledge off s) = fmdrop off (delivery_policies s) \<and>
    retry_not_before (acknowledge off s) = fmdrop off (retry_not_before s) \<and>
    (settled (acknowledge off s) x \<longleftrightarrow> x = off \<or> settled s x) \<and> cs_wf (acknowledge off s)"
  proof (cases "settled s off")
    case True
    with cs_wf_unsettled [OF assms(1) True] assms(1) show ?thesis
      by (auto simp: acknowledge_def settled_def fmdrop_idle fmdom_notI)
  next
    case unsettled: False
    show ?thesis
    proof (cases "off = committed_offset s")
      case True
      let ?s2 = "?s1\<lparr>committed_offset := wrapping_add64 (committed_offset s) 1\<rparr>"
      have w: "wrapping_add64 (committed_offset s) 1 = Suc (committed_offset s)"
        using True assms(2) by simp
      have adv: "advancing ?s2"
        using assms True unsettled unfolding w advancing_def
        by (auto simp: cs_wf_def settled_def retry_state_consistent_def less_Suc_eq Suc_le_eq)
      have eq: "acknowledge off s = advance_committed ?s2"
        using True unsettled by (simp add: acknowledge_def settled_def Let_def)
      have st: "settled ?s2 x \<longleftrightarrow> x = off \<or> settled s x"
        using True unfolding w by (auto simp: settled_def)
      from advance_committed_spec [OF adv] st show ?thesis
        unfolding eq by simp
    next
      case False
      have eq: "acknowledge off s = ?s1\<lparr>acknowledged_offsets := finsert off (acknowledged_offsets s)\<rparr>"
        using False unsettled by (simp add: acknowledge_def settled_def Let_def)
      show ?thesis
        using assms False unsettled unfolding eq
        by (auto simp: cs_wf_def settled_def retry_state_consistent_def)
    qed
  qed
  then show "cs_stream (acknowledge off s) = cs_stream s"
    "cs_consumer (acknowledge off s) = cs_consumer s"
    "cs_policy (acknowledge off s) = cs_policy s"
    "delivery_attempts (acknowledge off s) = fmdrop off (delivery_attempts s)"
    "delivery_policies (acknowledge off s) = fmdrop off (delivery_policies s)"
    "retry_not_before (acknowledge off s) = fmdrop off (retry_not_before s)"
    "settled (acknowledge off s) x \<longleftrightarrow> x = off \<or> settled s x"
    "cs_wf (acknowledge off s)"
    by blast+
qed

text \<open>Acknowledgements commute: progress depends on the set of offsets, not on their order.\<close>

lemma acknowledge_commute:
  assumes "cs_wf s" "a < u64_max" "b < u64_max"
  shows "acknowledge a (acknowledge b s) = acknowledge b (acknowledge a s)"
  using assms by (intro consumer_state_eqI) (simp_all, blast)

section \<open>Events as elementary changes\<close>

datatype change =
    AttemptChange delivery_attempt
  | RetryChange retry_schedule_event
  | AckChange offset
  | PolicyChange consumer_policy

fun apply_change :: "change \<Rightarrow> consumer_state \<Rightarrow> consumer_state" where
  "apply_change (AttemptChange a) s = record_attempt a s"
| "apply_change (RetryChange r) s = record_retry r s"
| "apply_change (AckChange off) s = acknowledge off s"
| "apply_change (PolicyChange p) s = s\<lparr>cs_policy := Some p\<rparr>"

fun changes :: "consumer_state_event \<Rightarrow> change list" where
  "changes (DeliveryAttempt a) = [AttemptChange a]"
| "changes (DeliveryAttempts as) = map AttemptChange as"
| "changes (RetrySchedules rs) = map RetryChange rs"
| "changes (Acknowledge off) = [AckChange off]"
| "changes (AcknowledgeBatch offs) = map AckChange offs"
| "changes (PolicyConfigured p) = [PolicyChange p]"

text \<open>An event the journal accepts: positive attempts, a valid policy.\<close>

fun event_ok :: "consumer_state_event \<Rightarrow> bool" where
  "event_ok (DeliveryAttempt a) = (da_attempt a \<noteq> 0)"
| "event_ok (DeliveryAttempts as) = list_all (\<lambda>a. da_attempt a \<noteq> 0) as"
| "event_ok (PolicyConfigured p) = (validate_policy p = Inr ())"
| "event_ok _ = True"

text \<open>
  A change whose offset is the offset of a stored record: offsets of records stay below the
  largest \<open>u64\<close>, the log's next offset being one more.
\<close>

fun change_ok :: "change \<Rightarrow> bool" where
  "change_ok (AttemptChange a) = (da_attempt a \<noteq> 0)"
| "change_ok (AckChange off) = (off < u64_max)"
| "change_ok _ = True"

definition event_bounded :: "consumer_state_event \<Rightarrow> bool" where
  "event_bounded e \<longleftrightarrow> event_ok e \<and> (\<forall>off. AckChange off \<in> set (changes e) \<longrightarrow> off < u64_max)"

lemma fold_apply_change_map:
  "fold apply_change (map AttemptChange as) = fold record_attempt as"
  "fold apply_change (map RetryChange rs) = fold record_retry rs"
  "fold apply_change (map AckChange offs) = fold acknowledge offs"
proof -
  have "apply_change \<circ> AttemptChange = record_attempt" "apply_change \<circ> RetryChange = record_retry"
    "apply_change \<circ> AckChange = acknowledge"
    by (rule ext, simp)+
  then show "fold apply_change (map AttemptChange as) = fold record_attempt as"
    "fold apply_change (map RetryChange rs) = fold record_retry rs"
    "fold apply_change (map AckChange offs) = fold acknowledge offs"
    by (simp_all add: fold_map)
qed

lemma apply_event_ok: "event_ok e \<Longrightarrow> apply_event e s = Inr (fold apply_change (changes e) s)"
  by (cases e) (auto simp: fold_apply_change_map list_ex_iff list_all_iff)

lemma apply_event_Inr: "apply_event e s = Inr t \<longleftrightarrow> event_ok e \<and> t = fold apply_change (changes e) s"
proof (cases "event_ok e")
  case True
  then show ?thesis by (auto simp: apply_event_ok)
next
  case False
  then have "\<exists>x. apply_event e s = Inl x"
    by (cases e) (auto simp: list_ex_iff list_all_iff split: sum.splits)
  with False show ?thesis by auto
qed

lemma apply_events_Inr:
  "apply_events es s = Inr t \<longleftrightarrow>
     list_all event_ok es \<and> t = fold apply_change (concat (map changes es)) s"
  by (induction es arbitrary: s) (auto simp: apply_event_Inr apply_event_ok split: sum.split)

lemma apply_events_append:
  "apply_events (es @ fs) s = (case apply_events es s of Inl x \<Rightarrow> Inl x | Inr t \<Rightarrow> apply_events fs t)"
  by (induction es arbitrary: s) (auto split: sum.split)

lemma event_bounded_changes: "event_bounded e \<Longrightarrow> c \<in> set (changes e) \<Longrightarrow> change_ok c"
  by (cases e) (auto simp: event_bounded_def list_all_iff)

subsection \<open>What one change does\<close>

lemma record_attempt_sel [simp]:
  "cs_stream (record_attempt a s) = cs_stream s"
  "cs_consumer (record_attempt a s) = cs_consumer s"
  "cs_policy (record_attempt a s) = cs_policy s"
  "committed_offset (record_attempt a s) = committed_offset s"
  "acknowledged_offsets (record_attempt a s) = acknowledged_offsets s"
  "fmlookup (delivery_attempts (record_attempt a s)) off =
     (if off = da_offset a \<and> \<not> settled s off
      then Some (case fmlookup (delivery_attempts s) off of
                   None \<Rightarrow> da_attempt a | Some n \<Rightarrow> max n (da_attempt a))
      else fmlookup (delivery_attempts s) off)"
  "fmlookup (delivery_policies (record_attempt a s)) off =
     (if off = da_offset a \<and> \<not> settled s off
      then Some (case fmlookup (delivery_policies s) off of None \<Rightarrow> da_policy a | Some p \<Rightarrow> p)
      else fmlookup (delivery_policies s) off)"
  "fmlookup (retry_not_before (record_attempt a s)) off =
     (if off = da_offset a \<and> \<not> settled s off then None else fmlookup (retry_not_before s) off)"
  by (auto simp: record_attempt_def settled_def Let_def split: option.split)

lemma record_retry_sel [simp]:
  "cs_stream (record_retry r s) = cs_stream s"
  "cs_consumer (record_retry r s) = cs_consumer s"
  "cs_policy (record_retry r s) = cs_policy s"
  "committed_offset (record_retry r s) = committed_offset s"
  "acknowledged_offsets (record_retry r s) = acknowledged_offsets s"
  "delivery_attempts (record_retry r s) = delivery_attempts s"
  "delivery_policies (record_retry r s) = delivery_policies s"
  "fmlookup (retry_not_before (record_retry r s)) off =
     (if off = rse_offset r \<and> \<not> settled s off \<and> off |\<in>| fmdom (delivery_attempts s) \<and>
         fmlookup (retry_not_before s) off = None
      then Some \<lparr>rs_not_before_ms = rse_not_before_ms r, rs_key = rse_key r\<rparr>
      else fmlookup (retry_not_before s) off)"
  by (auto simp: record_retry_def settled_def Let_def split: option.split)

lemma settled_record [simp]:
  "settled (record_attempt a s) off \<longleftrightarrow> settled s off"
  "settled (record_retry r s) off \<longleftrightarrow> settled s off"
  "settled (s\<lparr>cs_policy := p\<rparr>) off \<longleftrightarrow> settled s off"
  by (simp_all add: settled_def)

lemma fmdom_record_attempt:
  "off |\<in>| fmdom (delivery_attempts (record_attempt a s)) \<longleftrightarrow>
     (off = da_offset a \<and> \<not> settled s off) \<or> off |\<in>| fmdom (delivery_attempts s)"
  "off |\<in>| fmdom (delivery_policies (record_attempt a s)) \<longleftrightarrow>
     (off = da_offset a \<and> \<not> settled s off) \<or> off |\<in>| fmdom (delivery_policies s)"
  "off |\<in>| fmdom (retry_not_before (record_attempt a s)) \<longleftrightarrow>
     \<not> (off = da_offset a \<and> \<not> settled s off) \<and> off |\<in>| fmdom (retry_not_before s)"
  by (auto simp: fmlookup_dom_iff)

lemma fmdom_record_retry:
  "off |\<in>| fmdom (retry_not_before (record_retry r s)) \<longleftrightarrow>
     (off = rse_offset r \<and> \<not> settled s off \<and> off |\<in>| fmdom (delivery_attempts s)) \<or>
     off |\<in>| fmdom (retry_not_before s)"
  by (auto simp: fmlookup_dom_iff)

lemma cs_wf_record_attempt:
  assumes "cs_wf s" "da_attempt a \<noteq> 0"
  shows "cs_wf (record_attempt a s)"
proof -
  have "retry_state_consistent (record_attempt a s)"
    using assms unfolding cs_wf_def retry_state_consistent_def
    by (auto simp: fmdom_record_attempt split: option.splits if_splits)
  then show ?thesis
    using assms by (auto simp: cs_wf_def fmdom_record_attempt)
qed

lemma cs_wf_record_retry: "cs_wf s \<Longrightarrow> cs_wf (record_retry r s)"
  by (auto simp: cs_wf_def retry_state_consistent_def fmdom_record_retry)

lemma cs_wf_policy: "cs_wf s \<Longrightarrow> cs_wf (s\<lparr>cs_policy := p\<rparr>)"
  by (simp add: cs_wf_def retry_state_consistent_def)

lemma cs_wf_change: "cs_wf s \<Longrightarrow> change_ok c \<Longrightarrow> cs_wf (apply_change c s)"
  by (cases c) (auto intro: cs_wf_record_attempt cs_wf_record_retry cs_wf_policy)

lemma settled_change:
  "cs_wf s \<Longrightarrow> change_ok c \<Longrightarrow> settled (apply_change c s) off \<longleftrightarrow> settled s off \<or> c = AckChange off"
  by (cases c) auto

subsection \<open>What a run of changes does\<close>

lemma cs_wf_changes: "cs_wf s \<Longrightarrow> \<forall>c \<in> set cs. change_ok c \<Longrightarrow> cs_wf (fold apply_change cs s)"
  by (induction cs arbitrary: s) (auto intro: cs_wf_change)

lemma settled_changes:
  "cs_wf s \<Longrightarrow> \<forall>c \<in> set cs. change_ok c \<Longrightarrow>
     settled (fold apply_change cs s) off \<longleftrightarrow> settled s off \<or> AckChange off \<in> set cs"
proof (induction cs arbitrary: s)
  case (Cons c cs)
  then show ?case by (auto simp: settled_change cs_wf_change)
qed simp

lemma names_changes:
  "cs_wf s \<Longrightarrow> \<forall>c \<in> set cs. change_ok c \<Longrightarrow>
     cs_stream (fold apply_change cs s) = cs_stream s \<and> cs_consumer (fold apply_change cs s) = cs_consumer s"
proof (induction cs arbitrary: s)
  case (Cons c cs)
  have "cs_stream (apply_change c s) = cs_stream s \<and> cs_consumer (apply_change c s) = cs_consumer s"
    using Cons.prems by (cases c) auto
  with Cons show ?case by (simp add: cs_wf_change)
qed simp

text \<open>For an offset that stays unsettled, recorded attempts only grow.\<close>

lemma attempts_grow:
  assumes "cs_wf s" "\<forall>c \<in> set cs. change_ok c" "\<not> settled (fold apply_change cs s) off"
    and "fmlookup (delivery_attempts s) off = Some n"
  shows "\<exists>m \<ge> n. fmlookup (delivery_attempts (fold apply_change cs s)) off = Some m"
  using assms
proof (induction cs arbitrary: s n)
  case (Cons c cs)
  have u: "\<not> settled (apply_change c s) off" "\<not> settled s off"
    using Cons.prems by (auto simp: settled_changes cs_wf_change settled_change)
  have "\<exists>k \<ge> n. fmlookup (delivery_attempts (apply_change c s)) off = Some k"
    using Cons.prems u by (cases c) (auto simp: settled_change)
  then obtain k where k: "k \<ge> n" "fmlookup (delivery_attempts (apply_change c s)) off = Some k" by blast
  with Cons.IH [of "apply_change c s" k] Cons.prems show ?case
    by (auto simp: cs_wf_change intro: order_trans)
qed auto

text \<open>Without an attempt of its own, an unsettled offset keeps its attempts and its schedule.\<close>

lemma no_attempt_changes:
  assumes "cs_wf s" "\<forall>c \<in> set cs. change_ok c" "\<not> settled (fold apply_change cs s) off"
    and "\<forall>a. AttemptChange a \<in> set cs \<longrightarrow> da_offset a \<noteq> off"
  shows "fmlookup (delivery_attempts (fold apply_change cs s)) off = fmlookup (delivery_attempts s) off"
    and "fmlookup (retry_not_before s) off = Some z \<Longrightarrow>
         fmlookup (retry_not_before (fold apply_change cs s)) off = Some z"
proof -
  have "fmlookup (delivery_attempts (fold apply_change cs s)) off = fmlookup (delivery_attempts s) off \<and>
    (\<forall>z. fmlookup (retry_not_before s) off = Some z \<longrightarrow>
         fmlookup (retry_not_before (fold apply_change cs s)) off = Some z)"
    using assms
  proof (induction cs arbitrary: s)
    case (Cons c cs)
    have u: "\<not> settled (apply_change c s) off" "\<not> settled s off"
      using Cons.prems by (auto simp: settled_changes cs_wf_change settled_change)
    have "fmlookup (delivery_attempts (apply_change c s)) off = fmlookup (delivery_attempts s) off \<and>
      (\<forall>z. fmlookup (retry_not_before s) off = Some z \<longrightarrow>
           fmlookup (retry_not_before (apply_change c s)) off = Some z)"
      using Cons.prems u by (cases c) auto
    with Cons show ?case by (simp add: cs_wf_change)
  qed simp
  then show "fmlookup (delivery_attempts (fold apply_change cs s)) off = fmlookup (delivery_attempts s) off"
    and "fmlookup (retry_not_before s) off = Some z \<Longrightarrow>
         fmlookup (retry_not_before (fold apply_change cs s)) off = Some z"
    by blast+
qed

subsection \<open>Replaying a journal over its own result\<close>

text \<open>
  Two runs of the same changes: the original one through \<open>a\<close>, which ends in \<open>f\<close>, and a replay
  through \<open>b\<close>, which starts in \<open>f\<close>. While changes remain, the replay agrees with the result
  except for what a later change of the list overwrites.
\<close>

definition retry_agrees ::
  "change list \<Rightarrow> consumer_state \<Rightarrow> consumer_state \<Rightarrow> consumer_state \<Rightarrow> offset \<Rightarrow> bool" where
  "retry_agrees cs a b f off \<longleftrightarrow>
     (fmlookup (retry_not_before b) off = fmlookup (retry_not_before f) off \<and>
      fmlookup (retry_not_before f) off \<noteq> None) \<or>
     (\<exists>x. AttemptChange x \<in> set cs \<and> da_offset x = off) \<or>
     fmlookup (retry_not_before b) off = fmlookup (retry_not_before a) off"

definition replaying :: "change list \<Rightarrow> consumer_state \<Rightarrow> consumer_state \<Rightarrow> consumer_state \<Rightarrow> bool" where
  "replaying cs a b f \<longleftrightarrow>
     cs_wf a \<and> cs_wf b \<and> f = fold apply_change cs a \<and>
     (\<forall>off. settled b off \<longleftrightarrow> settled f off) \<and>
     cs_stream b = cs_stream f \<and> cs_consumer b = cs_consumer f \<and>
     (\<forall>off. fmlookup (delivery_attempts b) off = fmlookup (delivery_attempts f) off) \<and>
     (\<forall>off. fmlookup (delivery_policies b) off = fmlookup (delivery_policies f) off) \<and>
     (cs_policy b = cs_policy f \<or> (\<exists>p. PolicyChange p \<in> set cs)) \<and>
     (\<forall>off. \<not> settled f off \<longrightarrow> retry_agrees cs a b f off)"

lemma policy_changes:
  "cs_wf s \<Longrightarrow> \<forall>c \<in> set cs. change_ok c \<Longrightarrow> \<forall>p. PolicyChange p \<notin> set cs \<Longrightarrow>
     cs_policy (fold apply_change cs s) = cs_policy s"
proof (induction cs arbitrary: s)
  case (Cons c cs)
  then have "cs_policy (apply_change c s) = cs_policy s" by (cases c) auto
  with Cons show ?case by (simp add: cs_wf_change)
qed simp

lemma replaying_start:
  assumes "cs_wf s" "\<forall>c \<in> set cs. change_ok c"
  shows "replaying cs s (fold apply_change cs s) (fold apply_change cs s)"
proof -
  let ?f = "fold apply_change cs s"
  have "retry_agrees cs s ?f ?f off" if "\<not> settled ?f off" for off
  proof (cases "\<exists>x. AttemptChange x \<in> set cs \<and> da_offset x = off")
    case True
    then show ?thesis by (simp add: retry_agrees_def)
  next
    case False
    then have "\<forall>x. AttemptChange x \<in> set cs \<longrightarrow> da_offset x \<noteq> off" by blast
    from no_attempt_changes(2) [OF assms that this] show ?thesis
      by (cases "fmlookup (retry_not_before ?f) off"; cases "fmlookup (retry_not_before s) off")
        (simp_all add: retry_agrees_def)
  qed
  with assms show ?thesis by (simp add: replaying_def cs_wf_changes)
qed

lemma replaying_end:
  assumes "replaying [] a b f"
  shows "b = f"
proof (rule consumer_state_eqI)
  show wf: "cs_wf b" "cs_wf f" and st: "\<And>off. settled b off \<longleftrightarrow> settled f off"
    using assms by (simp_all add: replaying_def)
  fix off
  show "fmlookup (retry_not_before b) off = fmlookup (retry_not_before f) off"
  proof (cases "settled f off")
    case True
    with st wf cs_wf_unsettled show ?thesis by simp
  next
    case False
    with assms show ?thesis by (auto simp: replaying_def retry_agrees_def)
  qed
qed (use assms in \<open>simp_all add: replaying_def\<close>)

lemma retry_agrees_other:
  assumes "retry_agrees (c # cs) a b f off" "\<forall>x. c = AttemptChange x \<longrightarrow> da_offset x \<noteq> off"
    and "fmlookup (retry_not_before b') off = fmlookup (retry_not_before b) off"
    and "fmlookup (retry_not_before a') off = fmlookup (retry_not_before a) off"
  shows "retry_agrees cs a' b' f off"
  using assms by (auto simp: retry_agrees_def)

lemma replayingD:
  assumes "replaying (c # cs) a b f" "\<forall>c \<in> set (c # cs). change_ok c"
  shows "cs_wf a" "cs_wf b" "cs_wf (apply_change c a)" "cs_wf (apply_change c b)"
    and "f = fold apply_change cs (apply_change c a)" "\<forall>c \<in> set cs. change_ok c"
    and "settled b off \<longleftrightarrow> settled f off"
    and "settled f off \<longleftrightarrow> settled a off \<or> AckChange off \<in> set (c # cs)"
    and "fmlookup (delivery_attempts b) off = fmlookup (delivery_attempts f) off"
    and "fmlookup (delivery_policies b) off = fmlookup (delivery_policies f) off"
    and "\<not> settled f off \<Longrightarrow> retry_agrees (c # cs) a b f off"
    and "cs_stream b = cs_stream f" "cs_consumer b = cs_consumer f"
    and "cs_policy b = cs_policy f \<or> (\<exists>p. PolicyChange p \<in> set (c # cs))"
proof -
  show wf: "cs_wf a" "cs_wf b" and "cs_wf (apply_change c a)" "cs_wf (apply_change c b)"
    using assms by (auto simp: replaying_def intro: cs_wf_change)
  show f: "f = fold apply_change cs (apply_change c a)" "\<forall>c \<in> set cs. change_ok c"
    using assms by (auto simp: replaying_def)
  show "settled f off \<longleftrightarrow> settled a off \<or> AckChange off \<in> set (c # cs)"
    using settled_changes [OF wf(1) assms(2)] f by simp
qed (use assms in \<open>auto simp: replaying_def\<close>)

lemma replaying_ack:
  assumes R: "replaying (AckChange off # cs) a b f" and ok: "\<forall>c \<in> set (AckChange off # cs). change_ok c"
  shows "replaying cs (acknowledge off a) (acknowledge off b) f"
proof -
  note D = replayingD [OF R ok]
  have s: "settled f off" using D(8) by simp
  with D(7) have eq: "acknowledge off b = b" by (simp add: acknowledge_def settled_def)
  have "retry_agrees cs (acknowledge off a) b f off'" if "\<not> settled f off'" for off'
    using D(11) [OF that] by (rule retry_agrees_other) (use that s D(1) ok in auto)
  with R D(3,5) show ?thesis unfolding eq by (simp add: replaying_def)
qed

lemma replaying_policy:
  assumes R: "replaying (PolicyChange p # cs) a b f" and ok: "\<forall>c \<in> set (PolicyChange p # cs). change_ok c"
  shows "replaying cs (a\<lparr>cs_policy := Some p\<rparr>) (b\<lparr>cs_policy := Some p\<rparr>) f"
proof -
  note D = replayingD [OF R ok]
  have "cs_policy (b\<lparr>cs_policy := Some p\<rparr>) = cs_policy f \<or> (\<exists>q. PolicyChange q \<in> set cs)"
    using policy_changes [OF D(3,6)] D(5) by auto
  moreover have "retry_agrees cs (a\<lparr>cs_policy := Some p\<rparr>) (b\<lparr>cs_policy := Some p\<rparr>) f off"
    if "\<not> settled f off" for off
    using D(11) [OF that] by (rule retry_agrees_other) auto
  ultimately show ?thesis
    using R D(3,4) by (simp add: replaying_def)
qed

lemma replaying_retry:
  assumes R: "replaying (RetryChange r # cs) a b f" and ok: "\<forall>c \<in> set (RetryChange r # cs). change_ok c"
  shows "replaying cs (record_retry r a) (record_retry r b) f"
proof -
  note D = replayingD [OF R ok]
  have "retry_agrees cs (record_retry r a) (record_retry r b) f off" if u: "\<not> settled f off" for off
  proof (cases "\<exists>x. AttemptChange x \<in> set cs \<and> da_offset x = off")
    case True
    then show ?thesis by (simp add: retry_agrees_def)
  next
    case False
    then have "\<forall>x. AttemptChange x \<in> set cs \<longrightarrow> da_offset x \<noteq> off" by blast
    from no_attempt_changes(1) [OF D(3,6) _ this] u D(5) D(9) [of off]
    have flags: "off |\<in>| fmdom (delivery_attempts a) \<longleftrightarrow> off |\<in>| fmdom (delivery_attempts b)"
      by (simp add: fmlookup_dom_iff)
    have us: "\<not> settled a off" "\<not> settled b off" using u D(7) [of off] D(8) [of off] by auto
    from D(11) [OF u] False
    consider z where "fmlookup (retry_not_before b) off = Some z" "fmlookup (retry_not_before f) off = Some z"
      | "fmlookup (retry_not_before b) off = fmlookup (retry_not_before a) off"
      by (auto simp: retry_agrees_def)
    then show ?thesis
    proof cases
      case 1
      then show ?thesis by (simp add: retry_agrees_def)
    next
      case 2
      then have "fmlookup (retry_not_before (record_retry r b)) off =
          fmlookup (retry_not_before (record_retry r a)) off"
        using flags us by auto
      then show ?thesis by (simp add: retry_agrees_def)
    qed
  qed
  with D(3-5,7,9,10,12-) show ?thesis by (simp add: replaying_def)
qed

lemma replaying_attempt_max:
  assumes R: "replaying (AttemptChange x # cs) a b f" and ok: "\<forall>c \<in> set (AttemptChange x # cs). change_ok c"
    and u: "\<not> settled f (da_offset x)"
  shows "\<exists>m \<ge> da_attempt x. fmlookup (delivery_attempts f) (da_offset x) = Some m"
proof -
  note D = replayingD [OF R ok]
  from u have "\<not> settled a (da_offset x)" using D(8) by simp
  then obtain k where k: "k \<ge> da_attempt x"
    "fmlookup (delivery_attempts (record_attempt x a)) (da_offset x) = Some k"
    by (cases "fmlookup (delivery_attempts a) (da_offset x)") (simp_all, metis max.cobounded2)
  from attempts_grow [OF D(3,6), of "da_offset x" k] u D(5) k show ?thesis by (auto intro: order_trans)
qed

lemma replaying_attempt:
  assumes R: "replaying (AttemptChange x # cs) a b f" and ok: "\<forall>c \<in> set (AttemptChange x # cs). change_ok c"
  shows "replaying cs (record_attempt x a) (record_attempt x b) f"
proof -
  note D = replayingD [OF R ok] and big = replaying_attempt_max [OF R ok]
  let ?o = "da_offset x"
  have att1: "fmlookup (delivery_attempts (record_attempt x b)) off = fmlookup (delivery_attempts f) off" for off
    using D(9) [of off] big D(7) [of off] by (auto simp: max_def)
  have pol1: "fmlookup (delivery_policies (record_attempt x b)) off = fmlookup (delivery_policies f) off" for off
  proof (cases "off = ?o \<and> \<not> settled f off")
    case True
    with big D(9) have "off |\<in>| fmdom (delivery_attempts b)" by (auto simp: fmlookup_dom_iff)
    with D(2) have "off |\<in>| fmdom (delivery_policies b)" by (simp add: cs_wf_def consistent_doms)
    with True D(10) [of off] D(7) [of off] show ?thesis by (auto simp: fmlookup_dom_iff)
  next
    case False
    with D(10) [of off] D(7) [of off] show ?thesis by auto
  qed
  have "retry_agrees cs (record_attempt x a) (record_attempt x b) f off" if u: "\<not> settled f off" for off
  proof (cases "off = ?o")
    case True
    with u D(7) [of off] D(8) [of off] show ?thesis by (simp add: retry_agrees_def)
  next
    case False
    show ?thesis using D(11) [OF u] by (rule retry_agrees_other) (use False in auto)
  qed
  with D(3-5,7,12-) att1 pol1 show ?thesis by (simp add: replaying_def)
qed

lemma replaying_step:
  assumes "replaying (c # cs) a b f" and "\<forall>c \<in> set (c # cs). change_ok c"
  shows "replaying cs (apply_change c a) (apply_change c b) f"
  using assms
  by (cases c) (simp_all only: apply_change.simps replaying_ack replaying_policy replaying_retry replaying_attempt)

lemma replay_changes_idem:
  assumes "replaying cs a b f" "\<forall>c \<in> set cs. change_ok c"
  shows "fold apply_change cs b = f"
  using assms
proof (induction cs arbitrary: a b)
  case Nil
  then show ?case by (simp add: replaying_end)
next
  case (Cons c cs)
  from replaying_step [OF Cons.prems] Cons.IH [of "apply_change c a" "apply_change c b"] Cons.prems(2)
  show ?case by simp
qed

lemma apply_events_idem:
  assumes "cs_wf s" "list_all event_bounded es" "apply_events es s = Inr t"
  shows "apply_events es t = Inr t"
proof -
  let ?cs = "concat (map changes es)"
  have ok: "\<forall>c \<in> set ?cs. change_ok c"
    using assms(2) by (auto simp: list_all_iff dest: event_bounded_changes)
  from assms(3) have t: "list_all event_ok es" "t = fold apply_change ?cs s"
    by (auto simp: apply_events_Inr)
  have "fold apply_change ?cs t = t"
    using replay_changes_idem [OF replaying_start [OF assms(1) ok] ok] t(2) by simp
  with t(1) show ?thesis by (simp add: apply_events_Inr)
qed

section \<open>Progress as a set of settled offsets\<close>

text \<open>
  What clients of a progress tracker rely on, whatever its representation: acknowledging an
  offset settles that offset and no other, and keeps the representation well formed.
\<close>

locale ack_progress =
  fixes ack :: "offset \<Rightarrow> 's \<Rightarrow> 's" and done_at :: "'s \<Rightarrow> offset \<Rightarrow> bool"
    and wf :: "'s \<Rightarrow> bool" and valid :: "offset \<Rightarrow> bool"
  assumes ack_wf: "wf s \<Longrightarrow> valid off \<Longrightarrow> wf (ack off s)"
    and ack_done: "wf s \<Longrightarrow> valid off \<Longrightarrow> done_at (ack off s) other \<longleftrightarrow> done_at s other \<or> other = off"
begin

lemma acks_wf: "wf s \<Longrightarrow> list_all valid offs \<Longrightarrow> wf (fold ack offs s)"
  by (induction offs arbitrary: s) (auto simp: ack_wf)

lemma acks_done:
  "wf s \<Longrightarrow> list_all valid offs \<Longrightarrow> done_at (fold ack offs s) off \<longleftrightarrow> done_at s off \<or> off \<in> set offs"
  by (induction offs arbitrary: s) (auto simp: ack_wf ack_done)

lemma acks_refine:
  "wf s \<Longrightarrow> list_all valid offs \<Longrightarrow> Collect (done_at (fold ack offs s)) = Collect (done_at s) \<union> set offs"
  by (auto simp: acks_done)

end

interpretation cs_progress: ack_progress acknowledge settled cs_wf "\<lambda>off. off < u64_max"
proof
  fix s off other
  assume "cs_wf s" "off < u64_max"
  then show "cs_wf (acknowledge off s)" "settled (acknowledge off s) other \<longleftrightarrow> settled s other \<or> other = off"
    using cs_wf_change [of s "AckChange off"] by auto
qed

lemma acknowledge_fold:
  "cs_wf s \<Longrightarrow> off < u64_max \<Longrightarrow> list_all (\<lambda>off. off < u64_max) offs \<Longrightarrow>
   fold acknowledge offs (acknowledge off s) = acknowledge off (fold acknowledge offs s)"
proof (induction offs arbitrary: s)
  case (Cons a offs)
  then have "acknowledge a (acknowledge off s) = acknowledge off (acknowledge a s)"
    by (intro acknowledge_commute) simp_all
  with Cons show ?case by (simp add: cs_progress.ack_wf)
qed simp

lemma acknowledge_any_order:
  assumes "cs_wf s" "list_all (\<lambda>off. off < u64_max) offs" "mset offs = mset offs'"
  shows "fold acknowledge offs s = fold acknowledge offs' s"
  using assms
proof (induction offs arbitrary: s offs')
  case (Cons off offs)
  from Cons.prems(3) have "off \<in> set offs'" by (metis list.set_intros(1) mset_eq_setD)
  then obtain pre post where split: "offs' = pre @ off # post" by (auto simp: in_set_conv_decomp)
  with Cons.prems(3) have m: "mset offs = mset (pre @ post)" by simp
  have "set (pre @ post) = set offs" using m mset_eq_setD by metis
  then have pre: "list_all (\<lambda>off. off < u64_max) pre" using Cons.prems(2) by (auto simp: list_all_iff)
  have "fold acknowledge (off # offs) s = fold acknowledge (pre @ post) (acknowledge off s)"
    using Cons.IH [OF _ _ m] Cons.prems by (simp add: cs_progress.ack_wf)
  also have "\<dots> = fold acknowledge offs' s"
    using acknowledge_fold [OF Cons.prems(1) _ pre, of off] Cons.prems(2) by (simp add: split)
  finally show ?case .
qed simp

text \<open>The retry filter holds exactly the offsets and keys whose retry lies in the future.\<close>

lemma retry_filter_fold:
  "fst (foldl (retry_filter_step now_ms) acc xs) =
     fst acc |\<union>| fset_of_list (map fst (filter (\<lambda>x. now_ms < rs_not_before_ms (snd x)) xs))"
  "snd (foldl (retry_filter_step now_ms) acc xs) =
     snd acc |\<union>| fset_of_list (concat (map (\<lambda>x. case rs_key (snd x) of None \<Rightarrow> [] | Some k \<Rightarrow> [k])
       (filter (\<lambda>x. now_ms < rs_not_before_ms (snd x)) xs)))"
  by (induction xs arbitrary: acc) (auto simp: retry_filter_step_def split: prod.split option.split)

lemma set_sorted_list_of_fmap: "(k, v) \<in> set (sorted_list_of_fmap m) \<longleftrightarrow> fmlookup m k = Some v"
  by (auto simp: sorted_list_of_fmap_def fmlookup_dom_iff)

lemma retry_filter_offsets:
  "off |\<in>| fst (retry_filter now_ms s) \<longleftrightarrow>
     (\<exists>r. fmlookup (retry_not_before s) off = Some r \<and> now_ms < rs_not_before_ms r)"
proof -
  have "off |\<in>| fst (retry_filter now_ms s) \<longleftrightarrow>
      (\<exists>r. (off, r) \<in> set (sorted_list_of_fmap (retry_not_before s)) \<and> now_ms < rs_not_before_ms r)"
    unfolding retry_filter_def retry_filter_fold by (force simp: fset_of_list_elem)
  then show ?thesis by (simp add: set_sorted_list_of_fmap)
qed

lemma retry_filter_keys:
  "key |\<in>| snd (retry_filter now_ms s) \<longleftrightarrow>
     (\<exists>off r. fmlookup (retry_not_before s) off = Some r \<and> now_ms < rs_not_before_ms r \<and> rs_key r = Some key)"
proof -
  have "key |\<in>| snd (retry_filter now_ms s) \<longleftrightarrow>
      (\<exists>off r. (off, r) \<in> set (sorted_list_of_fmap (retry_not_before s)) \<and> now_ms < rs_not_before_ms r \<and>
        rs_key r = Some key)"
    unfolding retry_filter_def retry_filter_fold
    by (auto simp: fset_of_list_elem split: option.splits; metis)
  then show ?thesis by (simp add: set_sorted_list_of_fmap)
qed

section \<open>Properties\<close>

text \<open>C18: Replaying a journal a second time changes nothing: wherever in the middle of a compaction the
  process stops, events that are already part of the checkpoint move no progress back, revive no
  acknowledged attempt and bring back no retry schedule.\<close>

theorem journal_replay_idempotent:
  assumes "cs_wf s" "list_all event_bounded es" "apply_events es s = Inr t"
  shows "apply_events es t = Inr t"
  using assms by (rule apply_events_idem)

definition sample_policy :: consumer_policy where
  "sample_policy = \<lparr>cp_version = 1, cp_configured = True, cp_ack_timeout_ms = 10, cp_max_delivery_attempts = Some 3,
     cp_retry_delay_ms = 5\<rparr>"

definition sample_events :: "consumer_state_event list" where
  "sample_events =
     [DeliveryAttempt \<lparr>da_offset = 0, da_attempt = 1, da_policy = sample_policy\<rparr>,
      RetrySchedules [\<lparr>rse_offset = 0, rse_not_before_ms = 50, rse_key = Some ''k''\<rparr>],
      AcknowledgeBatch [2, 1], Acknowledge 0]"

theorem journal_replay_idempotent_witness:
  "\<exists>t. apply_events sample_events (new_consumer_state ''s'' ''c'') = Inr t \<and> apply_events sample_events t = Inr t"
proof -
  let ?t = "fold apply_change (concat (map changes sample_events)) (new_consumer_state ''s'' ''c'')"
  have b: "list_all event_bounded sample_events"
    by (auto simp: sample_events_def event_bounded_def)
  then have "apply_events sample_events (new_consumer_state ''s'' ''c'') = Inr ?t"
    by (simp add: apply_events_Inr list_all_iff event_bounded_def)
  with journal_replay_idempotent [OF cs_wf_new b this] show ?thesis by blast
qed

text \<open>C17: Acknowledgements refine a set of settled offsets: acknowledging a list settles exactly its
  offsets beside those settled before, the order is irrelevant for the whole state, and the
  representation stays well formed.\<close>

theorem acknowledgements_refine_set:
  assumes "cs_wf s" "list_all (\<lambda>off. off < u64_max) offs" "mset offs' = mset offs"
  shows "Collect (settled (fold acknowledge offs s)) = Collect (settled s) \<union> set offs \<and>
    fold acknowledge offs' s = fold acknowledge offs s \<and> cs_wf (fold acknowledge offs s)"
  using cs_progress.acks_refine [OF assms(1,2)] cs_progress.acks_wf [OF assms(1,2)]
    acknowledge_any_order [OF assms(1,2), of offs'] assms(3) by simp

theorem acknowledgements_refine_set_witness:
  "committed_offset (fold acknowledge [2, 0, 1] (new_consumer_state ''s'' ''c'')) = 3 \<and>
   Collect (settled (fold acknowledge [2, 0, 1] (new_consumer_state ''s'' ''c''))) =
     Collect (settled (new_consumer_state ''s'' ''c'')) \<union> set [2, 0, 1]"
proof
  show "Collect (settled (fold acknowledge [2, 0, 1] (new_consumer_state ''s'' ''c''))) =
      Collect (settled (new_consumer_state ''s'' ''c'')) \<union> set [2, 0, 1]"
    using acknowledgements_refine_set [OF cs_wf_new, of "[2, 0, 1]" "[2, 0, 1]" "''s''" "''c''"] by simp
qed (simp add: acknowledge_def new_consumer_state_def advance_committed.simps Let_def)

text \<open>The retry filter blocks exactly the offsets whose retry time lies in the future, and exactly
  the keys such offsets carry.\<close>

theorem retry_filter_exact:
  "fset (fst (retry_filter now_ms s)) =
     {off. \<exists>r. fmlookup (retry_not_before s) off = Some r \<and> now_ms < rs_not_before_ms r} \<and>
   fset (snd (retry_filter now_ms s)) =
     {key. \<exists>off r. fmlookup (retry_not_before s) off = Some r \<and> now_ms < rs_not_before_ms r \<and> rs_key r = Some key}"
  by (simp add: set_eq_iff retry_filter_offsets retry_filter_keys)

end
