(* ===== verification/Consumer_Files.thy ===== *)
theory Consumer_Files
  imports Consumer_State
begin

text \<open>
  The two files of one consumer: the checkpoint \<open><consumer>.json\<close> and the append-only event
  journal beside it (\<open>crates/runnel-core/src/consumer_state.rs\<close>, \<open>load_consumer_state\<close> to
  \<open>persist_consumer_state\<close>). Files are byte strings; every system call may fail, as a script of
  outcomes says, and a failing write may leave any prefix behind. JSON (\<open>serde_json\<close>) is a
  parameter with its laws in \<open>codec_ok\<close>.
\<close>

section \<open>System calls that may fail\<close>

datatype io_fault = IoFine | IoFail io_error | IoPartial nat io_error

record consumer_store =
  cf_checkpoint :: "bytes option"
  cf_journal :: "bytes option"
  cf_script :: "io_fault list"

text \<open>
  A call takes the next outcome of the script; an exhausted script means success. A partial
  outcome matters to writes only, for any other call it is a plain failure.
\<close>

definition next_fault :: "consumer_store \<Rightarrow> io_fault \<times> consumer_store" where
  "next_fault d = (case cf_script d of [] \<Rightarrow> (IoFine, d) | f # fs \<Rightarrow> (f, d\<lparr>cf_script := fs\<rparr>))"

definition syscall :: "(consumer_store, io_error, unit) op" where
  "syscall d =
     (case next_fault d of
        (IoFine, d1) \<Rightarrow> (Inr (), d1)
      | (IoFail e, d1) \<Rightarrow> (Inl e, d1)
      | (IoPartial _ e, d1) \<Rightarrow> (Inl e, d1))"

definition journal_bytes_of :: "consumer_store \<Rightarrow> bytes" where
  "journal_bytes_of d = (case cf_journal d of None \<Rightarrow> [] | Some bs \<Rightarrow> bs)"

text \<open>\<open>write_all\<close> on the journal, opened for appending.\<close>

definition append_journal :: "bytes \<Rightarrow> (consumer_store, io_error, unit) op" where
  "append_journal bs d =
     (case next_fault d of
        (IoFine, d1) \<Rightarrow> (Inr (), d1\<lparr>cf_journal := Some (journal_bytes_of d1 @ bs)\<rparr>)
      | (IoFail e, d1) \<Rightarrow> (Inl e, d1)
      | (IoPartial n e, d1) \<Rightarrow>
          (Inl e, d1\<lparr>cf_journal := Some (journal_bytes_of d1 @ take (min n (length bs - 1)) bs)\<rparr>))"

section \<open>The codec parameter\<close>

record codec =
  enc_event :: "consumer_state_event \<Rightarrow> bytes"
  dec_event :: "bytes \<Rightarrow> string + consumer_state_event"
  json_value :: "bytes \<Rightarrow> bool"
  enc_state :: "consumer_state \<Rightarrow> bytes"
  dec_state :: "bytes \<Rightarrow> string + consumer_state"

text \<open>
  What the code relies on: decoding inverts encoding (for a checkpoint, with the newline
  written after it), the compact encoding of an event contains no newline byte, and no
  proper prefix of an encoded event is itself a JSON value.
\<close>

definition codec_ok :: "codec \<Rightarrow> bool" where
  "codec_ok cdc \<longleftrightarrow>
     (\<forall>e. dec_event cdc (enc_event cdc e) = Inr e) \<and>
     (\<forall>e. 10 \<notin> set (enc_event cdc e)) \<and>
     (\<forall>e n. n < length (enc_event cdc e) \<longrightarrow> \<not> json_value cdc (take n (enc_event cdc e))) \<and>
     (\<forall>s. dec_state cdc (enc_state cdc s @ [10]) = Inr s)"

section \<open>Operations\<close>

definition MAX_CONSUMER_STATE_JOURNAL_BYTES :: nat where
  "MAX_CONSUMER_STATE_JOURNAL_BYTES = 1024 * 1024"

definition persist_failure :: "consumer_state_persist_stage \<Rightarrow> string \<Rightarrow> broker_error" where
  "persist_failure stage m = ConsumerStatePersistence stage m"

definition map_io_failure :: "consumer_state_persist_stage \<Rightarrow> bool \<Rightarrow> io_error \<Rightarrow> broker_error" where
  "map_io_failure stage batch_event e =
     (if batch_event then persist_failure stage (io_message e) else Io e)"

definition map_broker_failure ::
  "consumer_state_persist_stage \<Rightarrow> bool \<Rightarrow> broker_error \<Rightarrow> broker_error" where
  "map_broker_failure stage batch_event e =
     (if batch_event then persist_failure stage (error_to_string e) else e)"

text \<open>Open the journal for writing, set its length, sync. Opening a missing file fails.\<close>

definition truncate_consumer_state_journal :: "nat \<Rightarrow> (consumer_store, broker_error, unit) op" where
  "truncate_consumer_state_journal len =
     map_error Io
       (and_then (reads cf_journal) (\<lambda>journal.
        case journal of
          None \<Rightarrow> throw (IoError IoNotFound ''entity not found'')
        | Some bs \<Rightarrow>
            and_then syscall (\<lambda>_.
            and_then syscall (\<lambda>_.
            and_then (modify (\<lambda>d. d\<lparr>cf_journal := Some (take len bs)\<rparr>)) (\<lambda>_.
            syscall)))))"

text \<open>
  Write the checkpoint to a temporary file, sync it, and rename it over the old one. A failed
  serialisation is a JSON error, the other calls return I/O errors.
\<close>

definition persist_consumer_state :: "codec \<Rightarrow> consumer_state \<Rightarrow> (consumer_store, broker_error, unit) op" where
  "persist_consumer_state cdc state =
     and_then (map_error Io syscall) (\<lambda>_.
     and_then (map_error Io syscall) (\<lambda>_.
     and_then (map_error (\<lambda>e. State (io_message e)) syscall) (\<lambda>_.
     and_then (map_error Io syscall) (\<lambda>_.
     and_then (map_error Io syscall) (\<lambda>_.
     and_then (map_error Io syscall) (\<lambda>_.
     modify (\<lambda>d. d\<lparr>cf_checkpoint := Some (enc_state cdc state @ [10])\<rparr>)))))))"

fun is_batch_event :: "consumer_state_event \<Rightarrow> bool" where
  "is_batch_event (DeliveryAttempts _) = True"
| "is_batch_event (RetrySchedules _) = True"
| "is_batch_event (AcknowledgeBatch _) = True"
| "is_batch_event _ = False"

definition journal_compaction ::
  "codec \<Rightarrow> string \<Rightarrow> string \<Rightarrow> consumer_state \<Rightarrow> bool \<Rightarrow> (consumer_store, broker_error, unit) op" where
  "journal_compaction cdc stream consumer current_state batch_event =
     and_then (map_error (map_broker_failure BeforeAppend batch_event)
       (persist_consumer_state cdc (current_state\<lparr>cs_stream := stream, cs_consumer := consumer\<rparr>))) (\<lambda>_.
     map_error (map_broker_failure BeforeAppend batch_event) (truncate_consumer_state_journal 0))"

definition persist_consumer_event ::
  "codec \<Rightarrow> string \<Rightarrow> string \<Rightarrow> consumer_state \<Rightarrow> consumer_state_event \<Rightarrow>
   (consumer_store, broker_error, unit) op" where
  "persist_consumer_event cdc stream consumer current_state event =
     (let batch_event = is_batch_event event;
          encoded = enc_event cdc event @ [10]
      in and_then (map_error (map_io_failure BeforeAppend batch_event) syscall) (\<lambda>_.
         and_then (reads (\<lambda>d. length (journal_bytes_of d))) (\<lambda>journal_len.
         and_then
           (if saturating_add64 journal_len (length encoded) > MAX_CONSUMER_STATE_JOURNAL_BYTES
            then journal_compaction cdc stream consumer current_state batch_event
            else return_op ()) (\<lambda>_.
         and_then (map_error (map_io_failure BeforeAppend batch_event) syscall) (\<lambda>_.
         and_then (map_error (map_io_failure BeforeAppend batch_event) syscall) (\<lambda>_.
         and_then (modify (\<lambda>d. d\<lparr>cf_journal := Some (journal_bytes_of d)\<rparr>)) (\<lambda>_.
         and_then (map_error (map_io_failure Append batch_event) (append_journal encoded)) (\<lambda>_.
         map_error (map_io_failure Sync batch_event) syscall))))))))"

text \<open>Sync the journal if it exists (used before a failed append is trusted again).\<close>

definition sync_consumer_state_journal :: "(consumer_store, broker_error, unit) op" where
  "sync_consumer_state_journal =
     and_then (reads cf_journal) (\<lambda>journal.
     case journal of
       None \<Rightarrow> return_op ()
     | Some _ \<Rightarrow> and_then (map_error Io syscall) (\<lambda>_. map_error Io syscall))"

subsection \<open>Loading\<close>

function split_inclusive :: "bytes \<Rightarrow> bytes list" where
  "split_inclusive bs =
     (if bs = [] then []
      else let line = takeWhile (\<lambda>b. b \<noteq> 10) bs
           in case drop (length line) bs of
                [] \<Rightarrow> [line]
              | b # rest \<Rightarrow> (line @ [b]) # split_inclusive rest)"
  by pat_completeness auto
termination
proof (relation "measure length", goal_cases)
  case 1
  show ?case by simp
next
  case (2 bs line b rest)
  then have "length (drop (length line) bs) = Suc (length rest)" by simp
  then show ?case by simp
qed

declare split_inclusive.simps [simp del]

definition ends_with_newline :: "bytes \<Rightarrow> bool" where
  "ends_with_newline line = (line \<noteq> [] \<and> last line = 10)"

fun replay_lines ::
  "codec \<Rightarrow> bytes list \<Rightarrow> consumer_state \<Rightarrow> nat \<Rightarrow> broker_error + (consumer_state \<times> nat)" where
  "replay_lines cdc [] state valid_length = Inr (state, valid_length)"
| "replay_lines cdc (line # rest) state valid_length =
     (if \<not> ends_with_newline line
      then (if json_value cdc line \<and> (case dec_event cdc line of Inl _ \<Rightarrow> True | Inr _ \<Rightarrow> False)
            then Inl (invalid_state_data ''consumer state journal contains a complete unsupported record'')
            else Inr (state, valid_length))
      else case dec_event cdc (butlast line) of
             Inl m \<Rightarrow> Inl (State m)
           | Inr event \<Rightarrow>
               (case apply_event event state of
                  Inl x \<Rightarrow> Inl x
                | Inr state1 \<Rightarrow> replay_lines cdc rest state1 (valid_length + length line)))"

definition replay_consumer_state_journal ::
  "codec \<Rightarrow> consumer_state \<Rightarrow> (consumer_store, broker_error, consumer_state) op" where
  "replay_consumer_state_journal cdc state =
     and_then (reads cf_journal) (\<lambda>journal.
     case journal of
       None \<Rightarrow> return_op state
     | Some bs \<Rightarrow>
         and_then (map_error Io syscall) (\<lambda>_.
         if length bs > MAX_CONSUMER_STATE_JOURNAL_BYTES
         then throw (invalid_state_data ''consumer state journal exceeds its configured bound'')
         else and_then (lift_res (replay_lines cdc (split_inclusive bs) state 0)) (\<lambda>(state1, valid_length).
              if valid_length \<noteq> length bs
              then and_then (truncate_consumer_state_journal valid_length) (\<lambda>_. return_op state1)
              else return_op state1)))"

definition load_consumer_state ::
  "codec \<Rightarrow> string \<Rightarrow> string \<Rightarrow> (consumer_store, broker_error, consumer_state) op" where
  "load_consumer_state cdc stream consumer =
     and_then
       (and_then (reads cf_checkpoint) (\<lambda>checkpoint.
        case checkpoint of
          Some bs \<Rightarrow>
            and_then (map_error Io syscall) (\<lambda>_.
            case dec_state cdc bs of Inl m \<Rightarrow> throw (State m) | Inr s \<Rightarrow> return_op s)
        | None \<Rightarrow> return_op (new_consumer_state stream consumer))) (\<lambda>state.
     and_then (replay_consumer_state_journal cdc state) (\<lambda>state1.
     and_then (lift_res (validate_state state1)) (\<lambda>_.
     return_op state1)))"

section \<open>Journals as text\<close>

definition journal_line :: "codec \<Rightarrow> consumer_state_event \<Rightarrow> bytes" where
  "journal_line cdc e = enc_event cdc e @ [10]"

definition journal_text :: "codec \<Rightarrow> consumer_state_event list \<Rightarrow> bytes" where
  "journal_text cdc es = concat (map (journal_line cdc) es)"

lemma journal_text_simps [simp]:
  "journal_text cdc [] = []"
  "journal_text cdc (e # es) = journal_line cdc e @ journal_text cdc es"
  "journal_text cdc (es @ fs) = journal_text cdc es @ journal_text cdc fs"
  by (simp_all add: journal_text_def)

lemma split_inclusive_Nil [simp]: "split_inclusive [] = []"
  by (simp add: split_inclusive.simps)

lemma split_inclusive_line:
  "10 \<notin> set l \<Longrightarrow> split_inclusive (l @ 10 # rest) = (l @ [10]) # split_inclusive rest"
proof -
  assume l: "10 \<notin> set l"
  then have "takeWhile (\<lambda>b. b \<noteq> 10) (l @ 10 # rest) = l"
    by (subst takeWhile_append2) auto
  then show ?thesis by (subst split_inclusive.simps) (simp add: Let_def)
qed

lemma split_inclusive_last:
  "10 \<notin> set l \<Longrightarrow> split_inclusive l = (if l = [] then [] else [l])"
proof -
  assume "10 \<notin> set l"
  then have "takeWhile (\<lambda>b. b \<noteq> 10) l = l" by (auto simp: takeWhile_eq_all_conv)
  then show ?thesis by (subst split_inclusive.simps) (simp add: Let_def del: takeWhile_eq_all_conv)
qed

lemma split_inclusive_text:
  assumes "codec_ok cdc" "10 \<notin> set torn"
  shows "split_inclusive (journal_text cdc es @ torn) =
    map (journal_line cdc) es @ (if torn = [] then [] else [torn])"
  using assms
proof (induction es)
  case Nil
  then show ?case by (simp add: split_inclusive_last)
next
  case (Cons e es)
  then have "10 \<notin> set (enc_event cdc e)" by (simp add: codec_ok_def)
  with Cons show ?case
    by (simp add: journal_line_def split_inclusive_line)
qed

lemma replay_lines_text:
  assumes "codec_ok cdc"
  shows "replay_lines cdc (map (journal_line cdc) es @ rest) s v =
    (case apply_events es s of Inl x \<Rightarrow> Inl x
     | Inr t \<Rightarrow> replay_lines cdc rest t (v + length (journal_text cdc es)))"
  using assms
proof (induction es arbitrary: s v)
  case (Cons e es)
  have "dec_event cdc (butlast (journal_line cdc e)) = Inr e"
    using Cons.prems by (simp add: journal_line_def codec_ok_def)
  moreover have "ends_with_newline (journal_line cdc e)"
    by (simp add: ends_with_newline_def journal_line_def)
  ultimately show ?case
    using Cons by (simp add: add.assoc split: sum.split)
qed simp

text \<open>The torn tail of an interrupted append: a prefix of an encoded event, without its newline.\<close>

definition torn_tail :: "codec \<Rightarrow> bytes \<Rightarrow> bool" where
  "torn_tail cdc torn \<longleftrightarrow> (\<exists>e n. torn = take n (enc_event cdc e))"

lemma torn_tail_Nil [simp]: "torn_tail cdc []"
  unfolding torn_tail_def by (rule exI, rule exI [of _ 0]) simp

lemma torn_tail_take: "torn_tail cdc (take (min n (length (enc_event cdc e))) (journal_line cdc e))"
  unfolding torn_tail_def journal_line_def
  by (intro exI [of _ e] exI [of _ "min n (length (enc_event cdc e))"]) simp

lemma torn_tail_no_newline: "codec_ok cdc \<Longrightarrow> torn_tail cdc torn \<Longrightarrow> 10 \<notin> set torn"
  by (auto simp: torn_tail_def codec_ok_def dest: in_set_takeD)

lemma replay_lines_torn:
  assumes "codec_ok cdc" "torn_tail cdc torn"
  shows "replay_lines cdc (if torn = [] then [] else [torn]) s v = Inr (s, v)"
proof (cases "torn = []")
  case False
  from assms(2) obtain e n where t: "torn = take n (enc_event cdc e)" by (auto simp: torn_tail_def)
  have nl: "\<not> ends_with_newline torn"
    using torn_tail_no_newline [OF assms] by (auto simp: ends_with_newline_def dest: last_in_set)
  have "\<not> (json_value cdc torn \<and> (case dec_event cdc torn of Inl _ \<Rightarrow> True | Inr _ \<Rightarrow> False))"
    using assms(1) t by (cases "n < length (enc_event cdc e)") (auto simp: codec_ok_def)
  with nl False show ?thesis by auto
qed simp

section \<open>What the files store\<close>

text \<open>
  The files store the state \<open>s\<close>: replaying the journalled events over the checkpoint (or over a
  new state where there is none) gives \<open>s\<close>, up to a torn tail of the journal.
\<close>

definition checkpoint_is :: "codec \<Rightarrow> string \<Rightarrow> string \<Rightarrow> consumer_state \<Rightarrow> consumer_store \<Rightarrow> bool" where
  "checkpoint_is cdc stream consumer s0 d \<longleftrightarrow>
     (case cf_checkpoint d of None \<Rightarrow> s0 = new_consumer_state stream consumer
      | Some cs \<Rightarrow> cs = enc_state cdc s0 @ [10])"

definition stored ::
  "codec \<Rightarrow> string \<Rightarrow> string \<Rightarrow> consumer_state \<Rightarrow> bytes \<Rightarrow> consumer_store \<Rightarrow> bool" where
  "stored cdc stream consumer s torn d \<longleftrightarrow>
     (\<exists>s0 es. cs_wf s0 \<and> cs_stream s0 = stream \<and> cs_consumer s0 = consumer \<and>
        list_all event_bounded es \<and> apply_events es s0 = Inr s \<and>
        checkpoint_is cdc stream consumer s0 d \<and>
        (case cf_journal d of None \<Rightarrow> es = [] \<and> torn = [] | Some bs \<Rightarrow> bs = journal_text cdc es @ torn) \<and>
        torn_tail cdc torn)"

abbreviation stored_clean ::
  "codec \<Rightarrow> string \<Rightarrow> string \<Rightarrow> consumer_state \<Rightarrow> consumer_store \<Rightarrow> bool" where
  "stored_clean cdc stream consumer s \<equiv> stored cdc stream consumer s []"

lemma new_consumer_state_names [simp]:
  "cs_stream (new_consumer_state stream consumer) = stream"
  "cs_consumer (new_consumer_state stream consumer) = consumer"
  by (simp_all add: new_consumer_state_def)

lemma storedI:
  assumes "cs_wf s0" "cs_stream s0 = stream" "cs_consumer s0 = consumer" "list_all event_bounded es"
    "apply_events es s0 = Inr s" "checkpoint_is cdc stream consumer s0 d"
    "cf_journal d = Some (journal_text cdc es @ torn)" "torn_tail cdc torn"
  shows "stored cdc stream consumer s torn d"
  unfolding stored_def
  by (intro exI [of _ s0] exI [of _ es]) (use assms in \<open>simp add: journal_bytes_of_def\<close>)

lemma stored_SomeE:
  assumes "stored cdc stream consumer s torn d" "cf_journal d = Some bs"
  obtains s0 es where "cs_wf s0" "cs_stream s0 = stream" "cs_consumer s0 = consumer"
    "list_all event_bounded es" "apply_events es s0 = Inr s" "checkpoint_is cdc stream consumer s0 d"
    "bs = journal_text cdc es @ torn" "torn_tail cdc torn"
  using assms unfolding stored_def by (auto simp: journal_bytes_of_def)

lemma checkpoint_is_frame [simp]:
  "checkpoint_is cdc stream consumer s0 (d\<lparr>cf_script := fs\<rparr>) = checkpoint_is cdc stream consumer s0 d"
  "checkpoint_is cdc stream consumer s0 (d\<lparr>cf_journal := j\<rparr>) = checkpoint_is cdc stream consumer s0 d"
  by (simp_all add: checkpoint_is_def)

lemma stored_new:
  "stored_clean cdc stream consumer (new_consumer_state stream consumer)
     \<lparr>cf_checkpoint = None, cf_journal = None, cf_script = fs\<rparr>"
  unfolding stored_def
  by (intro exI [of _ "new_consumer_state stream consumer"] exI [of _ "[]"])
    (simp add: journal_bytes_of_def checkpoint_is_def)

lemma event_bounded_list:
  "list_all event_bounded es \<Longrightarrow> \<forall>c \<in> set (concat (map changes es)). change_ok c"
  by (auto simp: list_all_iff dest: event_bounded_changes)

lemma apply_events_wf:
  assumes "cs_wf s" "list_all event_bounded es" "apply_events es s = Inr t"
  shows "cs_wf t" "cs_stream t = cs_stream s" "cs_consumer t = cs_consumer s"
proof -
  have t: "t = fold apply_change (concat (map changes es)) s"
    using assms(3) by (simp add: apply_events_Inr)
  note ok = event_bounded_list [OF assms(2)]
  show "cs_wf t" unfolding t by (rule cs_wf_changes [OF assms(1) ok])
  show "cs_stream t = cs_stream s" "cs_consumer t = cs_consumer s"
    unfolding t using names_changes [OF assms(1) ok] by simp_all
qed

lemma stored_wf: "stored cdc stream consumer s torn d \<Longrightarrow> cs_wf s"
  and stored_names: "stored cdc stream consumer s torn d \<Longrightarrow> cs_stream s = stream \<and> cs_consumer s = consumer"
  unfolding stored_def using apply_events_wf by blast+

text \<open>Assertions on the files do not mention the script, so system calls keep them.\<close>

definition script_free :: "(consumer_store \<Rightarrow> bool) \<Rightarrow> bool" where
  "script_free P \<longleftrightarrow> (\<forall>d fs. P d \<longrightarrow> P (d\<lparr>cf_script := fs\<rparr>))"

lemma stored_script [simp]:
  "stored cdc stream consumer s torn (d\<lparr>cf_script := fs\<rparr>) = stored cdc stream consumer s torn d"
  by (simp add: stored_def journal_bytes_of_def)

lemma journal_bytes_of_script [simp]: "journal_bytes_of (d\<lparr>cf_script := fs\<rparr>) = journal_bytes_of d"
  by (simp add: journal_bytes_of_def)

lemma next_fault_frame:
  "script_free P \<Longrightarrow> P d \<Longrightarrow> next_fault d = (f, d1) \<Longrightarrow> P d1"
  by (auto simp: next_fault_def script_free_def split: list.splits)

lemma hoare_syscall:
  assumes "script_free P" "\<And>e d. P d \<Longrightarrow> R (g e) d"
  shows "hoare P (map_error g syscall) (\<lambda>_. P) R"
  using assms
  by (auto simp: hoare_def map_error_def syscall_def split: prod.splits io_fault.splits
      dest: next_fault_frame)

lemma hoare_syscall':
  assumes "script_free P" "\<And>e d. P d \<Longrightarrow> R e d"
  shows "hoare P syscall (\<lambda>_. P) R"
  using assms
  by (auto simp: hoare_def syscall_def split: prod.splits io_fault.splits dest: next_fault_frame)

lemma hoare_map_error: "hoare P m Q (\<lambda>e. R (g e)) \<Longrightarrow> hoare P (map_error g m) Q R"
  by (fastforce simp: hoare_def map_error_def split: prod.splits sum.splits)

lemma hoare_conj:
  "hoare P m Q R \<Longrightarrow> hoare P' m Q' R' \<Longrightarrow>
   hoare (\<lambda>s. P s \<and> P' s) m (\<lambda>x s. Q x s \<and> Q' x s) (\<lambda>e s. R e s \<and> R' e s)"
  by (fastforce simp: hoare_def split: prod.splits sum.splits)

lemma hoare_reads: "hoare P (reads f) (\<lambda>x d. P d \<and> x = f d) R"
  by (simp add: hoare_def reads_def)

lemma hoare_modify: "(\<And>d. P d \<Longrightarrow> Q (f d)) \<Longrightarrow> hoare P (modify f) (\<lambda>_. Q) R"
  by (simp add: hoare_def modify_def)

lemma lift_res_bind:
  "and_then (lift_res r) f = (case r of Inl e \<Rightarrow> throw e | Inr x \<Rightarrow> f x)"
  by (cases r) (simp_all add: op_simps fun_eq_iff)

lemma hoare_and_then_reads:
  "(\<And>x. hoare (\<lambda>d. P d \<and> x = f d) (g x) S R) \<Longrightarrow> hoare P (and_then (reads f) g) S R"
  by (rule hoare_and_then [OF hoare_reads])

lemma hoare_and_then_syscall:
  "script_free P \<Longrightarrow> (\<And>e d. P d \<Longrightarrow> R (h e) d) \<Longrightarrow> hoare P (g ()) S R \<Longrightarrow>
   hoare P (and_then (map_error h syscall) g) S R"
  by (rule hoare_and_then [OF hoare_syscall]) auto

lemma hoare_and_then_modify:
  "(\<And>d. P d \<Longrightarrow> Q (f d)) \<Longrightarrow> hoare Q (g ()) S R \<Longrightarrow> hoare P (and_then (modify f) g) S R"
  by (rule hoare_and_then [OF hoare_modify [of P Q]]) auto

lemmas hoare_steps = hoare_and_then_reads hoare_and_then_syscall hoare_and_then_modify hoare_syscall

section \<open>Loading restores what is stored\<close>

lemma stored_truncate:
  assumes "stored cdc stream consumer s torn d" "cf_journal d = Some bs"
  shows "stored_clean cdc stream consumer s (d\<lparr>cf_journal := Some (take (length bs - length torn) bs)\<rparr>)"
proof -
  from assms obtain s0 es where "cs_wf s0" "cs_stream s0 = stream" "cs_consumer s0 = consumer"
    "list_all event_bounded es" "apply_events es s0 = Inr s" "checkpoint_is cdc stream consumer s0 d"
    "bs = journal_text cdc es @ torn" "torn_tail cdc torn"
    by (rule stored_SomeE)
  then show ?thesis by (intro storedI [of s0 _ _ es]) auto
qed

lemma hoare_truncate:
  assumes "script_free P" "\<And>d bs fs. P d \<Longrightarrow> cf_journal d = Some bs \<Longrightarrow> Q (d\<lparr>cf_journal := Some (take n bs)\<rparr>)"
    and "script_free Q" "\<And>e d. P d \<Longrightarrow> R (Io e) d" "\<And>e d. Q d \<Longrightarrow> R (Io e) d"
  shows "hoare P (truncate_consumer_state_journal n) (\<lambda>_. Q) R"
proof -
  have frame: "script_free (\<lambda>d. P d \<and> Some bs = cf_journal d)" for bs
    using assms(1) by (auto simp: script_free_def)
  have "hoare (\<lambda>d. P d \<and> Some bs = cf_journal d)
      (and_then syscall (\<lambda>_. and_then syscall (\<lambda>_.
       and_then (modify (\<lambda>d. d\<lparr>cf_journal := Some (take n bs)\<rparr>)) (\<lambda>_. syscall)))) (\<lambda>_. Q) (\<lambda>e. R (Io e))" for bs
    using assms
    by (intro hoare_and_then [OF hoare_syscall'] hoare_and_then_modify [where Q = Q] hoare_syscall' frame)
      auto
  then show ?thesis
    unfolding truncate_consumer_state_journal_def
    by (intro hoare_map_error hoare_and_then_reads)
      (auto split: option.splits intro: hoare_weaken_pre [OF hoare_throw] assms(4))
qed

lemma stored_replay:
  assumes "codec_ok cdc" "stored cdc stream consumer s torn d" "cf_journal d = Some bs"
  obtains s0 where "checkpoint_is cdc stream consumer s0 d"
    "replay_lines cdc (split_inclusive bs) s0 0 = Inr (s, length bs - length torn)"
    "length torn \<le> length bs"
proof -
  from assms(2,3) obtain s0 es where *: "apply_events es s0 = Inr s" "checkpoint_is cdc stream consumer s0 d"
      "bs = journal_text cdc es @ torn" "torn_tail cdc torn"
    by (rule stored_SomeE)
  have "split_inclusive bs = map (journal_line cdc) es @ (if torn = [] then [] else [torn])"
    unfolding *(3) by (rule split_inclusive_text [OF assms(1) torn_tail_no_newline [OF assms(1) *(4)]])
  then have "replay_lines cdc (split_inclusive bs) s0 0 = Inr (s, length bs - length torn)"
    using * assms(1) by (simp only: replay_lines_text replay_lines_torn sum.case) simp
  with * show thesis by (intro that) auto
qed

lemma stored_absent:
  assumes "stored cdc stream consumer s torn d" "cf_journal d = None"
  shows "checkpoint_is cdc stream consumer s d" "torn = []"
  using assms unfolding stored_def by auto

lemma cs_wf_validate: "cs_wf s \<Longrightarrow> validate_state s = Inr ()"
  by (simp add: cs_wf_def validate_state_def)

lemma checkpoint_is_unique:
  "codec_ok cdc \<Longrightarrow> checkpoint_is cdc stream consumer s0 d \<Longrightarrow> checkpoint_is cdc stream consumer s1 d \<Longrightarrow> s0 = s1"
  unfolding checkpoint_is_def codec_ok_def
  by (cases "cf_checkpoint d") (simp_all, metis sum.inject(2))

text \<open>Reading the checkpoint yields the base state of the journal.\<close>

lemma hoare_replay:
  assumes "codec_ok cdc"
  shows "hoare (\<lambda>d. stored cdc stream consumer s torn d \<and> checkpoint_is cdc stream consumer s0 d)
    (replay_consumer_state_journal cdc s0)
    (\<lambda>x d. x = s \<and> stored_clean cdc stream consumer s d)
    (\<lambda>e d. stored cdc stream consumer s torn d \<or> stored_clean cdc stream consumer s d)"
    (is "hoare ?P _ ?Q ?R")
proof -
  let ?PJ = "\<lambda>j d. ?P d \<and> j = cf_journal d"
  have frame: "script_free (?PJ j)" for j
    by (auto simp: script_free_def)
  have tr: "hoare (?PJ (Some bs)) (truncate_consumer_state_journal (length bs - length torn))
      (\<lambda>_. stored_clean cdc stream consumer s) ?R" for bs
    by (rule hoare_truncate [OF frame])
      (auto simp: script_free_def dest: stored_truncate)
  have body: "hoare (?PJ (Some bs))
      (if length bs > MAX_CONSUMER_STATE_JOURNAL_BYTES
       then throw (invalid_state_data ''consumer state journal exceeds its configured bound'')
       else and_then (lift_res (replay_lines cdc (split_inclusive bs) s0 0)) (\<lambda>(state1, valid_length).
            if valid_length \<noteq> length bs
            then and_then (truncate_consumer_state_journal valid_length) (\<lambda>_. return_op state1)
            else return_op state1)) ?Q ?R" (is "hoare _ ?body _ _") for bs
  proof (cases "\<exists>d. ?PJ (Some bs) d")
    case True
    then obtain d where d: "?P d" "cf_journal d = Some bs" by auto
    from stored_replay [OF assms conjunct1 [OF d(1)] d(2)] obtain s1 where s1:
      "checkpoint_is cdc stream consumer s1 d"
      "replay_lines cdc (split_inclusive bs) s1 0 = Inr (s, length bs - length torn)"
      "length torn \<le> length bs"
      by blast
    have "s1 = s0" using checkpoint_is_unique [OF assms s1(1)] d(1) by auto
    with s1 have body_eq: "?body = (if length bs > MAX_CONSUMER_STATE_JOURNAL_BYTES
        then throw (invalid_state_data ''consumer state journal exceeds its configured bound'')
        else if torn \<noteq> []
        then and_then (truncate_consumer_state_journal (length bs - length torn)) (\<lambda>_. return_op s)
        else return_op s)"
      by (cases torn) (auto simp: lift_res_bind)
    have "hoare (?PJ (Some bs)) (and_then (truncate_consumer_state_journal (length bs - length torn))
        (\<lambda>_. return_op s)) ?Q ?R"
      by (rule hoare_and_then [OF tr]) (rule hoare_weaken_pre [OF hoare_return], simp)
    then show ?thesis unfolding body_eq
      by (cases torn) (auto intro: hoare_weaken_pre [OF hoare_return] hoare_weaken_pre [OF hoare_throw])
  qed (auto simp: hoare_def)
  have absent: "?PJ None d \<Longrightarrow> s0 = s \<and> stored_clean cdc stream consumer s d" for d
    using stored_absent [of cdc stream consumer s torn d] checkpoint_is_unique [OF assms, of stream consumer s0 d s]
    by auto
  have none: "hoare (?PJ None) (return_op s0) ?Q ?R"
    by (rule hoare_weaken_pre [OF hoare_return]) (use absent in auto)
  have case_split: "hoare (?PJ j) (case j of None \<Rightarrow> return_op s0
      | Some bs \<Rightarrow> and_then (map_error Io syscall) (\<lambda>_. f bs)) ?Q ?R"
    if "\<And>bs. hoare (?PJ (Some bs)) (f bs) ?Q ?R" for j f
    using that none by (cases j) (auto intro!: hoare_and_then_syscall simp: script_free_def)
  show ?thesis
    unfolding replay_consumer_state_journal_def
    by (intro hoare_and_then_reads case_split body)
qed

lemma hoare_read_checkpoint:
  assumes "codec_ok cdc"
  shows "hoare (stored cdc stream consumer s torn)
    (and_then (reads cf_checkpoint) (\<lambda>checkpoint.
        case checkpoint of
          Some bs \<Rightarrow>
            and_then (map_error Io syscall) (\<lambda>_.
            case dec_state cdc bs of Inl m \<Rightarrow> throw (State m) | Inr s \<Rightarrow> return_op s)
        | None \<Rightarrow> return_op (new_consumer_state stream consumer)))
    (\<lambda>s0 d. stored cdc stream consumer s torn d \<and> checkpoint_is cdc stream consumer s0 d)
    (\<lambda>e. stored cdc stream consumer s torn)" (is "hoare ?P _ ?Q ?R")
proof (rule hoare_and_then_reads)
  fix c
  show "hoare (\<lambda>d. ?P d \<and> c = cf_checkpoint d) (case c of
          Some bs \<Rightarrow>
            and_then (map_error Io syscall) (\<lambda>_.
            case dec_state cdc bs of Inl m \<Rightarrow> throw (State m) | Inr s \<Rightarrow> return_op s)
        | None \<Rightarrow> return_op (new_consumer_state stream consumer)) ?Q ?R"
  proof (cases c)
    case None
    then show ?thesis by (auto intro!: hoare_weaken_pre [OF hoare_return] simp: checkpoint_is_def)
  next
    case (Some bs)
    have ex: "\<exists>s0. bs = enc_state cdc s0 @ [10]" if "?P d" "Some bs = cf_checkpoint d" for d
    proof -
      from that(1) obtain s0 where "checkpoint_is cdc stream consumer s0 d" by (auto simp: stored_def)
      with that(2) [symmetric] show ?thesis by (auto simp: checkpoint_is_def)
    qed
    have "hoare (\<lambda>d. ?P d \<and> Some bs = cf_checkpoint d)
        (case dec_state cdc bs of Inl m \<Rightarrow> throw (State m) | Inr s \<Rightarrow> return_op s) ?Q ?R"
    proof (cases "\<exists>d. ?P d \<and> Some bs = cf_checkpoint d")
      case True
      with ex obtain s0 where s0: "bs = enc_state cdc s0 @ [10]" by blast
      with assms have dec: "dec_state cdc bs = Inr s0" by (simp add: codec_ok_def)
      have "checkpoint_is cdc stream consumer s0 d" if "Some bs = cf_checkpoint d" for d
        using that [symmetric] s0 by (simp add: checkpoint_is_def)
      with dec show ?thesis by (auto intro: hoare_weaken_pre [OF hoare_return])
    qed (auto simp: hoare_def)
    then show ?thesis
      using Some by (auto intro!: hoare_and_then_syscall simp: script_free_def)
  qed
qed

lemma hoare_load:
  assumes "codec_ok cdc"
  shows "hoare (stored cdc stream consumer s torn)
    (load_consumer_state cdc stream consumer)
    (\<lambda>x d. x = s \<and> stored_clean cdc stream consumer s d)
    (\<lambda>e d. stored cdc stream consumer s torn d \<or> stored_clean cdc stream consumer s d)"
proof -
  have tail: "hoare (\<lambda>d. x = s \<and> stored_clean cdc stream consumer s d)
      (and_then (lift_res (validate_state x)) (\<lambda>_. return_op x))
      (\<lambda>x d. x = s \<and> stored_clean cdc stream consumer s d) R" for x R
    by (auto simp: hoare_def lift_res_bind return_op_def cs_wf_validate [OF stored_wf])
  show ?thesis
    unfolding load_consumer_state_def
    by (rule hoare_and_then [OF hoare_strengthen_post [OF hoare_read_checkpoint [OF assms]]],
        assumption, blast, rule hoare_and_then [OF hoare_replay [OF assms]], rule tail)
qed

section \<open>Persisting an event is atomic\<close>

text \<open>
  Compaction first publishes the checkpoint and then empties the journal. In between the old
  events stand behind a checkpoint that already contains them; replaying them again changes
  nothing (\<open>apply_events_idem\<close>), so the files store the same state throughout.
\<close>

lemma stored_journal:
  assumes "stored_clean cdc stream consumer s d"
  shows "\<exists>s0 es. cs_wf s0 \<and> cs_stream s0 = stream \<and> cs_consumer s0 = consumer \<and>
    list_all event_bounded es \<and> apply_events es s0 = Inr s \<and>
    (case cf_journal d of None \<Rightarrow> es = [] | Some bs \<Rightarrow> bs = journal_text cdc es)"
  using assms unfolding stored_def by (cases "cf_journal d") auto

lemma stored_checkpoint:
  assumes "stored_clean cdc stream consumer s d"
  shows "stored_clean cdc stream consumer s (d\<lparr>cf_checkpoint := Some (enc_state cdc s @ [10])\<rparr>)"
proof -
  from assms obtain s0 es where *: "cs_wf s0" "cs_stream s0 = stream" "cs_consumer s0 = consumer"
    "list_all event_bounded es" "apply_events es s0 = Inr s"
    "case cf_journal d of None \<Rightarrow> es = [] | Some bs \<Rightarrow> bs = journal_text cdc es"
    using stored_journal [OF assms] by blast
  have "apply_events es s = Inr s" by (rule apply_events_idem [OF *(1,4,5)])
  with * apply_events_wf [OF *(1,4,5)] show ?thesis
    unfolding stored_def
    by (intro exI [of _ s] exI [of _ es], cases "cf_journal d")
      (simp_all add: checkpoint_is_def journal_bytes_of_def)
qed

abbreviation checkpointed where
  "checkpointed cdc stream consumer s d \<equiv>
     stored_clean cdc stream consumer s d \<and> cf_checkpoint d = Some (enc_state cdc s @ [10])"

lemma checkpointed_empty:
  assumes "checkpointed cdc stream consumer s d"
  shows "checkpointed cdc stream consumer s (d\<lparr>cf_journal := Some []\<rparr>)"
proof -
  have s: "cs_wf s" "cs_stream s = stream" "cs_consumer s = consumer"
    using assms stored_wf stored_names by blast+
  have "stored_clean cdc stream consumer s (d\<lparr>cf_journal := Some []\<rparr>)"
    by (rule storedI [OF s, of "[]"]) (use assms in \<open>simp_all add: checkpoint_is_def\<close>)
  with assms show ?thesis by simp
qed

lemma hoare_persist_consumer_state:
  assumes "\<And>e d. stored_clean cdc stream consumer s d \<Longrightarrow> R e d"
  shows "hoare (stored_clean cdc stream consumer s) (persist_consumer_state cdc s)
    (\<lambda>_. checkpointed cdc stream consumer s) R"
  unfolding persist_consumer_state_def
  by (intro hoare_and_then_syscall hoare_modify)
    (simp_all add: script_free_def assms stored_checkpoint)

lemma hoare_compaction:
  assumes "\<And>e d. stored_clean cdc stream consumer s d \<Longrightarrow> R e d"
  shows "hoare (stored_clean cdc stream consumer s) (journal_compaction cdc stream consumer s b)
    (\<lambda>_ d. stored_clean cdc stream consumer s d \<and> journal_bytes_of d = []) R"
proof (rule hoareI)
  fix d x d1
  assume pre: "stored_clean cdc stream consumer s d"
  let ?Q = "\<lambda>d. stored_clean cdc stream consumer s d \<and> journal_bytes_of d = []"
  have tr: "hoare (checkpointed cdc stream consumer s) (truncate_consumer_state_journal 0) (\<lambda>_. ?Q) (\<lambda>_. stored_clean cdc stream consumer s)"
    by (rule hoare_truncate) (auto simp: script_free_def journal_bytes_of_def checkpointed_empty)
  have names: "s\<lparr>cs_stream := stream, cs_consumer := consumer\<rparr> = s"
    using stored_names [OF pre] by auto
  have *: "hoare (stored_clean cdc stream consumer s) (journal_compaction cdc stream consumer s b) (\<lambda>_. ?Q) (\<lambda>_. stored_clean cdc stream consumer s)"
    unfolding journal_compaction_def names
    by (rule hoare_and_then [OF hoare_map_error [OF hoare_persist_consumer_state]])
      (auto intro: hoare_map_error tr)
  show "?Q d1" if "journal_compaction cdc stream consumer s b d = (Inr x, d1)"
    by (rule hoareD_ok [OF * pre that])
  show "R e d1" if "journal_compaction cdc stream consumer s b d = (Inl e, d1)" for e
    by (rule assms [OF hoareD_err [OF * pre that]])
qed

lemma stored_open:
  assumes "stored cdc stream consumer s torn d"
  shows "stored cdc stream consumer s torn (d\<lparr>cf_journal := Some (journal_bytes_of d)\<rparr>)"
proof (cases "cf_journal d")
  case None
  from stored_absent [OF assms None] stored_wf [OF assms] stored_names [OF assms] show ?thesis
    by (intro storedI [of s stream consumer "[]"]) (simp_all add: journal_bytes_of_def None)
next
  case (Some bs)
  then have "d\<lparr>cf_journal := Some (journal_bytes_of d)\<rparr> = d" by (simp add: journal_bytes_of_def)
  with assms show ?thesis by simp
qed

lemma stored_append:
  assumes "stored_clean cdc stream consumer s d" "cf_journal d = Some bs"
    "event_bounded e" "apply_event e s = Inr t"
  shows "stored_clean cdc stream consumer t (d\<lparr>cf_journal := Some (bs @ journal_line cdc e)\<rparr>)"
    "stored cdc stream consumer s (take (min n (length (enc_event cdc e))) (journal_line cdc e))
       (d\<lparr>cf_journal := Some (bs @ take (min n (length (enc_event cdc e))) (journal_line cdc e))\<rparr>)"
proof -
  from assms(1,2) obtain s0 es where *: "cs_wf s0" "cs_stream s0 = stream" "cs_consumer s0 = consumer"
    "list_all event_bounded es" "apply_events es s0 = Inr s" "checkpoint_is cdc stream consumer s0 d"
    "bs = journal_text cdc es @ []" "torn_tail cdc []"
    by (rule stored_SomeE)
  show "stored_clean cdc stream consumer t (d\<lparr>cf_journal := Some (bs @ journal_line cdc e)\<rparr>)"
    using * assms(3,4) by (intro storedI [of s0 _ _ "es @ [e]"]) (simp_all add: apply_events_append)
  show "stored cdc stream consumer s (take (min n (length (enc_event cdc e))) (journal_line cdc e))
       (d\<lparr>cf_journal := Some (bs @ take (min n (length (enc_event cdc e))) (journal_line cdc e))\<rparr>)"
    using * by (intro storedI [of s0 _ _ es] torn_tail_take) simp_all
qed

text \<open>
  The states in which a failed persist may leave the files: a failure reported as retryable
  left the old state; any other left the old state, perhaps with a torn tail, or the new one.
\<close>

definition persist_left :: "codec \<Rightarrow> string \<Rightarrow> string \<Rightarrow> consumer_state \<Rightarrow> consumer_state \<Rightarrow>
    broker_error \<Rightarrow> consumer_store \<Rightarrow> bool" where
  "persist_left cdc stream consumer s t e d \<longleftrightarrow>
     stored_clean cdc stream consumer s d \<or>
     error_outcome e \<noteq> OutcomeRetryable \<and>
       ((\<exists>torn. stored cdc stream consumer s torn d) \<or> stored_clean cdc stream consumer t d)"

lemma append_failure_not_retryable:
  "stage \<noteq> BeforeAppend \<Longrightarrow> error_outcome (map_io_failure stage b e) \<noteq> OutcomeRetryable"
  by (cases stage) (auto simp: map_io_failure_def persist_failure_def error_outcome_def)

lemma hoare_append:
  assumes "event_bounded e" "apply_event e s = Inr t"
  shows "hoare (\<lambda>d. stored_clean cdc stream consumer s d \<and> cf_journal d \<noteq> None)
    (map_error (map_io_failure Append b) (append_journal (enc_event cdc e @ [10])))
    (\<lambda>_. stored_clean cdc stream consumer t) (persist_left cdc stream consumer s t)"
proof (rule hoare_map_error, rule hoareI)
  fix d x d1
  assume pre: "stored_clean cdc stream consumer s d \<and> cf_journal d \<noteq> None"
  obtain f d0 where nf: "next_fault d = (f, d0)" by fastforce
  have "script_free (\<lambda>d. stored_clean cdc stream consumer s d \<and> cf_journal d \<noteq> None)"
    by (simp add: script_free_def)
  from next_fault_frame [OF this pre nf] obtain bs where
    d0: "stored_clean cdc stream consumer s d0" "cf_journal d0 = Some bs" by auto
  note post = stored_append [OF d0 assms]
  show "stored_clean cdc stream consumer t d1" if "append_journal (enc_event cdc e @ [10]) d = (Inr x, d1)"
    using that nf d0(2) post(1)
    by (auto simp: append_journal_def journal_bytes_of_def journal_line_def split: io_fault.splits)
  show "persist_left cdc stream consumer s t (map_io_failure Append b err) d1"
    if "append_journal (enc_event cdc e @ [10]) d = (Inl err, d1)" for err
    using that nf d0 post(2) append_failure_not_retryable [of Append b err]
    by (auto simp: append_journal_def journal_bytes_of_def journal_line_def persist_left_def split: io_fault.splits)
qed

lemma hoare_persist:
  assumes "event_bounded e" "apply_event e s = Inr t"
  shows "hoare (stored_clean cdc stream consumer s) (persist_consumer_event cdc stream consumer s e)
    (\<lambda>_. stored_clean cdc stream consumer t) (persist_left cdc stream consumer s t)"
proof -
  let ?P = "stored_clean cdc stream consumer s" and ?b = "is_batch_event e"
  let ?R = "persist_left cdc stream consumer s t"
  have old: "?P d \<Longrightarrow> ?R err d" for err d by (simp add: persist_left_def)
  have sync: "hoare (stored_clean cdc stream consumer t) (map_error (map_io_failure Sync ?b) syscall)
      (\<lambda>_. stored_clean cdc stream consumer t) ?R"
    by (rule hoare_syscall) (auto simp: script_free_def persist_left_def append_failure_not_retryable)
  have frame: "script_free ?P" by (auto simp: script_free_def)
  have compact: "hoare (\<lambda>d. ?P d \<and> n = length (journal_bytes_of d))
      (if saturating_add64 n (length (enc_event cdc e @ [10])) > MAX_CONSUMER_STATE_JOURNAL_BYTES
       then journal_compaction cdc stream consumer s ?b else return_op ()) (\<lambda>_. ?P) ?R" for n
    by (auto intro: hoare_weaken_pre [OF hoare_return]
        hoare_weaken_pre [OF hoare_strengthen_post [OF hoare_compaction [OF old]]])
  have opened: "?P d \<Longrightarrow> ?P (d\<lparr>cf_journal := Some (journal_bytes_of d)\<rparr>) \<and>
      cf_journal (d\<lparr>cf_journal := Some (journal_bytes_of d)\<rparr>) \<noteq> None" for d
    using stored_open [of cdc stream consumer s "[]" d] by simp
  show ?thesis
    unfolding persist_consumer_event_def Let_def
    by (rule hoare_and_then_syscall [OF frame], simp add: old, rule hoare_and_then_reads,
        rule hoare_and_then [OF compact],
        rule hoare_and_then_syscall [OF frame], simp add: old,
        rule hoare_and_then_syscall [OF frame], simp add: old,
        rule hoare_and_then_modify, erule opened,
        rule hoare_and_then [OF hoare_append [OF assms]], rule sync)
qed

section \<open>The journal stays within its bound\<close>

text \<open>A journal above the bound is refused by the next load; events that fit keep it below.\<close>

definition journal_within :: "consumer_store \<Rightarrow> bool" where
  "journal_within d \<longleftrightarrow> length (journal_bytes_of d) \<le> MAX_CONSUMER_STATE_JOURNAL_BYTES"

lemma script_free_room: "script_free (\<lambda>d. length (journal_bytes_of d) + k \<le> MAX_CONSUMER_STATE_JOURNAL_BYTES)"
  by (simp add: script_free_def)

lemma hoare_append_within:
  "hoare (\<lambda>d. length (journal_bytes_of d) + length bs \<le> MAX_CONSUMER_STATE_JOURNAL_BYTES)
     (append_journal bs) (\<lambda>_. journal_within) (\<lambda>_. journal_within)"
proof (rule hoareI)
  fix d x d1
  assume pre: "length (journal_bytes_of d) + length bs \<le> MAX_CONSUMER_STATE_JOURNAL_BYTES"
  obtain f d0 where nf: "next_fault d = (f, d0)" by fastforce
  from next_fault_frame [OF script_free_room pre nf]
  have d0: "length (journal_bytes_of d0) + length bs \<le> MAX_CONSUMER_STATE_JOURNAL_BYTES" .
  then have "length (journal_bytes_of d0) + min n (length bs - 1) \<le> MAX_CONSUMER_STATE_JOURNAL_BYTES" for n
    by linarith
  note small = d0 this
  show "journal_within d1" if "append_journal bs d = (Inr x, d1)"
    using that nf small by (auto simp: append_journal_def journal_bytes_of_def journal_within_def split: io_fault.splits option.splits)
  show "journal_within d1" if "append_journal bs d = (Inl e, d1)" for e
    using that nf small by (auto simp: append_journal_def journal_bytes_of_def journal_within_def split: io_fault.splits option.splits)
qed

lemma hoare_compaction_within:
  "hoare journal_within (journal_compaction cdc stream consumer s b) (\<lambda>_ d. journal_bytes_of d = []) (\<lambda>_. journal_within)"
proof -
  have frame: "script_free journal_within" by (simp add: script_free_def journal_within_def)
  have state: "hoare journal_within (persist_consumer_state cdc s') (\<lambda>_. journal_within) (\<lambda>_. journal_within)" for s'
    unfolding persist_consumer_state_def
    by (intro hoare_and_then_syscall hoare_modify frame) (simp_all add: journal_within_def journal_bytes_of_def)
  have tr: "hoare journal_within (truncate_consumer_state_journal 0) (\<lambda>_ d. journal_bytes_of d = []) (\<lambda>_. journal_within)"
    by (rule hoare_truncate) (auto simp: script_free_def journal_bytes_of_def journal_within_def)
  show ?thesis
    unfolding journal_compaction_def
    by (rule hoare_and_then [OF hoare_map_error [OF state]], rule hoare_map_error, rule tr)
qed

lemma hoare_persist_within:
  assumes fits: "length (enc_event cdc e) < MAX_CONSUMER_STATE_JOURNAL_BYTES"
  shows "keeps journal_within (persist_consumer_event cdc stream consumer s e)"
proof -
  let ?room = "\<lambda>d. length (journal_bytes_of d) + length (enc_event cdc e @ [10]) \<le> MAX_CONSUMER_STATE_JOURNAL_BYTES"
  have frame: "script_free journal_within" "script_free ?room" by (auto simp: script_free_def journal_within_def)
  have weak: "?room d \<Longrightarrow> journal_within d" for d by (simp add: journal_within_def)
  have room_if_small: "?room d"
    if "\<not> MAX_CONSUMER_STATE_JOURNAL_BYTES < saturating_add64 (length (journal_bytes_of d)) (length (enc_event cdc e @ [10]))" for d
    using that by (auto simp: saturating_add64_def MAX_CONSUMER_STATE_JOURNAL_BYTES_def min_def split: if_splits)
  have compact: "hoare (\<lambda>d. journal_within d \<and> n = length (journal_bytes_of d))
      (if saturating_add64 n (length (enc_event cdc e @ [10])) > MAX_CONSUMER_STATE_JOURNAL_BYTES
       then journal_compaction cdc stream consumer s (is_batch_event e) else return_op ()) (\<lambda>_. ?room) (\<lambda>_. journal_within)" for n
    using room_if_small fits
    by (auto intro: hoare_weaken_pre [OF hoare_return]
        hoare_weaken_pre [OF hoare_strengthen_post [OF hoare_compaction_within]])
  show ?thesis
    unfolding persist_consumer_event_def Let_def
    by (rule hoare_and_then_syscall [OF frame(1)], assumption, rule hoare_and_then_reads,
        rule hoare_and_then [OF compact],
        rule hoare_and_then_syscall [OF frame(2)], erule weak,
        rule hoare_and_then_syscall [OF frame(2)], erule weak,
        rule hoare_and_then_modify [where Q = ?room], simp add: journal_bytes_of_def split: option.splits,
        rule hoare_and_then [OF hoare_map_error [OF hoare_append_within]],
        rule hoare_syscall [OF frame(1)], assumption)
qed

end
