(* ===== verification/Sample_Codec.thy ===== *)
theory Sample_Codec
  imports Consumer_Files
begin

text \<open>
  A concrete codec that satisfies \<open>codec_ok\<close>, so that the theorems that take the JSON library as
  a parameter can be run. A value is a list of numbers, each written in unary and closed by a
  comma, the whole between braces; every decoder consumes exactly what its encoder wrote.
\<close>

section \<open>Prefix codes\<close>

named_theorems codes \<open>pairs of an encoder and the decoder that consumes exactly its output\<close>

definition prefix_code :: "('a \<Rightarrow> nat list) \<Rightarrow> (nat list \<Rightarrow> ('a \<times> nat list) option) \<Rightarrow> bool" where
  "prefix_code enc dec \<longleftrightarrow> (\<forall>x r. dec (enc x @ r) = Some (x, r))"

lemma prefix_codeD: "prefix_code enc dec \<Longrightarrow> dec (enc x @ r) = Some (x, r)"
  by (simp add: prefix_code_def)

definition enc_nat :: "nat \<Rightarrow> nat list" where
  "enc_nat n = [n]"

definition dec_nat :: "nat list \<Rightarrow> (nat \<times> nat list) option" where
  "dec_nat ns = (case ns of [] \<Rightarrow> None | n # r \<Rightarrow> Some (n, r))"

definition enc_map :: "('b \<Rightarrow> 'a) \<Rightarrow> ('a \<Rightarrow> nat list) \<Rightarrow> 'b \<Rightarrow> nat list" where
  "enc_map g enc x = enc (g x)"

definition dec_map :: "('a \<Rightarrow> 'b) \<Rightarrow> (nat list \<Rightarrow> ('a \<times> nat list) option) \<Rightarrow> nat list \<Rightarrow> ('b \<times> nat list) option" where
  "dec_map f dec ns = (case dec ns of None \<Rightarrow> None | Some (x, r) \<Rightarrow> Some (f x, r))"

definition enc_pair :: "('a \<Rightarrow> nat list) \<Rightarrow> ('b \<Rightarrow> nat list) \<Rightarrow> 'a \<times> 'b \<Rightarrow> nat list" where
  "enc_pair enca encb p = enca (fst p) @ encb (snd p)"

definition dec_pair ::
  "(nat list \<Rightarrow> ('a \<times> nat list) option) \<Rightarrow> (nat list \<Rightarrow> ('b \<times> nat list) option) \<Rightarrow> nat list \<Rightarrow>
   (('a \<times> 'b) \<times> nat list) option" where
  "dec_pair deca decb ns =
     (case deca ns of None \<Rightarrow> None
      | Some (x, r) \<Rightarrow> (case decb r of None \<Rightarrow> None | Some (y, r1) \<Rightarrow> Some ((x, y), r1)))"

definition enc_option :: "('a \<Rightarrow> nat list) \<Rightarrow> 'a option \<Rightarrow> nat list" where
  "enc_option enc x = (case x of None \<Rightarrow> [0] | Some y \<Rightarrow> 1 # enc y)"

definition dec_option ::
  "(nat list \<Rightarrow> ('a \<times> nat list) option) \<Rightarrow> nat list \<Rightarrow> ('a option \<times> nat list) option" where
  "dec_option dec ns =
     (case ns of [] \<Rightarrow> None
      | n # r \<Rightarrow> if n = 0 then Some (None, r)
                 else case dec r of None \<Rightarrow> None | Some (x, r1) \<Rightarrow> Some (Some x, r1))"

primrec enc_list :: "('a \<Rightarrow> nat list) \<Rightarrow> 'a list \<Rightarrow> nat list" where
  "enc_list enc [] = []"
| "enc_list enc (x # xs) = enc x @ enc_list enc xs"

primrec dec_times ::
  "nat \<Rightarrow> (nat list \<Rightarrow> ('a \<times> nat list) option) \<Rightarrow> nat list \<Rightarrow> ('a list \<times> nat list) option" where
  "dec_times 0 dec ns = Some ([], ns)"
| "dec_times (Suc n) dec ns =
     (case dec ns of None \<Rightarrow> None
      | Some (x, r) \<Rightarrow> (case dec_times n dec r of None \<Rightarrow> None | Some (xs, r1) \<Rightarrow> Some (x # xs, r1)))"

definition enc_seq :: "('a \<Rightarrow> nat list) \<Rightarrow> 'a list \<Rightarrow> nat list" where
  "enc_seq enc xs = length xs # enc_list enc xs"

definition dec_seq ::
  "(nat list \<Rightarrow> ('a \<times> nat list) option) \<Rightarrow> nat list \<Rightarrow> ('a list \<times> nat list) option" where
  "dec_seq dec ns = (case ns of [] \<Rightarrow> None | n # r \<Rightarrow> dec_times n dec r)"

lemma code_nat [codes]: "prefix_code enc_nat dec_nat"
  by (simp add: prefix_code_def enc_nat_def dec_nat_def)

lemma code_map:
  "prefix_code enc dec \<Longrightarrow> (\<And>x. f (g x) = x) \<Longrightarrow> prefix_code (enc_map g enc) (dec_map f dec)"
  by (simp add: prefix_code_def enc_map_def dec_map_def)

lemma code_pair [codes]:
  "prefix_code enca deca \<Longrightarrow> prefix_code encb decb \<Longrightarrow> prefix_code (enc_pair enca encb) (dec_pair deca decb)"
  by (simp add: prefix_code_def enc_pair_def dec_pair_def)

lemma code_option [codes]: "prefix_code enc dec \<Longrightarrow> prefix_code (enc_option enc) (dec_option dec)"
  by (simp add: prefix_code_def enc_option_def dec_option_def split: option.split)

lemma dec_times_list:
  "prefix_code enc dec \<Longrightarrow> dec_times (length xs) dec (enc_list enc xs @ r) = Some (xs, r)"
  by (induction xs) (simp_all add: prefix_codeD)

lemma code_seq [codes]: "prefix_code enc dec \<Longrightarrow> prefix_code (enc_seq enc) (dec_seq dec)"
  unfolding prefix_code_def [of "enc_seq enc"] by (simp add: enc_seq_def dec_seq_def dec_times_list)

section \<open>Strings, sets, maps and records\<close>

definition enc_str :: "string \<Rightarrow> nat list" where
  "enc_str = enc_map (map of_char) (enc_seq enc_nat)"

definition dec_str :: "nat list \<Rightarrow> (string \<times> nat list) option" where
  "dec_str = dec_map (map char_of) (dec_seq dec_nat)"

definition enc_bool :: "bool \<Rightarrow> nat list" where
  "enc_bool = enc_map (\<lambda>b. if b then 1 else 0) enc_nat"

definition dec_bool :: "nat list \<Rightarrow> (bool \<times> nat list) option" where
  "dec_bool = dec_map (\<lambda>n. n = 1) dec_nat"

definition enc_fset :: "nat fset \<Rightarrow> nat list" where
  "enc_fset = enc_map sorted_list_of_fset (enc_seq enc_nat)"

definition dec_fset :: "nat list \<Rightarrow> (nat fset \<times> nat list) option" where
  "dec_fset = dec_map fset_of_list (dec_seq dec_nat)"

definition enc_fmap :: "('a \<Rightarrow> nat list) \<Rightarrow> (nat, 'a) fmap \<Rightarrow> nat list" where
  "enc_fmap enc = enc_map sorted_list_of_fmap (enc_seq (enc_pair enc_nat enc))"

definition dec_fmap ::
  "(nat list \<Rightarrow> ('a \<times> nat list) option) \<Rightarrow> nat list \<Rightarrow> ((nat, 'a) fmap \<times> nat list) option" where
  "dec_fmap dec = dec_map fmap_of_list (dec_seq (dec_pair dec_nat dec))"

definition enc_policy :: "consumer_policy \<Rightarrow> nat list" where
  "enc_policy = enc_map (\<lambda>p. (cp_version p, cp_configured p, cp_ack_timeout_ms p, cp_max_delivery_attempts p, cp_retry_delay_ms p))
     (enc_pair enc_nat (enc_pair enc_bool (enc_pair enc_nat (enc_pair (enc_option enc_nat) enc_nat))))"

definition dec_policy :: "nat list \<Rightarrow> (consumer_policy \<times> nat list) option" where
  "dec_policy = dec_map (\<lambda>(v, c, t, m, r). \<lparr>cp_version = v, cp_configured = c, cp_ack_timeout_ms = t,
       cp_max_delivery_attempts = m, cp_retry_delay_ms = r\<rparr>)
     (dec_pair dec_nat (dec_pair dec_bool (dec_pair dec_nat (dec_pair (dec_option dec_nat) dec_nat))))"

definition enc_schedule :: "retry_schedule \<Rightarrow> nat list" where
  "enc_schedule = enc_map (\<lambda>r. (rs_not_before_ms r, rs_key r)) (enc_pair enc_nat (enc_option enc_str))"

definition dec_schedule :: "nat list \<Rightarrow> (retry_schedule \<times> nat list) option" where
  "dec_schedule = dec_map (\<lambda>(n, k). \<lparr>rs_not_before_ms = n, rs_key = k\<rparr>) (dec_pair dec_nat (dec_option dec_str))"

definition enc_attempt :: "delivery_attempt \<Rightarrow> nat list" where
  "enc_attempt = enc_map (\<lambda>a. (da_offset a, da_attempt a, da_policy a)) (enc_pair enc_nat (enc_pair enc_nat enc_policy))"

definition dec_attempt :: "nat list \<Rightarrow> (delivery_attempt \<times> nat list) option" where
  "dec_attempt = dec_map (\<lambda>(n, m, p). \<lparr>da_offset = n, da_attempt = m, da_policy = p\<rparr>)
     (dec_pair dec_nat (dec_pair dec_nat dec_policy))"

definition enc_retry :: "retry_schedule_event \<Rightarrow> nat list" where
  "enc_retry = enc_map (\<lambda>r. (rse_offset r, rse_not_before_ms r, rse_key r))
     (enc_pair enc_nat (enc_pair enc_nat (enc_option enc_str)))"

definition dec_retry :: "nat list \<Rightarrow> (retry_schedule_event \<times> nat list) option" where
  "dec_retry = dec_map (\<lambda>(n, m, k). \<lparr>rse_offset = n, rse_not_before_ms = m, rse_key = k\<rparr>)
     (dec_pair dec_nat (dec_pair dec_nat (dec_option dec_str)))"

fun sample_enc_event :: "consumer_state_event \<Rightarrow> nat list" where
  "sample_enc_event (DeliveryAttempt a) = 0 # enc_attempt a"
| "sample_enc_event (DeliveryAttempts as) = 1 # enc_seq enc_attempt as"
| "sample_enc_event (RetrySchedules rs) = 2 # enc_seq enc_retry rs"
| "sample_enc_event (Acknowledge off) = 3 # enc_nat off"
| "sample_enc_event (AcknowledgeBatch offs) = 4 # enc_seq enc_nat offs"
| "sample_enc_event (PolicyConfigured p) = 5 # enc_policy p"

fun sample_dec_event :: "nat list \<Rightarrow> (consumer_state_event \<times> nat list) option" where
  "sample_dec_event [] = None"
| "sample_dec_event (n # r) =
     (if n = 0 then dec_map DeliveryAttempt dec_attempt r
      else if n = 1 then dec_map DeliveryAttempts (dec_seq dec_attempt) r
      else if n = 2 then dec_map RetrySchedules (dec_seq dec_retry) r
      else if n = 3 then dec_map Acknowledge dec_nat r
      else if n = 4 then dec_map AcknowledgeBatch (dec_seq dec_nat) r
      else dec_map PolicyConfigured dec_policy r)"

definition sample_enc_state :: "consumer_state \<Rightarrow> nat list" where
  "sample_enc_state = enc_map (\<lambda>s. (cs_stream s, cs_consumer s, committed_offset s, acknowledged_offsets s,
       delivery_attempts s, cs_policy s, delivery_policies s, retry_not_before s))
     (enc_pair enc_str (enc_pair enc_str (enc_pair enc_nat (enc_pair enc_fset
       (enc_pair (enc_fmap enc_nat) (enc_pair (enc_option enc_policy)
         (enc_pair (enc_fmap enc_policy) (enc_fmap enc_schedule))))))))"

definition sample_dec_state :: "nat list \<Rightarrow> (consumer_state \<times> nat list) option" where
  "sample_dec_state = dec_map (\<lambda>(st, co, c, a, da, p, dp, rn). \<lparr>cs_stream = st, cs_consumer = co,
       committed_offset = c, acknowledged_offsets = a, delivery_attempts = da, cs_policy = p,
       delivery_policies = dp, retry_not_before = rn\<rparr>)
     (dec_pair dec_str (dec_pair dec_str (dec_pair dec_nat (dec_pair dec_fset
       (dec_pair (dec_fmap dec_nat) (dec_pair (dec_option dec_policy)
         (dec_pair (dec_fmap dec_policy) (dec_fmap dec_schedule))))))))"

lemma code_string [codes]: "prefix_code enc_str dec_str"
  unfolding enc_str_def dec_str_def
  by (intro code_map codes) (simp add: comp_def)

lemma code_bool [codes]: "prefix_code enc_bool dec_bool"
  unfolding enc_bool_def dec_bool_def by (intro code_map codes) simp

lemma code_fset [codes]: "prefix_code enc_fset dec_fset"
  unfolding enc_fset_def dec_fset_def by (intro code_map codes) (simp add: fset_of_list.abs_eq fset_inverse)

lemma code_fmap [codes]: "prefix_code enc dec \<Longrightarrow> prefix_code (enc_fmap enc) (dec_fmap dec)"
  unfolding enc_fmap_def dec_fmap_def
  by (intro code_map codes) (auto intro: fmap_ext simp: fmlookup_of_list map_of_sorted_list)

lemma code_policy [codes]: "prefix_code enc_policy dec_policy"
  unfolding enc_policy_def dec_policy_def by (intro code_map codes) simp

lemma code_schedule [codes]: "prefix_code enc_schedule dec_schedule"
  unfolding enc_schedule_def dec_schedule_def by (intro code_map codes) simp

lemma code_attempt [codes]: "prefix_code enc_attempt dec_attempt"
  unfolding enc_attempt_def dec_attempt_def by (intro code_map codes) simp

lemma code_retry [codes]: "prefix_code enc_retry dec_retry"
  unfolding enc_retry_def dec_retry_def by (intro code_map codes) simp

lemma code_event: "prefix_code sample_enc_event sample_dec_event"
  unfolding prefix_code_def
proof (intro allI)
  fix e r
  show "sample_dec_event (sample_enc_event e @ r) = Some (e, r)"
    by (cases e) (simp_all add: dec_map_def prefix_codeD [OF code_attempt] prefix_codeD [OF code_policy]
        prefix_codeD [OF code_nat] prefix_codeD [OF code_seq [OF code_attempt]]
        prefix_codeD [OF code_seq [OF code_retry]] prefix_codeD [OF code_seq [OF code_nat]])
qed

lemma code_state: "prefix_code sample_enc_state sample_dec_state"
  unfolding sample_enc_state_def sample_dec_state_def by (intro code_map codes) simp

section \<open>Bytes\<close>

primrec unary :: "nat list \<Rightarrow> bytes" where
  "unary [] = []"
| "unary (n # ns) = replicate n 48 @ 44 # unary ns"

primrec of_unary :: "nat \<Rightarrow> bytes \<Rightarrow> nat list" where
  "of_unary k [] = []"
| "of_unary k (b # bs) = (if b = 44 then k # of_unary 0 bs else of_unary (Suc k) bs)"

definition braces :: "nat list \<Rightarrow> bytes" where
  "braces ns = 123 # unary ns @ [125]"

definition of_braces :: "(nat list \<Rightarrow> ('a \<times> nat list) option) \<Rightarrow> bytes \<Rightarrow> string + 'a" where
  "of_braces dec bs =
     (case dec (of_unary 0 (tl (butlast bs))) of
        Some (x, _) \<Rightarrow> Inr x | None \<Rightarrow> Inl ''invalid value'')"

definition sample_codec :: codec where
  "sample_codec =
     \<lparr>enc_event = (\<lambda>e. braces (sample_enc_event e)), dec_event = of_braces sample_dec_event,
      json_value = (\<lambda>bs. bs \<noteq> [] \<and> last bs = 125),
      enc_state = (\<lambda>s. braces (sample_enc_state s)),
      dec_state = (\<lambda>bs. of_braces sample_dec_state (butlast bs))\<rparr>"

lemma of_unary_replicate: "of_unary k (replicate n 48 @ 44 # bs) = (k + n) # of_unary 0 bs"
  by (induction n arbitrary: k) simp_all

lemma of_unary_unary [simp]: "of_unary 0 (unary ns) = ns"
  by (induction ns) (simp_all add: of_unary_replicate)

lemma of_braces_braces:
  assumes "prefix_code enc dec"
  shows "of_braces dec (braces (enc x)) = Inr x"
  using prefix_codeD [OF assms, of x "[]"] by (simp add: of_braces_def braces_def butlast_append)

lemma set_unary: "set (unary ns) \<subseteq> {48, 44}"
  by (induction ns) auto

lemma braces_no_newline: "10 \<notin> set (braces ns)"
  using set_unary [of ns] by (auto simp: braces_def)

lemma braces_prefix:
  assumes "n < length (braces ns)"
  shows "\<not> json_value sample_codec (take n (braces ns))"
proof -
  have "set (take n (braces ns)) \<subseteq> {123, 48, 44}"
    using assms set_unary [of ns] set_take_subset [of "n - 1" "unary ns"]
    by (cases n) (auto simp: braces_def)
  then have "last (take n (braces ns)) \<noteq> 125" if "take n (braces ns) \<noteq> []"
    using last_in_set [OF that] by auto
  then show ?thesis by (auto simp: sample_codec_def)
qed

lemma sample_codec_sel [simp]:
  "enc_event sample_codec e = braces (sample_enc_event e)"
  "dec_event sample_codec = of_braces sample_dec_event"
  "enc_state sample_codec s = braces (sample_enc_state s)"
  "dec_state sample_codec (bs @ [10]) = of_braces sample_dec_state bs"
  by (simp_all add: sample_codec_def)

lemma sample_codec_ok: "codec_ok sample_codec"
  unfolding codec_ok_def sample_codec_sel
  by (intro conjI allI impI braces_no_newline braces_prefix)
    (simp_all only: of_braces_braces [OF code_event] of_braces_braces [OF code_state])

end
