(* ===== verification/Consumer_Durability.thy ===== *)
theory Consumer_Durability
  imports Sample_Codec
begin

text \<open>
  What the consumer files guarantee to the broker: whatever system call fails or wherever the
  process stops, a later load finds the old state or the new one, and an operation that reported
  success finds the new one. The file also records the one event size for which this is false.
\<close>

lemma syscall_faultless [simp]: "cf_script d = [] \<Longrightarrow> syscall d = (Inr (), d)"
  by (simp add: syscall_def next_fault_def)

lemma load_faultless:
  assumes "codec_ok cdc" "stored cdc stream consumer s torn d" "cf_script d = []" "journal_within d"
  shows "fst (load_consumer_state cdc stream consumer d) = Inr s"
proof -
  have wf: "validate_state s = Inr ()"
    using assms(2) by (simp add: cs_wf_validate stored_wf)
  have dec: "(case cf_checkpoint d of None \<Rightarrow> Inr (new_consumer_state stream consumer)
      | Some bs \<Rightarrow> dec_state cdc bs) = Inr s0" if "checkpoint_is cdc stream consumer s0 d" for s0
    using that assms(1) by (auto simp: checkpoint_is_def codec_ok_def split: option.splits)
  have load: "load_consumer_state cdc stream consumer d =
      and_then (replay_consumer_state_journal cdc s0) (\<lambda>state1.
        and_then (lift_res (validate_state state1)) (\<lambda>_. return_op state1)) d"
    if "checkpoint_is cdc stream consumer s0 d" for s0
    using dec [OF that] assms(3)
    by (cases "cf_checkpoint d") (simp_all add: load_consumer_state_def op_simps)
  show ?thesis
  proof (cases "cf_journal d")
    case None
    with load [OF stored_absent(1) [OF assms(2) None]] wf show ?thesis
      by (simp add: replay_consumer_state_journal_def op_simps)
  next
    case (Some bs)
    from stored_replay [OF assms(1,2) Some] obtain s0 where s0: "checkpoint_is cdc stream consumer s0 d"
      "replay_lines cdc (split_inclusive bs) s0 0 = Inr (s, length bs - length torn)" by blast
    moreover from assms(4) Some have "length bs \<le> MAX_CONSUMER_STATE_JOURNAL_BYTES"
      by (simp add: journal_within_def journal_bytes_of_def)
    ultimately show ?thesis
      using load [OF s0(1)] Some assms(3) wf
      by (simp add: replay_consumer_state_journal_def truncate_consumer_state_journal_def op_simps)
  qed
qed

text \<open>What the next load finds, once the disk works again.\<close>

definition reloaded :: "codec \<Rightarrow> string \<Rightarrow> string \<Rightarrow> consumer_store \<Rightarrow> broker_error + consumer_state" where
  "reloaded cdc stream consumer d = fst (load_consumer_state cdc stream consumer (d\<lparr>cf_script := []\<rparr>))"

lemma reloaded_stored:
  "codec_ok cdc \<Longrightarrow> stored cdc stream consumer s torn d \<Longrightarrow> journal_within d \<Longrightarrow> reloaded cdc stream consumer d = Inr s"
  unfolding reloaded_def by (rule load_faultless) (auto simp: journal_within_def)

text \<open>C4: For a journal within its bound and an event smaller than that bound, persisting the event is
  atomic under every pattern of I/O failures, torn writes and compaction included: after success the next load returns the new state; after an error reported
  as retryable it returns the old one; after any other error it returns one of the two.\<close>

theorem persist_atomic:
  assumes "codec_ok cdc" "stored_clean cdc stream consumer s d"
    and "event_bounded e" "apply_event e s = Inr t"
    and "journal_within d" "length (enc_event cdc e) < MAX_CONSUMER_STATE_JOURNAL_BYTES"
  shows "case persist_consumer_event cdc stream consumer s e d of
      (Inr _, d1) \<Rightarrow> reloaded cdc stream consumer d1 = Inr t
    | (Inl err, d1) \<Rightarrow>
        if error_outcome err = OutcomeRetryable then reloaded cdc stream consumer d1 = Inr s
        else reloaded cdc stream consumer d1 \<in> {Inr s, Inr t}"
proof -
  have h: "hoare (\<lambda>d. stored_clean cdc stream consumer s d \<and> journal_within d) (persist_consumer_event cdc stream consumer s e)
      (\<lambda>_ d1. reloaded cdc stream consumer d1 = Inr t)
      (\<lambda>err d1. if error_outcome err = OutcomeRetryable then reloaded cdc stream consumer d1 = Inr s
         else reloaded cdc stream consumer d1 \<in> {Inr s, Inr t})"
    using reloaded_stored [OF assms(1)]
    by (intro hoare_strengthen_post [OF hoare_conj [OF hoare_persist [OF assms(3,4)] hoare_persist_within [OF assms(6)]]])
      (auto simp: persist_left_def)
  then show ?thesis using assms(2,5) by (simp add: hoare_def)
qed

definition empty_store :: "io_fault list \<Rightarrow> consumer_store" where
  "empty_store fs = \<lparr>cf_checkpoint = None, cf_journal = None, cf_script = fs\<rparr>"

lemma stored_empty:
  "stored_clean cdc stream consumer (new_consumer_state stream consumer) (empty_store fs)"
  unfolding empty_store_def by (rule stored_new)

theorem persist_atomic_witness:
  "fst (persist_consumer_event sample_codec ''s'' ''c'' (new_consumer_state ''s'' ''c'') (AcknowledgeBatch [1])
      (empty_store [IoFine, IoFine, IoFine, IoPartial 3 (IoError IoOther ''disk'')])) =
    Inl (ConsumerStatePersistence Append ''disk'') \<and>
   (case persist_consumer_event sample_codec ''s'' ''c'' (new_consumer_state ''s'' ''c'') (AcknowledgeBatch [1])
      (empty_store [IoFine, IoFine, IoFine, IoPartial 3 (IoError IoOther ''disk'')]) of
      (Inr _, d1) \<Rightarrow> reloaded sample_codec ''s'' ''c'' d1 = Inr (acknowledge 1 (new_consumer_state ''s'' ''c''))
    | (Inl err, d1) \<Rightarrow>
        if error_outcome err = OutcomeRetryable then reloaded sample_codec ''s'' ''c'' d1 = Inr (new_consumer_state ''s'' ''c'')
        else reloaded sample_codec ''s'' ''c'' d1 \<in> {Inr (new_consumer_state ''s'' ''c''), Inr (acknowledge 1 (new_consumer_state ''s'' ''c''))})"
proof (rule conjI)
  show "case persist_consumer_event sample_codec ''s'' ''c'' (new_consumer_state ''s'' ''c'') (AcknowledgeBatch [1])
      (empty_store [IoFine, IoFine, IoFine, IoPartial 3 (IoError IoOther ''disk'')]) of
      (Inr _, d1) \<Rightarrow> reloaded sample_codec ''s'' ''c'' d1 = Inr (acknowledge 1 (new_consumer_state ''s'' ''c''))
    | (Inl err, d1) \<Rightarrow>
        if error_outcome err = OutcomeRetryable then reloaded sample_codec ''s'' ''c'' d1 = Inr (new_consumer_state ''s'' ''c'')
        else reloaded sample_codec ''s'' ''c'' d1 \<in> {Inr (new_consumer_state ''s'' ''c''), Inr (acknowledge 1 (new_consumer_state ''s'' ''c''))}"
    by (rule persist_atomic [OF sample_codec_ok stored_empty])
      (simp_all add: event_bounded_def MAX_CONSUMER_STATE_JOURNAL_BYTES_def braces_def enc_seq_def enc_nat_def
        journal_within_def journal_bytes_of_def empty_store_def)
qed (simp add: persist_consumer_event_def append_journal_def syscall_def next_fault_def journal_bytes_of_def
    empty_store_def op_simps MAX_CONSUMER_STATE_JOURNAL_BYTES_def saturating_add64_def map_io_failure_def
    persist_failure_def braces_def enc_seq_def enc_nat_def)



text \<open>C38: An event whose line alone exceeds the journal bound is accepted: with no I/O failure at all
  it is appended and reported durable, and every later load of the consumer is refused.\<close>

theorem oversized_event_bricks_consumer:
  assumes "stored_clean cdc stream consumer s d" "cf_journal d = Some bs" "cf_script d = []"
    and "codec_ok cdc" "MAX_CONSUMER_STATE_JOURNAL_BYTES \<le> length (enc_event cdc e)"
  shows "fst (persist_consumer_event cdc stream consumer s e d) = Inr () \<and>
    reloaded cdc stream consumer (snd (persist_consumer_event cdc stream consumer s e d)) =
      Inl (invalid_state_data ''consumer state journal exceeds its configured bound'')"
proof -
  have big: "saturating_add64 n (length (enc_event cdc e @ [10])) > MAX_CONSUMER_STATE_JOURNAL_BYTES" for n
    using assms(5) by (auto simp: saturating_add64_def MAX_CONSUMER_STATE_JOURNAL_BYTES_def)
  have names: "s\<lparr>cs_stream := stream, cs_consumer := consumer\<rparr> = s"
    using stored_names [OF assms(1)] by auto
  have p: "persist_consumer_event cdc stream consumer s e d =
      (Inr (), d\<lparr>cf_checkpoint := Some (enc_state cdc s @ [10]), cf_journal := Some (enc_event cdc e @ [10])\<rparr>)"
    using big [simplified] assms(2,3) names
    by (simp add: persist_consumer_event_def Let_def journal_compaction_def persist_consumer_state_def
        truncate_consumer_state_journal_def append_journal_def next_fault_def journal_bytes_of_def op_simps)
  have dec: "dec_state cdc (enc_state cdc s @ [10]) = Inr s"
    using assms(4) by (simp add: codec_ok_def)
  show ?thesis
    using assms(5) dec
    by (simp add: p reloaded_def load_consumer_state_def replay_consumer_state_journal_def op_simps)
qed

lemma length_unary: "length (unary ns) = sum_list ns + length ns"
  by (induction ns) simp_all

theorem oversized_event_bricks_consumer_witness:
  "fst (persist_consumer_event sample_codec ''s'' ''c'' (new_consumer_state ''s'' ''c'')
      (AcknowledgeBatch [1048576]) ((empty_store [])\<lparr>cf_journal := Some []\<rparr>)) = Inr ()"
proof -
  have "stored_clean sample_codec ''s'' ''c'' (new_consumer_state ''s'' ''c'') ((empty_store [])\<lparr>cf_journal := Some []\<rparr>)"
    using stored_open [OF stored_empty] by (simp add: empty_store_def journal_bytes_of_def)
  from oversized_event_bricks_consumer [OF this, of "[]" "AcknowledgeBatch [1048576]"] show ?thesis
    by (simp add: empty_store_def sample_codec_ok MAX_CONSUMER_STATE_JOURNAL_BYTES_def braces_def
        length_unary enc_seq_def enc_nat_def del: unary.simps)
qed

end
