(* ===== verification/Delivery_State.thy ===== *)
theory Delivery_State
  imports Consumer_Files "HOL-Library.Char_ord" "HOL-Library.List_Lexorder"
begin

text \<open>
  The in-memory delivery state of one stream (\<open>crates/runnel-core/src/delivery_state.rs\<close>): the
  deliveries in flight, the three indexes kept beside them, the bounded cache of consumer states
  and the set of consumers to reconcile after a failed append. The main invariant says that the
  indexes agree with the deliveries; it is what makes the broker's lookups exact.

  Instants are numbers of nanoseconds. Hash tables are iterated in an order that is a parameter.
\<close>

definition MAX_CACHED_CONSUMER_STATES :: nat where
  "MAX_CACHED_CONSUMER_STATES = 1024"

type_synonym instant = nat

datatype delivery_key = DeliveryKey (dk_consumer: string) (dk_offset: offset)

text \<open>Keys are ordered by consumer and then by offset.\<close>

instantiation delivery_key :: linorder
begin

definition less_eq_delivery_key :: "delivery_key \<Rightarrow> delivery_key \<Rightarrow> bool" where
  "a \<le> b \<longleftrightarrow> dk_consumer a < dk_consumer b \<or> dk_consumer a = dk_consumer b \<and> dk_offset a \<le> dk_offset b"

definition less_delivery_key :: "delivery_key \<Rightarrow> delivery_key \<Rightarrow> bool" where
  "a < b \<longleftrightarrow> dk_consumer a < dk_consumer b \<or> dk_consumer a = dk_consumer b \<and> dk_offset a < dk_offset b"

instance
  by standard (auto simp: less_eq_delivery_key_def less_delivery_key_def intro: delivery_key.expand)

end

record in_flight =
  if_member :: string
  if_offset :: offset
  if_key :: "string option"
  if_delivery_attempt :: nat
  if_delivery_token :: string
  if_requires_receipt :: bool
  if_deadline :: instant

record consumer_in_flight_index =
  ix_offsets :: "offset fset"
  ix_keys :: "string fset"
  ix_members :: "(string, offset fset) fmap"

record delivery_state =
  consumer_states :: "(string, consumer_state) fmap"
  in_flight_map :: "(delivery_key, in_flight) fmap"
  in_flight_deadlines :: "(instant, delivery_key list) fmap"
  in_flight_by_consumer :: "(string, consumer_in_flight_index) fmap"
  consumers_needing_reconcile :: "string fset"

section \<open>Hash tables\<close>

text \<open>
  The keys of a hash table in the order its iterator yields them. The order is a parameter; what
  the code relies on is that every key is yielded, once.
\<close>

definition hash_keys :: "('k fset \<Rightarrow> 'k list) \<Rightarrow> ('k, 'v) fmap \<Rightarrow> 'k list" where
  "hash_keys order m = filter (\<lambda>k. k |\<in>| fmdom m) (order (fmdom m))"

definition hash_order_ok :: "('k fset \<Rightarrow> 'k list) \<Rightarrow> bool" where
  "hash_order_ok order \<longleftrightarrow> (\<forall>S. distinct (order S) \<and> fset_of_list (order S) = S)"

lemma set_hash_keys: "hash_order_ok order \<Longrightarrow> set (hash_keys order m) = fset (fmdom m)"
proof -
  assume "hash_order_ok order"
  then have "fset_of_list (order (fmdom m)) = fmdom m" by (simp add: hash_order_ok_def)
  then have "set (order (fmdom m)) = fset (fmdom m)" by (metis fset_of_list.rep_eq)
  then show ?thesis by (auto simp: hash_keys_def)
qed

lemma hash_keys_subset: "set (hash_keys order m) \<subseteq> fset (fmdom m)"
  by (auto simp: hash_keys_def)

lemma hash_order_sorted: "hash_order_ok sorted_list_of_fset"
  by (simp add: hash_order_ok_def fset_of_list.abs_eq fset_inverse sorted_list_of_fset.rep_eq)

section \<open>Operations\<close>

definition new_delivery_state :: delivery_state where
  "new_delivery_state =
     \<lparr>consumer_states = fmempty, in_flight_map = fmempty, in_flight_deadlines = fmempty,
      in_flight_by_consumer = fmempty, consumers_needing_reconcile = {||}\<rparr>"

definition empty_index :: consumer_in_flight_index where
  "empty_index = \<lparr>ix_offsets = {||}, ix_keys = {||}, ix_members = fmempty\<rparr>"

definition get_in_flight :: "string \<Rightarrow> offset \<Rightarrow> delivery_state \<Rightarrow> in_flight option" where
  "get_in_flight consumer off ds = fmlookup (in_flight_map ds) (DeliveryKey consumer off)"

text \<open>The deadlines up to \<open>now\<close> in order, the keys filed under each, the deliveries behind them.\<close>

definition expired_deliveries :: "string \<Rightarrow> instant \<Rightarrow> delivery_state \<Rightarrow> in_flight list" where
  "expired_deliveries consumer now ds =
     filter (\<lambda>d. if_deadline d \<le> now)
       (List.map_filter (\<lambda>k. fmlookup (in_flight_map ds) k)
         (filter (\<lambda>k. dk_consumer k = consumer)
           (concat (map snd (filter (\<lambda>(t, _). t \<le> now) (sorted_list_of_fmap (in_flight_deadlines ds)))))))"

definition member_offsets :: "string \<Rightarrow> string \<Rightarrow> delivery_state \<Rightarrow> offset fset option" where
  "member_offsets consumer member ds =
     (case fmlookup (in_flight_by_consumer ds) consumer of
        None \<Rightarrow> None
      | Some index \<Rightarrow> fmlookup (ix_members index) member)"

definition member_delivery ::
  "string \<Rightarrow> string \<Rightarrow> delivery_state \<Rightarrow> broker_error + in_flight option" where
  "member_delivery consumer member ds =
     (case member_offsets consumer member ds of
        None \<Rightarrow> Inr None
      | Some offsets \<Rightarrow>
          (case sorted_list_of_fset offsets of
             [] \<Rightarrow> Inr None
           | off # _ \<Rightarrow>
               (case get_in_flight consumer off ds of
                  None \<Rightarrow> Inl (CorruptRecord off)
                | Some d \<Rightarrow> Inr (Some d))))"

primrec collect_deliveries ::
  "string \<Rightarrow> delivery_state \<Rightarrow> offset list \<Rightarrow> broker_error + in_flight list" where
  "collect_deliveries consumer ds [] = Inr []"
| "collect_deliveries consumer ds (off # offs) =
     (case get_in_flight consumer off ds of
        None \<Rightarrow> Inl (CorruptRecord off)
      | Some d \<Rightarrow>
          (case collect_deliveries consumer ds offs of Inl e \<Rightarrow> Inl e | Inr ds \<Rightarrow> Inr (d # ds)))"

definition member_deliveries ::
  "string \<Rightarrow> string \<Rightarrow> delivery_state \<Rightarrow> broker_error + in_flight list" where
  "member_deliveries consumer member ds =
     (case member_offsets consumer member ds of
        None \<Rightarrow> Inr []
      | Some offsets \<Rightarrow> collect_deliveries consumer ds (sorted_list_of_fset offsets))"

text \<open>The deliveries of one consumer.\<close>

definition consumer_deliveries :: "string \<Rightarrow> delivery_state \<Rightarrow> in_flight fset" where
  "consumer_deliveries consumer ds =
     fmran (fmfilter (\<lambda>k. dk_consumer k = consumer) (in_flight_map ds))"

definition next_deadline_for_consumer :: "string \<Rightarrow> delivery_state \<Rightarrow> instant option" where
  "next_deadline_for_consumer consumer ds =
     (let deadlines = if_deadline |`| consumer_deliveries consumer ds
      in if deadlines = {||} then None else Some (fMin deadlines))"

definition in_flight_filter :: "string \<Rightarrow> delivery_state \<Rightarrow> (offset fset \<times> string fset) option" where
  "in_flight_filter consumer ds =
     map_option (\<lambda>index. (ix_offsets index, ix_keys index)) (fmlookup (in_flight_by_consumer ds) consumer)"

definition delivery_keys :: "in_flight fset \<Rightarrow> string fset" where
  "delivery_keys fs = the |`| ffilter (\<lambda>k. k \<noteq> None) (if_key |`| fs)"

definition in_flight_filter_excluding ::
  "string \<Rightarrow> offset fset \<Rightarrow> delivery_state \<Rightarrow> offset fset \<times> string fset" where
  "in_flight_filter_excluding consumer excluded ds =
     (if excluded = {||}
      then (case in_flight_filter consumer ds of None \<Rightarrow> ({||}, {||}) | Some f \<Rightarrow> f)
      else let kept = ffilter (\<lambda>d. if_offset d |\<notin>| excluded) (consumer_deliveries consumer ds)
           in (if_offset |`| kept, delivery_keys kept))"

definition insert_index :: "in_flight \<Rightarrow> consumer_in_flight_index \<Rightarrow> consumer_in_flight_index" where
  "insert_index d index =
     \<lparr>ix_offsets = finsert (if_offset d) (ix_offsets index),
      ix_keys = (case if_key d of None \<Rightarrow> ix_keys index | Some key \<Rightarrow> finsert key (ix_keys index)),
      ix_members =
        fmupd (if_member d)
          (finsert (if_offset d)
            (case fmlookup (ix_members index) (if_member d) of None \<Rightarrow> {||} | Some offs \<Rightarrow> offs))
          (ix_members index)\<rparr>"

definition insert_in_flight :: "string \<Rightarrow> in_flight \<Rightarrow> delivery_state \<Rightarrow> delivery_state" where
  "insert_in_flight consumer d ds =
     (let key = DeliveryKey consumer (if_offset d)
      in ds\<lparr>in_flight_map := fmupd key d (in_flight_map ds),
            in_flight_deadlines :=
              fmupd (if_deadline d)
                ((case fmlookup (in_flight_deadlines ds) (if_deadline d) of None \<Rightarrow> [] | Some ks \<Rightarrow> ks) @ [key])
                (in_flight_deadlines ds),
            in_flight_by_consumer :=
              fmupd consumer
                (insert_index d
                  (case fmlookup (in_flight_by_consumer ds) consumer of
                     None \<Rightarrow> empty_index | Some index \<Rightarrow> index))
                (in_flight_by_consumer ds)\<rparr>)"

definition remove_deadline ::
  "delivery_key \<Rightarrow> instant \<Rightarrow> (instant, delivery_key list) fmap \<Rightarrow> (instant, delivery_key list) fmap" where
  "remove_deadline key deadline m =
     (case fmlookup m deadline of
        None \<Rightarrow> m
      | Some ks \<Rightarrow>
          let ks1 = (case position (\<lambda>k. k = key) ks of None \<Rightarrow> ks | Some i \<Rightarrow> swap_remove i ks)
          in if ks1 = [] then fmdrop deadline m else fmupd deadline ks1 m)"

definition remove_index :: "in_flight \<Rightarrow> offset \<Rightarrow> consumer_in_flight_index \<Rightarrow> consumer_in_flight_index" where
  "remove_index d off index =
     \<lparr>ix_offsets = ix_offsets index |-| {|off|},
      ix_keys = (case if_key d of None \<Rightarrow> ix_keys index | Some key \<Rightarrow> ix_keys index |-| {|key|}),
      ix_members =
        (case fmlookup (ix_members index) (if_member d) of
           None \<Rightarrow> ix_members index
         | Some offs \<Rightarrow>
             if offs |-| {|off|} = {||} then fmdrop (if_member d) (ix_members index)
             else fmupd (if_member d) (offs |-| {|off|}) (ix_members index))\<rparr>"

definition remove_in_flight :: "delivery_key \<Rightarrow> delivery_state \<Rightarrow> in_flight option \<times> delivery_state" where
  "remove_in_flight key ds =
     (case fmlookup (in_flight_map ds) key of
        None \<Rightarrow> (None, ds)
      | Some d \<Rightarrow>
          (Some d,
           ds\<lparr>in_flight_map := fmdrop key (in_flight_map ds),
              in_flight_deadlines := remove_deadline key (if_deadline d) (in_flight_deadlines ds),
              in_flight_by_consumer :=
                (case fmlookup (in_flight_by_consumer ds) (dk_consumer key) of
                   None \<Rightarrow> in_flight_by_consumer ds
                 | Some index \<Rightarrow>
                     let index1 = remove_index d (dk_offset key) index
                     in if ix_offsets index1 = {||} then fmdrop (dk_consumer key) (in_flight_by_consumer ds)
                        else fmupd (dk_consumer key) index1 (in_flight_by_consumer ds))\<rparr>))"

definition remove_delivery :: "string \<Rightarrow> offset \<Rightarrow> delivery_state \<Rightarrow> delivery_state" where
  "remove_delivery consumer off ds = snd (remove_in_flight (DeliveryKey consumer off) ds)"

definition mark_consumer_needs_reconcile :: "string \<Rightarrow> delivery_state \<Rightarrow> delivery_state" where
  "mark_consumer_needs_reconcile consumer ds =
     ds\<lparr>consumers_needing_reconcile := finsert consumer (consumers_needing_reconcile ds),
        consumer_states := fmdrop consumer (consumer_states ds)\<rparr>"

definition active_consumers :: "delivery_state \<Rightarrow> string fset" where
  "active_consumers ds = dk_consumer |`| fmdom (in_flight_map ds)"

definition evicted_consumer :: "(string fset \<Rightarrow> string list) \<Rightarrow> delivery_state \<Rightarrow> string option" where
  "evicted_consumer order ds =
     (let keys = hash_keys order (consumer_states ds)
      in case find (\<lambda>c. c |\<notin>| active_consumers ds) keys of
           Some c \<Rightarrow> Some c
         | None \<Rightarrow> (case keys of [] \<Rightarrow> None | c # _ \<Rightarrow> Some c))"

lemma evicted_consumer_dom:
  assumes "evicted_consumer order ds = Some c"
  shows "c |\<in>| fmdom (consumer_states ds)"
proof -
  have "c \<in> set (hash_keys order (consumer_states ds))"
    using assms by (auto simp: evicted_consumer_def Let_def find_Some_iff split: option.splits list.splits)
  then show ?thesis by (auto simp: hash_keys_def)
qed

function evict_consumer_states :: "(string fset \<Rightarrow> string list) \<Rightarrow> delivery_state \<Rightarrow> delivery_state" where
  "evict_consumer_states order ds =
     (if fcard (fmdom (consumer_states ds)) > MAX_CACHED_CONSUMER_STATES
      then (case evicted_consumer order ds of
              None \<Rightarrow> ds
            | Some c \<Rightarrow> evict_consumer_states order (ds\<lparr>consumer_states := fmdrop c (consumer_states ds)\<rparr>))
      else ds)"
  by pat_completeness auto
termination
proof (relation "measure (\<lambda>(_, ds). fcard (fmdom (consumer_states ds)))", goal_cases)
  case 1
  show ?case by simp
next
  case (2 order ds c)
  then have "fcard (fmdom (consumer_states ds) |-| {|c|}) < fcard (fmdom (consumer_states ds))"
    by (intro fcard_fminus1_less evicted_consumer_dom)
  then show ?case by simp
qed

declare evict_consumer_states.simps [simp del]

definition cache_consumer_state ::
  "(string fset \<Rightarrow> string list) \<Rightarrow> string \<Rightarrow> consumer_state \<Rightarrow> delivery_state \<Rightarrow> delivery_state" where
  "cache_consumer_state order consumer state ds =
     evict_consumer_states order (ds\<lparr>consumer_states := fmupd consumer state (consumer_states ds)\<rparr>)"

text \<open>
  The order of the two tables, and a request's view of the consumer's state: reloaded, synced and
  reconciled after a failed append, else from the cache, else from the files.
\<close>

record hash_orders =
  ho_keys :: "delivery_key fset \<Rightarrow> delivery_key list"
  ho_consumers :: "string fset \<Rightarrow> string list"

definition stale_offsets :: "hash_orders \<Rightarrow> string \<Rightarrow> consumer_state \<Rightarrow> delivery_state \<Rightarrow> offset list" where
  "stale_offsets ho consumer recovered ds =
     map dk_offset (filter (\<lambda>k. dk_consumer k = consumer \<and>
         (dk_offset k < committed_offset recovered \<or> dk_offset k |\<in>| acknowledged_offsets recovered))
       (hash_keys (ho_keys ho) (in_flight_map ds)))"

definition reconciled :: "hash_orders \<Rightarrow> string \<Rightarrow> consumer_state \<Rightarrow> delivery_state \<Rightarrow> delivery_state" where
  "reconciled ho consumer recovered ds =
     cache_consumer_state (ho_consumers ho) consumer recovered
       ((fold (remove_delivery consumer) (stale_offsets ho consumer recovered ds) ds)
         \<lparr>consumers_needing_reconcile := consumers_needing_reconcile ds |-| {|consumer|}\<rparr>)"

definition on_store ::
  "(consumer_store, broker_error, 'a) op \<Rightarrow> (delivery_state \<times> consumer_store, broker_error, 'a) op" where
  "on_store m = zoom snd (\<lambda>d w. (fst w, d)) m"

definition load_consumer_state_for_request ::
  "codec \<Rightarrow> hash_orders \<Rightarrow> string \<Rightarrow> string \<Rightarrow> (delivery_state \<times> consumer_store, broker_error, consumer_state) op" where
  "load_consumer_state_for_request cdc ho stream consumer =
     and_then (reads fst) (\<lambda>ds.
     if consumer |\<in>| consumers_needing_reconcile ds
     then and_then (on_store (load_consumer_state cdc stream consumer)) (\<lambda>recovered.
          and_then (on_store sync_consumer_state_journal) (\<lambda>_.
          and_then (modify (\<lambda>w. (reconciled ho consumer recovered (fst w), snd w))) (\<lambda>_.
          return_op recovered)))
     else case fmlookup (consumer_states ds) consumer of
            Some cached \<Rightarrow> return_op cached
          | None \<Rightarrow> on_store (load_consumer_state cdc stream consumer))"

definition in_flight_count :: "delivery_state \<Rightarrow> nat" where
  "in_flight_count ds = fcard (fmdom (in_flight_map ds))"

section \<open>Delivery tokens\<close>

record token_generator =
  tg_epoch :: nat
  tg_next_id :: nat

definition next_token :: "token_generator \<Rightarrow> string \<times> token_generator" where
  "next_token g =
     (let next_id = wrapping_add64 (tg_next_id g) 1
      in (hex_string (tg_epoch g) @ ''-'' @ hex_string next_id, g\<lparr>tg_next_id := next_id\<rparr>))"

section \<open>The indexes agree with the deliveries\<close>

definition index_at :: "string \<Rightarrow> delivery_state \<Rightarrow> consumer_in_flight_index" where
  "index_at consumer ds =
     (case fmlookup (in_flight_by_consumer ds) consumer of None \<Rightarrow> empty_index | Some index \<Rightarrow> index)"

definition keys_at :: "instant \<Rightarrow> delivery_state \<Rightarrow> delivery_key list" where
  "keys_at t ds = (case fmlookup (in_flight_deadlines ds) t of None \<Rightarrow> [] | Some ks \<Rightarrow> ks)"

text \<open>Deliveries are filed under their own offset, and one consumer never holds a key twice.\<close>

definition flights_ok :: "delivery_state \<Rightarrow> bool" where
  "flights_ok ds \<longleftrightarrow>
     (\<forall>c off d. get_in_flight c off ds = Some d \<longrightarrow> if_offset d = off) \<and>
     (\<forall>c off d off' d' key. get_in_flight c off ds = Some d \<longrightarrow> get_in_flight c off' ds = Some d' \<longrightarrow>
        if_key d = Some key \<longrightarrow> if_key d' = Some key \<longrightarrow> off = off')"

definition deadlines_ok :: "delivery_state \<Rightarrow> bool" where
  "deadlines_ok ds \<longleftrightarrow>
     (\<forall>t. distinct (keys_at t ds) \<and> fmlookup (in_flight_deadlines ds) t \<noteq> Some [] \<and>
        (\<forall>c off. DeliveryKey c off \<in> set (keys_at t ds) \<longleftrightarrow>
           (\<exists>d. get_in_flight c off ds = Some d \<and> if_deadline d = t)))"

definition index_ok :: "delivery_state \<Rightarrow> bool" where
  "index_ok ds \<longleftrightarrow>
     (\<forall>c. (\<forall>off. off |\<in>| ix_offsets (index_at c ds) \<longleftrightarrow> get_in_flight c off ds \<noteq> None) \<and>
          (\<forall>key. key |\<in>| ix_keys (index_at c ds) \<longleftrightarrow>
             (\<exists>off d. get_in_flight c off ds = Some d \<and> if_key d = Some key)))"

definition members_ok :: "delivery_state \<Rightarrow> bool" where
  "members_ok ds \<longleftrightarrow>
     (\<forall>c m. fmlookup (ix_members (index_at c ds)) m \<noteq> Some {||} \<and>
        (\<forall>off. (\<exists>offs. fmlookup (ix_members (index_at c ds)) m = Some offs \<and> off |\<in>| offs) \<longleftrightarrow>
           (\<exists>d. get_in_flight c off ds = Some d \<and> if_member d = m)))"

definition indexes_kept :: "delivery_state \<Rightarrow> bool" where
  "indexes_kept ds \<longleftrightarrow> (\<forall>c index. fmlookup (in_flight_by_consumer ds) c = Some index \<longrightarrow> ix_offsets index \<noteq> {||})"

definition ds_wf :: "delivery_state \<Rightarrow> bool" where
  "ds_wf ds \<longleftrightarrow> flights_ok ds \<and> deadlines_ok ds \<and> index_ok ds \<and> members_ok ds \<and> indexes_kept ds"

lemmas ds_wf_defs = ds_wf_def flights_ok_def deadlines_ok_def index_ok_def members_ok_def indexes_kept_def

text \<open>A delivery may be inserted when neither its offset nor its key is in flight.\<close>

definition insertable :: "string \<Rightarrow> in_flight \<Rightarrow> delivery_state \<Rightarrow> bool" where
  "insertable consumer d ds \<longleftrightarrow>
     get_in_flight consumer (if_offset d) ds = None \<and>
     (\<forall>key. if_key d = Some key \<longrightarrow> key |\<notin>| ix_keys (index_at consumer ds))"

lemma ds_wf_new [simp]: "ds_wf new_delivery_state"
  by (simp add: ds_wf_defs new_delivery_state_def get_in_flight_def keys_at_def index_at_def empty_index_def)

subsection \<open>Insertion\<close>

lemma get_in_flight_insert:
  "get_in_flight c off (insert_in_flight consumer d ds) =
     (if c = consumer \<and> off = if_offset d then Some d else get_in_flight c off ds)"
  by (auto simp: get_in_flight_def insert_in_flight_def Let_def)

lemma keys_at_insert:
  "keys_at t (insert_in_flight consumer d ds) =
     (if t = if_deadline d then keys_at t ds @ [DeliveryKey consumer (if_offset d)] else keys_at t ds)"
  by (simp add: keys_at_def insert_in_flight_def Let_def)

lemma index_at_insert:
  "index_at c (insert_in_flight consumer d ds) =
     (if c = consumer then insert_index d (index_at c ds) else index_at c ds)"
  by (simp add: index_at_def insert_in_flight_def Let_def)

lemma members_insert_index:
  "fmlookup (ix_members (insert_index d index)) m =
     (if m = if_member d
      then Some (finsert (if_offset d) (case fmlookup (ix_members index) m of None \<Rightarrow> {||} | Some offs \<Rightarrow> offs))
      else fmlookup (ix_members index) m)"
  by (simp add: insert_index_def)

lemma flights_ok_insert:
  assumes "ds_wf ds" "insertable consumer d ds"
  shows "flights_ok (insert_in_flight consumer d ds)"
proof -
  have new: "if_key d' \<noteq> Some key" if "get_in_flight consumer off ds = Some d'" "if_key d = Some key" for off d' key
    using assms that unfolding insertable_def ds_wf_def index_ok_def by blast
  have old: "flights_ok ds" using assms by (simp add: ds_wf_def)
  show ?thesis
    unfolding flights_ok_def get_in_flight_insert
  proof (intro conjI allI impI)
    fix c off d1
    assume "(if c = consumer \<and> off = if_offset d then Some d else get_in_flight c off ds) = Some d1"
    then show "if_offset d1 = off" using old by (auto simp: flights_ok_def split: if_splits)
  next
    fix c off d1 off' d2 key
    assume "(if c = consumer \<and> off = if_offset d then Some d else get_in_flight c off ds) = Some d1"
      "(if c = consumer \<and> off' = if_offset d then Some d else get_in_flight c off' ds) = Some d2"
      "if_key d1 = Some key" "if_key d2 = Some key"
    then show "off = off'"
      using old new by (auto simp: flights_ok_def split: if_splits)
  qed
qed

lemma deadlines_ok_insert:
  assumes "ds_wf ds" "insertable consumer d ds"
  shows "deadlines_ok (insert_in_flight consumer d ds)"
proof -
  have old: "deadlines_ok ds" and fresh: "get_in_flight consumer (if_offset d) ds = None"
    using assms by (simp_all add: ds_wf_def insertable_def)
  from old fresh have "DeliveryKey consumer (if_offset d) \<notin> set (keys_at t ds)" for t
    by (simp add: deadlines_ok_def)
  then have "distinct (keys_at t (insert_in_flight consumer d ds))" for t
    using old by (simp add: keys_at_insert deadlines_ok_def)
  moreover have "fmlookup (in_flight_deadlines (insert_in_flight consumer d ds)) t \<noteq> Some []" for t
    using old by (auto simp: insert_in_flight_def Let_def deadlines_ok_def)
  moreover have "DeliveryKey c off \<in> set (keys_at t (insert_in_flight consumer d ds)) \<longleftrightarrow>
      (\<exists>d'. get_in_flight c off (insert_in_flight consumer d ds) = Some d' \<and> if_deadline d' = t)" for t c off
    using old fresh by (auto simp: keys_at_insert get_in_flight_insert deadlines_ok_def)
  ultimately show ?thesis by (simp add: deadlines_ok_def)
qed

lemma index_ok_insert:
  assumes "ds_wf ds" "insertable consumer d ds"
  shows "index_ok (insert_in_flight consumer d ds)"
proof -
  have old: "index_ok ds" and fresh: "get_in_flight consumer (if_offset d) ds = None"
    using assms by (simp_all add: ds_wf_def insertable_def)
  have "off |\<in>| ix_offsets (index_at c (insert_in_flight consumer d ds)) \<longleftrightarrow>
      get_in_flight c off (insert_in_flight consumer d ds) \<noteq> None" for c off
    using old by (auto simp: index_at_insert get_in_flight_insert insert_index_def index_ok_def)
  moreover have "key |\<in>| ix_keys (index_at c (insert_in_flight consumer d ds)) \<longleftrightarrow>
      (\<exists>off d'. get_in_flight c off (insert_in_flight consumer d ds) = Some d' \<and> if_key d' = Some key)" for c key
  proof (cases "c = consumer")
    case True
    have "key |\<in>| ix_keys (index_at c ds) \<longleftrightarrow> (\<exists>off d'. get_in_flight c off ds = Some d' \<and> if_key d' = Some key)"
      using old by (simp add: index_ok_def)
    then have "key |\<in>| ix_keys (insert_index d (index_at c ds)) \<longleftrightarrow>
        if_key d = Some key \<or> (\<exists>off d'. get_in_flight c off ds = Some d' \<and> if_key d' = Some key)"
      by (auto simp: insert_index_def split: option.split)
    also have "\<dots> \<longleftrightarrow> (\<exists>off d'. (if off = if_offset d then Some d else get_in_flight c off ds) = Some d' \<and> if_key d' = Some key)"
      using fresh True by (auto split: if_splits) (metis option.distinct(1))
    finally show ?thesis by (simp add: index_at_insert get_in_flight_insert True)
  next
    case False
    with old show ?thesis by (simp add: index_at_insert get_in_flight_insert index_ok_def)
  qed
  ultimately show ?thesis by (simp add: index_ok_def)
qed

lemma members_ok_insert:
  assumes "ds_wf ds" "insertable consumer d ds"
  shows "members_ok (insert_in_flight consumer d ds)"
proof -
  have old: "members_ok ds" and fresh: "get_in_flight consumer (if_offset d) ds = None"
    using assms by (simp_all add: ds_wf_def insertable_def)
  have mem: "(\<exists>offs. fmlookup (ix_members (index_at c ds)) m = Some offs \<and> off |\<in>| offs) \<longleftrightarrow>
      (\<exists>d. get_in_flight c off ds = Some d \<and> if_member d = m)" for c m off
    using old by (simp add: members_ok_def)
  have "fmlookup (ix_members (index_at c (insert_in_flight consumer d ds))) m \<noteq> Some {||}" for c m
    using old by (simp add: index_at_insert members_insert_index members_ok_def)
  moreover have "(\<exists>offs. fmlookup (ix_members (index_at c (insert_in_flight consumer d ds))) m = Some offs \<and> off |\<in>| offs) \<longleftrightarrow>
      (\<exists>d'. get_in_flight c off (insert_in_flight consumer d ds) = Some d' \<and> if_member d' = m)" for c m off
    using mem [of c m off] fresh
    by (auto simp: index_at_insert members_insert_index get_in_flight_insert split: option.splits if_splits)
  ultimately show ?thesis by (simp add: members_ok_def)
qed

lemma ds_wf_insert:
  assumes "ds_wf ds" "insertable consumer d ds"
  shows "ds_wf (insert_in_flight consumer d ds)"
proof -
  have "indexes_kept (insert_in_flight consumer d ds)"
    using assms(1) by (auto simp: ds_wf_def indexes_kept_def insert_in_flight_def Let_def insert_index_def)
  with flights_ok_insert [OF assms] deadlines_ok_insert [OF assms] index_ok_insert [OF assms] members_ok_insert [OF assms]
  show ?thesis by (simp add: ds_wf_def)
qed

subsection \<open>Removal\<close>

lemma remove_absent: "get_in_flight consumer off ds = None \<Longrightarrow> remove_delivery consumer off ds = ds"
  by (simp add: remove_delivery_def remove_in_flight_def get_in_flight_def)

lemma get_in_flight_remove:
  "get_in_flight c o' (remove_delivery consumer off ds) =
     (if c = consumer \<and> o' = off then None else get_in_flight c o' ds)"
  by (auto simp: get_in_flight_def remove_delivery_def remove_in_flight_def split: option.split)

lemma set_swap_remove:
  assumes "distinct xs"
  shows "distinct (case position (\<lambda>k. k = x) xs of None \<Rightarrow> xs | Some i \<Rightarrow> swap_remove i xs)"
    and "set (case position (\<lambda>k. k = x) xs of None \<Rightarrow> xs | Some i \<Rightarrow> swap_remove i xs) = set xs - {x}"
proof -
  consider "position (\<lambda>k. k = x) xs = None" "x \<notin> set xs"
    | i where "position (\<lambda>k. k = x) xs = Some i" "mset (swap_remove i xs) = mset xs - {#x#}"
    using position_None_iff [of "\<lambda>k. k = x" xs] position_SomeD [of "\<lambda>k. k = x" xs] mset_swap_remove [of _ xs]
    by (cases "position (\<lambda>k. k = x) xs") auto
  then have "distinct (case position (\<lambda>k. k = x) xs of None \<Rightarrow> xs | Some i \<Rightarrow> swap_remove i xs) \<and>
    set (case position (\<lambda>k. k = x) xs of None \<Rightarrow> xs | Some i \<Rightarrow> swap_remove i xs) = set xs - {x}"
  proof cases
    case 1
    with assms show ?thesis by simp
  next
    case (2 i)
    have m: "mset (swap_remove i xs) = mset (remove1 x xs)" using 2 by simp
    with assms have "distinct (swap_remove i xs)" by (metis distinct_remove1 mset_eq_imp_distinct_iff)
    with 2 assms mset_eq_setD [OF m] show ?thesis by simp
  qed
  then show "distinct (case position (\<lambda>k. k = x) xs of None \<Rightarrow> xs | Some i \<Rightarrow> swap_remove i xs)"
    "set (case position (\<lambda>k. k = x) xs of None \<Rightarrow> xs | Some i \<Rightarrow> swap_remove i xs) = set xs - {x}"
    by auto
qed

lemma keys_at_remove:
  assumes "ds_wf ds" "get_in_flight consumer off ds = Some d"
  shows "distinct (keys_at t (remove_delivery consumer off ds))"
    and "set (keys_at t (remove_delivery consumer off ds)) = set (keys_at t ds) - {DeliveryKey consumer off}"
    and "fmlookup (in_flight_deadlines (remove_delivery consumer off ds)) t \<noteq> Some []"
proof -
  let ?k = "DeliveryKey consumer off"
  have ok: "distinct (keys_at t ds)" "fmlookup (in_flight_deadlines ds) t \<noteq> Some []" for t
    using assms by (simp_all add: ds_wf_def deadlines_ok_def)
  have other: "?k \<notin> set (keys_at t ds)" if "t \<noteq> if_deadline d"
    using assms that by (simp add: ds_wf_def deadlines_ok_def)
  let ?ks = "case position (\<lambda>k. k = ?k) (keys_at t ds) of None \<Rightarrow> keys_at t ds | Some i \<Rightarrow> swap_remove i (keys_at t ds)"
  have at: "keys_at t (remove_delivery consumer off ds) = (if t = if_deadline d then ?ks else keys_at t ds)"
    using assms(2)
    by (auto simp: keys_at_def remove_delivery_def remove_in_flight_def remove_deadline_def get_in_flight_def Let_def
        split: option.split)
  show "distinct (keys_at t (remove_delivery consumer off ds))"
    "set (keys_at t (remove_delivery consumer off ds)) = set (keys_at t ds) - {?k}"
    unfolding at using ok set_swap_remove [of "keys_at t ds" ?k] other by (cases "t = if_deadline d"; simp)+
  show "fmlookup (in_flight_deadlines (remove_delivery consumer off ds)) t \<noteq> Some []"
    using ok(2) assms(2)
    by (auto simp: remove_delivery_def remove_in_flight_def remove_deadline_def get_in_flight_def Let_def
        split: option.split)
qed

lemma index_at_remove:
  assumes "ds_wf ds" "get_in_flight consumer off ds = Some d"
  shows "ix_offsets (index_at c (remove_delivery consumer off ds)) =
      (if c = consumer then ix_offsets (index_at c ds) |-| {|off|} else ix_offsets (index_at c ds))"
    and "c \<noteq> consumer \<Longrightarrow> index_at c (remove_delivery consumer off ds) = index_at c ds"
    and "ix_offsets (index_at consumer ds) |-| {|off|} \<noteq> {||} \<Longrightarrow>
      index_at consumer (remove_delivery consumer off ds) = remove_index d off (index_at consumer ds)"
    and "ix_offsets (index_at consumer ds) |-| {|off|} = {||} \<Longrightarrow>
      index_at consumer (remove_delivery consumer off ds) = empty_index"
    and "indexes_kept (remove_delivery consumer off ds)"
proof -
  have "off |\<in>| ix_offsets (index_at consumer ds)"
    using assms by (simp add: ds_wf_def index_ok_def)
  then obtain index where index: "fmlookup (in_flight_by_consumer ds) consumer = Some index"
    by (cases "fmlookup (in_flight_by_consumer ds) consumer") (auto simp: index_at_def empty_index_def)
  have byc: "in_flight_by_consumer (remove_delivery consumer off ds) =
      (if ix_offsets index |-| {|off|} = {||} then fmdrop consumer (in_flight_by_consumer ds)
       else fmupd consumer (remove_index d off index) (in_flight_by_consumer ds))"
    using assms(2) index
    by (simp add: remove_delivery_def remove_in_flight_def get_in_flight_def Let_def remove_index_def)
  show "c \<noteq> consumer \<Longrightarrow> index_at c (remove_delivery consumer off ds) = index_at c ds"
    by (simp add: index_at_def byc)
  show some: "ix_offsets (index_at consumer ds) |-| {|off|} \<noteq> {||} \<Longrightarrow>
      index_at consumer (remove_delivery consumer off ds) = remove_index d off (index_at consumer ds)"
    and none: "ix_offsets (index_at consumer ds) |-| {|off|} = {||} \<Longrightarrow>
      index_at consumer (remove_delivery consumer off ds) = empty_index"
    using index by (simp_all add: index_at_def byc)
  show "ix_offsets (index_at c (remove_delivery consumer off ds)) =
      (if c = consumer then ix_offsets (index_at c ds) |-| {|off|} else ix_offsets (index_at c ds))"
    using index by (auto simp: index_at_def byc empty_index_def remove_index_def)
  have "indexes_kept ds" using assms by (simp add: ds_wf_def)
  then show "indexes_kept (remove_delivery consumer off ds)"
    by (auto simp: indexes_kept_def byc remove_index_def split: if_splits)
qed

text \<open>When the last delivery of a consumer goes, the empty index is again the right one.\<close>

lemma last_delivery:
  assumes "ds_wf ds" "ix_offsets (index_at consumer ds) |-| {|off|} = {||}"
  shows "get_in_flight consumer o' ds = Some d' \<Longrightarrow> o' = off"
proof -
  assume "get_in_flight consumer o' ds = Some d'"
  then have "o' |\<in>| ix_offsets (index_at consumer ds)"
    using assms(1) by (simp add: ds_wf_def index_ok_def)
  with assms(2) show "o' = off" by auto
qed

lemma keys_remove:
  assumes wf: "ds_wf ds" and d: "get_in_flight consumer off ds = Some d"
  shows "key |\<in>| ix_keys (index_at consumer (remove_delivery consumer off ds)) \<longleftrightarrow>
    (\<exists>o' d'. get_in_flight consumer o' (remove_delivery consumer off ds) = Some d' \<and> if_key d' = Some key)"
proof (cases "ix_offsets (index_at consumer ds) |-| {|off|} = {||}")
  case True
  with last_delivery [OF wf True] index_at_remove(4) [OF wf d] show ?thesis
    by (auto simp: get_in_flight_remove empty_index_def)
next
  case False
  have old: "key |\<in>| ix_keys (index_at consumer ds) \<longleftrightarrow>
      (\<exists>o' d'. get_in_flight consumer o' ds = Some d' \<and> if_key d' = Some key)"
    using wf by (simp add: ds_wf_def index_ok_def)
  have uniq: "if_key d = Some key \<Longrightarrow> get_in_flight consumer o' ds = Some d' \<Longrightarrow> if_key d' = Some key \<Longrightarrow> o' = off" for o' d'
    using wf d unfolding ds_wf_def flights_ok_def by blast
  have "key |\<in>| ix_keys (remove_index d off (index_at consumer ds)) \<longleftrightarrow>
      key |\<in>| ix_keys (index_at consumer ds) \<and> if_key d \<noteq> Some key"
    by (auto simp: remove_index_def split: option.split)
  also have "\<dots> \<longleftrightarrow> (\<exists>o' d'. o' \<noteq> off \<and> get_in_flight consumer o' ds = Some d' \<and> if_key d' = Some key)"
    unfolding old using uniq d by (metis option.inject)
  finally show ?thesis
    by (auto simp: index_at_remove(3) [OF wf d False] get_in_flight_remove)
qed

lemma members_remove_index:
  "(\<exists>offs. fmlookup (ix_members (remove_index d off index)) m = Some offs \<and> o' |\<in>| offs) \<longleftrightarrow>
     (\<exists>offs. fmlookup (ix_members index) m = Some offs \<and> o' |\<in>| offs) \<and> \<not> (m = if_member d \<and> o' = off)"
  "fmlookup (ix_members index) m \<noteq> Some {||} \<Longrightarrow> fmlookup (ix_members (remove_index d off index)) m \<noteq> Some {||}"
  by (auto simp: remove_index_def split: option.split if_splits)

lemma members_ok_remove:
  assumes wf: "ds_wf ds" and d: "get_in_flight consumer off ds = Some d"
  shows "members_ok (remove_delivery consumer off ds)"
  unfolding members_ok_def
proof (intro allI conjI)
  have old: "fmlookup (ix_members (index_at c ds)) m \<noteq> Some {||}"
      "(\<exists>offs. fmlookup (ix_members (index_at c ds)) m = Some offs \<and> o' |\<in>| offs) \<longleftrightarrow>
       (\<exists>d. get_in_flight c o' ds = Some d \<and> if_member d = m)" for c m o'
    using wf by (simp_all add: ds_wf_def members_ok_def)
  fix c m
  show "fmlookup (ix_members (index_at c (remove_delivery consumer off ds))) m \<noteq> Some {||}"
    using index_at_remove(2-4) [OF wf d] old(1) [of c m] members_remove_index(2)
    by (cases "c = consumer"; cases "ix_offsets (index_at consumer ds) |-| {|off|} = {||}")
      (simp_all add: empty_index_def)
  fix o'
  show "(\<exists>offs. fmlookup (ix_members (index_at c (remove_delivery consumer off ds))) m = Some offs \<and> o' |\<in>| offs) \<longleftrightarrow>
      (\<exists>d'. get_in_flight c o' (remove_delivery consumer off ds) = Some d' \<and> if_member d' = m)"
  proof (cases "c = consumer")
    case False
    then show ?thesis by (simp add: index_at_remove(2) [OF wf d] old(2) get_in_flight_remove)
  next
    case c: True
    show ?thesis
    proof (cases "ix_offsets (index_at consumer ds) |-| {|off|} = {||}")
      case True
      with c last_delivery [OF wf True] index_at_remove(4) [OF wf d] show ?thesis
        by (auto simp: get_in_flight_remove empty_index_def)
    next
      case False
      with c d show ?thesis
        by (auto simp: index_at_remove(3) [OF wf d] members_remove_index(1) old(2) get_in_flight_remove)
    qed
  qed
qed

lemma ds_wf_remove:
  assumes wf: "ds_wf ds"
  shows "ds_wf (remove_delivery consumer off ds)"
proof (cases "get_in_flight consumer off ds")
  case None
  with wf show ?thesis by (simp add: remove_absent)
next
  case (Some d)
  have "flights_ok (remove_delivery consumer off ds)"
    using wf unfolding ds_wf_def flights_ok_def get_in_flight_remove by (auto split: if_splits)
  moreover have "deadlines_ok (remove_delivery consumer off ds)"
    using wf keys_at_remove [OF wf Some]
    unfolding ds_wf_def deadlines_ok_def get_in_flight_remove by auto
  moreover have "index_ok (remove_delivery consumer off ds)"
    unfolding index_ok_def
  proof (intro allI conjI)
    fix c o'
    show "o' |\<in>| ix_offsets (index_at c (remove_delivery consumer off ds)) \<longleftrightarrow>
        get_in_flight c o' (remove_delivery consumer off ds) \<noteq> None"
      using wf by (auto simp: index_at_remove(1) [OF wf Some] get_in_flight_remove ds_wf_def index_ok_def)
  next
    fix c key
    show "key |\<in>| ix_keys (index_at c (remove_delivery consumer off ds)) \<longleftrightarrow>
        (\<exists>o' d'. get_in_flight c o' (remove_delivery consumer off ds) = Some d' \<and> if_key d' = Some key)"
    proof (cases "c = consumer")
      case True
      with keys_remove [OF wf Some] show ?thesis by simp
    next
      case False
      with wf show ?thesis
        by (simp add: index_at_remove(2) [OF wf Some] get_in_flight_remove ds_wf_def index_ok_def)
    qed
  qed
  ultimately show ?thesis
    using members_ok_remove [OF wf Some] index_at_remove(5) [OF wf Some] by (simp add: ds_wf_def)
qed

section \<open>The delivery table as an interface\<close>

text \<open>
  What the broker uses of the deliveries of one consumer: a table with lookup, insertion of a
  fresh entry and deletion, and an invariant all of them keep.
\<close>

locale delivery_table =
  fixes lookup :: "'k \<Rightarrow> 's \<Rightarrow> 'v option" and key_of :: "'v \<Rightarrow> 'k"
    and ins :: "'v \<Rightarrow> 's \<Rightarrow> 's" and del :: "'k \<Rightarrow> 's \<Rightarrow> 's"
    and inv :: "'s \<Rightarrow> bool" and fresh :: "'v \<Rightarrow> 's \<Rightarrow> bool"
  assumes lookup_ins: "lookup k (ins v s) = (if k = key_of v then Some v else lookup k s)"
    and lookup_del: "lookup k (del j s) = (if k = j then None else lookup k s)"
    and inv_ins: "inv s \<Longrightarrow> fresh v s \<Longrightarrow> inv (ins v s)"
    and inv_del: "inv s \<Longrightarrow> inv (del k s)"
    and fresh_absent: "fresh v s \<Longrightarrow> lookup (key_of v) s = None"
begin

lemma lookup_dels: "lookup k (fold del ks s) = (if k \<in> set ks then None else lookup k s)"
  by (induction ks arbitrary: s) (auto simp: lookup_del)

lemma inv_dels: "inv s \<Longrightarrow> inv (fold del ks s)"
  by (induction ks arbitrary: s) (auto simp: inv_del)

lemma del_ins: "fresh v s \<Longrightarrow> lookup k (del (key_of v) (ins v s)) = lookup k s"
  by (auto simp: lookup_del lookup_ins fresh_absent)

end

interpretation flights: delivery_table
  "get_in_flight consumer" if_offset "insert_in_flight consumer" "remove_delivery consumer" ds_wf "insertable consumer"
  for consumer
  by unfold_locales
    (auto simp: get_in_flight_insert get_in_flight_remove ds_wf_insert ds_wf_remove insertable_def)

section \<open>The queries are exact\<close>

lemma consumer_deliveries_iff:
  "d |\<in>| consumer_deliveries consumer ds \<longleftrightarrow> (\<exists>off. get_in_flight consumer off ds = Some d)"
proof -
  have "d |\<in>| consumer_deliveries consumer ds \<longleftrightarrow>
      (\<exists>k. dk_consumer k = consumer \<and> fmlookup (in_flight_map ds) k = Some d)"
    by (auto simp: consumer_deliveries_def fmlookup_ran_iff simp del: fmfilter_ran)
  also have "\<dots> \<longleftrightarrow> (\<exists>off. get_in_flight consumer off ds = Some d)"
    by (metis delivery_key.collapse delivery_key.sel(1) get_in_flight_def)
  finally show ?thesis .
qed

lemma delivery_keys_iff: "key |\<in>| delivery_keys fs \<longleftrightarrow> (\<exists>d. d |\<in>| fs \<and> if_key d = Some key)"
  by (force simp: delivery_keys_def image_iff)

lemma in_flight_filter_index:
  "(case in_flight_filter consumer ds of None \<Rightarrow> ({||}, {||}) | Some f \<Rightarrow> f) =
     (ix_offsets (index_at consumer ds), ix_keys (index_at consumer ds))"
  by (simp add: in_flight_filter_def index_at_def empty_index_def split: option.split)

lemma filter_excluding_offsets:
  assumes "ds_wf ds"
  shows "off |\<in>| fst (in_flight_filter_excluding consumer excluded ds) \<longleftrightarrow>
    off |\<notin>| excluded \<and> get_in_flight consumer off ds \<noteq> None"
proof (cases "excluded = {||}")
  case True
  with assms show ?thesis
    by (simp add: in_flight_filter_excluding_def in_flight_filter_index ds_wf_def index_ok_def)
next
  case False
  have "if_offset d = o'" if "get_in_flight consumer o' ds = Some d" for o' d
    using assms that by (simp add: ds_wf_def flights_ok_def)
  with False show ?thesis
    by (force simp: in_flight_filter_excluding_def Let_def consumer_deliveries_iff image_iff)
qed

lemma filter_excluding_keys:
  assumes "ds_wf ds"
  shows "key |\<in>| snd (in_flight_filter_excluding consumer excluded ds) \<longleftrightarrow>
    (\<exists>off d. off |\<notin>| excluded \<and> get_in_flight consumer off ds = Some d \<and> if_key d = Some key)"
proof (cases "excluded = {||}")
  case True
  with assms show ?thesis
    by (simp add: in_flight_filter_excluding_def in_flight_filter_index ds_wf_def index_ok_def)
next
  case False
  have "if_offset d = o'" if "get_in_flight consumer o' ds = Some d" for o' d
    using assms that by (simp add: ds_wf_def flights_ok_def)
  with False show ?thesis
    by (auto simp: in_flight_filter_excluding_def Let_def delivery_keys_iff consumer_deliveries_iff)
qed

lemma filter_excluding_removed:
  assumes "ds_wf ds"
  shows "in_flight_filter_excluding consumer (fset_of_list offs) ds =
    in_flight_filter_excluding consumer {||} (fold (remove_delivery consumer) offs ds)"
proof (rule prod_eqI; rule fset_eqI)
  note wf1 = flights.inv_dels [OF assms, of consumer offs]
  fix off
  show "off |\<in>| fst (in_flight_filter_excluding consumer (fset_of_list offs) ds) \<longleftrightarrow>
      off |\<in>| fst (in_flight_filter_excluding consumer {||} (fold (remove_delivery consumer) offs ds))"
    by (simp add: filter_excluding_offsets [OF assms] filter_excluding_offsets [OF wf1] flights.lookup_dels fset_of_list_elem)
next
  note wf1 = flights.inv_dels [OF assms, of consumer offs]
  fix key
  show "key |\<in>| snd (in_flight_filter_excluding consumer (fset_of_list offs) ds) \<longleftrightarrow>
      key |\<in>| snd (in_flight_filter_excluding consumer {||} (fold (remove_delivery consumer) offs ds))"
    by (auto simp: filter_excluding_keys [OF assms] filter_excluding_keys [OF wf1] flights.lookup_dels fset_of_list_elem)
qed

subsection \<open>Members\<close>

lemma collect_deliveries_Inr:
  "(\<And>off. off \<in> set offs \<Longrightarrow> get_in_flight consumer off ds \<noteq> None) \<Longrightarrow>
   collect_deliveries consumer ds offs = Inr (map (\<lambda>off. the (get_in_flight consumer off ds)) offs)"
  by (induction offs) (auto split: option.split)

lemma member_offsets_iff:
  assumes "ds_wf ds"
  shows "(\<exists>offs. member_offsets consumer member ds = Some offs \<and> off |\<in>| offs) \<longleftrightarrow>
      (\<exists>d. get_in_flight consumer off ds = Some d \<and> if_member d = member)"
    and "member_offsets consumer member ds \<noteq> Some {||}"
proof -
  have eq: "member_offsets consumer member ds = fmlookup (ix_members (index_at consumer ds)) member"
    by (simp add: member_offsets_def index_at_def empty_index_def split: option.split)
  show "(\<exists>offs. member_offsets consumer member ds = Some offs \<and> off |\<in>| offs) \<longleftrightarrow>
      (\<exists>d. get_in_flight consumer off ds = Some d \<and> if_member d = member)"
    "member_offsets consumer member ds \<noteq> Some {||}"
    unfolding eq using assms by (simp_all add: ds_wf_def members_ok_def)
qed

lemma member_deliveries_exact:
  assumes "ds_wf ds"
  obtains fs where "member_deliveries consumer member ds = Inr fs"
    "\<And>d. d \<in> set fs \<longleftrightarrow> (\<exists>off. get_in_flight consumer off ds = Some d) \<and> if_member d = member"
    "sorted_wrt (\<lambda>a b. if_offset a < if_offset b) fs"
proof (cases "member_offsets consumer member ds")
  case None
  with member_offsets_iff(1) [OF assms, of consumer member] that [of "[]"] show thesis
    by (auto simp: member_deliveries_def)
next
  case (Some offs)
  have mem: "off |\<in>| offs \<longleftrightarrow> (\<exists>d. get_in_flight consumer off ds = Some d \<and> if_member d = member)" for off
    using member_offsets_iff(1) [OF assms, of consumer member] Some by auto
  let ?fs = "map (\<lambda>off. the (get_in_flight consumer off ds)) (sorted_list_of_fset offs)"
  have filed: "get_in_flight consumer off ds = Some d \<Longrightarrow> if_offset d = off" for off d
    using assms by (simp add: ds_wf_def flights_ok_def)
  have own: "if_offset (the (get_in_flight consumer off ds)) = off" if "off |\<in>| offs" for off
    using that mem filed by auto
  show thesis
  proof (rule that)
    show "member_deliveries consumer member ds = Inr ?fs"
      using Some mem by (auto simp: member_deliveries_def intro!: collect_deliveries_Inr)
    show "d \<in> set ?fs \<longleftrightarrow> (\<exists>off. get_in_flight consumer off ds = Some d) \<and> if_member d = member" for d
    proof -
      have "d \<in> set ?fs \<longleftrightarrow> (\<exists>off. off |\<in>| offs \<and> d = the (get_in_flight consumer off ds))"
        by (auto simp: image_iff)
      also have "\<dots> \<longleftrightarrow> (\<exists>off. get_in_flight consumer off ds = Some d \<and> if_member d = member)"
        using mem by (metis option.sel)
      finally show ?thesis by blast
    qed
    have "sorted_wrt (<) (sorted_list_of_fset offs)"
      by (simp add: sorted_list_of_fset.rep_eq)
    then show "sorted_wrt (\<lambda>a b. if_offset a < if_offset b) ?fs"
      by (simp add: sorted_wrt_map) (rule sorted_wrt_mono_rel [rotated], assumption, simp add: own)
  qed
qed

lemma member_delivery_first:
  assumes "ds_wf ds"
  shows "member_delivery consumer member ds =
    (case member_deliveries consumer member ds of Inl e \<Rightarrow> Inl e | Inr [] \<Rightarrow> Inr None | Inr (d # _) \<Rightarrow> Inr (Some d))"
proof (cases "member_offsets consumer member ds")
  case None
  then show ?thesis by (simp add: member_delivery_def member_deliveries_def)
next
  case (Some offs)
  have "get_in_flight consumer off ds \<noteq> None" if "off |\<in>| offs" for off
    using member_offsets_iff(1) [OF assms, of consumer member] Some that by auto
  then have "\<And>off. off \<in> set (sorted_list_of_fset offs) \<Longrightarrow> get_in_flight consumer off ds \<noteq> None" by simp
  from collect_deliveries_Inr [OF this] this Some show ?thesis
    by (cases "sorted_list_of_fset offs") (auto simp: member_delivery_def member_deliveries_def split: option.split)
qed

subsection \<open>Expiry\<close>

lemma set_map_filter: "set (List.map_filter f xs) = {y. \<exists>x \<in> set xs. f x = Some y}"
  by (induction xs) (auto simp: map_filter_simps split: option.split)

lemma expired_deliveries_iff:
  assumes "ds_wf ds"
  shows "d \<in> set (expired_deliveries consumer now ds) \<longleftrightarrow>
    (\<exists>off. get_in_flight consumer off ds = Some d) \<and> if_deadline d \<le> now"
proof -
  have at: "(\<exists>t ks. fmlookup (in_flight_deadlines ds) t = Some ks \<and> t \<le> now \<and> k \<in> set ks) \<longleftrightarrow>
      (\<exists>t \<le> now. k \<in> set (keys_at t ds))" for k
    by (force simp: keys_at_def split: option.splits)
  have "d \<in> set (expired_deliveries consumer now ds) \<longleftrightarrow>
      (\<exists>k. (\<exists>t ks. fmlookup (in_flight_deadlines ds) t = Some ks \<and> t \<le> now \<and> k \<in> set ks) \<and>
         dk_consumer k = consumer \<and> fmlookup (in_flight_map ds) k = Some d) \<and> if_deadline d \<le> now"
    by (fastforce simp: expired_deliveries_def set_map_filter set_sorted_list_of_fmap)
  also have "\<dots> \<longleftrightarrow> (\<exists>off. (\<exists>t \<le> now. DeliveryKey consumer off \<in> set (keys_at t ds)) \<and>
      get_in_flight consumer off ds = Some d) \<and> if_deadline d \<le> now"
    unfolding at by (metis delivery_key.collapse delivery_key.sel(1) get_in_flight_def)
  also have "\<dots> \<longleftrightarrow> (\<exists>off. get_in_flight consumer off ds = Some d) \<and> if_deadline d \<le> now"
    using assms by (auto simp: ds_wf_def deadlines_ok_def)
  finally show ?thesis .
qed

text \<open>The offsets of the expired deliveries come out without repetition.\<close>

lemma keys_at_disjoint:
  assumes "ds_wf ds" "t \<noteq> t'"
  shows "set (keys_at t ds) \<inter> set (keys_at t' ds) = {}"
proof -
  have "k \<notin> set (keys_at t' ds)" if "k \<in> set (keys_at t ds)" for k
    using assms that by (cases k) (auto simp: ds_wf_def deadlines_ok_def)
  then show ?thesis by auto
qed

lemma distinct_slots:
  assumes "ds_wf ds" "distinct (map fst slots)" "\<And>t ks. (t, ks) \<in> set slots \<Longrightarrow> ks = keys_at t ds"
  shows "distinct (concat (map snd slots))"
  using assms(2,3)
proof (induction slots)
  case (Cons x slots)
  obtain t ks where x: "x = (t, ks)" by fastforce
  have ks: "ks = keys_at t ds" using Cons.prems(2) x by simp
  have "set ks \<inter> set ks' = {}" if "(t', ks') \<in> set slots" for t' ks'
  proof -
    have "t' \<noteq> t" using that Cons.prems(1) x by force
    moreover have "ks' = keys_at t' ds" using that Cons.prems(2) by simp
    ultimately show ?thesis using keys_at_disjoint [OF assms(1)] ks by simp
  qed
  then have "set ks \<inter> set (concat (map snd slots)) = {}" by fastforce
  moreover have "distinct (keys_at t ds)" using assms(1) by (simp add: ds_wf_def deadlines_ok_def)
  moreover have "distinct (concat (map snd slots))"
  proof (rule Cons.IH)
    show "distinct (map fst slots)" using Cons.prems(1) by simp
    show "ks = keys_at t ds" if "(t, ks) \<in> set slots" for t ks
      by (rule Cons.prems(2)) (simp add: that)
  qed
  ultimately show ?case by (simp add: x ks)
qed simp

lemma distinct_delivery_offsets:
  assumes "ds_wf ds" "distinct ks" "\<And>k. k \<in> set ks \<Longrightarrow> dk_consumer k = consumer"
  shows "distinct (map if_offset (filter P (List.map_filter (fmlookup (in_flight_map ds)) ks)))"
  using assms(2,3)
proof (induction ks)
  case (Cons k ks)
  have filed: "if_offset d = dk_offset k"
    if "dk_consumer k = consumer" "fmlookup (in_flight_map ds) k = Some d" for k d
    using assms(1) that unfolding ds_wf_def flights_ok_def get_in_flight_def by (metis delivery_key.collapse)
  have apart: "dk_offset k \<noteq> dk_offset k'" if "k' \<in> set ks" for k'
    using Cons.prems that by (metis delivery_key.expand distinct.simps(2) list.set_intros(1) list.set_intros(2))
  have "if_offset d \<notin> if_offset ` set (List.map_filter (fmlookup (in_flight_map ds)) ks)"
    if "fmlookup (in_flight_map ds) k = Some d" for d
  proof (rule notI)
    assume "if_offset d \<in> if_offset ` set (List.map_filter (fmlookup (in_flight_map ds)) ks)"
    then obtain k' d' where "k' \<in> set ks" "fmlookup (in_flight_map ds) k' = Some d'" "if_offset d = if_offset d'"
      by (auto simp: set_map_filter)
    with filed [of k d] filed [of k' d'] that Cons.prems(2) have "dk_offset k = dk_offset k'" by simp
    with apart [OF \<open>k' \<in> set ks\<close>] show False by blast
  qed
  with Cons show ?case by (auto simp: map_filter_simps split: option.split)
qed (simp add: map_filter_simps)

lemma expired_deliveries_distinct:
  assumes "ds_wf ds"
  shows "distinct (map if_offset (expired_deliveries consumer now ds))"
proof -
  let ?slots = "filter (\<lambda>(t, _). t \<le> now) (sorted_list_of_fmap (in_flight_deadlines ds))"
  have "distinct (map fst (sorted_list_of_fmap (in_flight_deadlines ds)))"
    by (simp add: sorted_list_of_fmap_def comp_def sorted_list_of_fset.rep_eq)
  then have "distinct (map fst ?slots)" by (rule distinct_map_filter)
  then have "distinct (concat (map snd ?slots))"
    by (rule distinct_slots [OF assms]) (auto simp: set_sorted_list_of_fmap keys_at_def)
  then have "distinct (filter (\<lambda>k. dk_consumer k = consumer) (concat (map snd ?slots)))"
    by (rule distinct_filter)
  from distinct_delivery_offsets [OF assms this, of consumer] show ?thesis
    unfolding expired_deliveries_def by simp
qed

section \<open>The cache\<close>

lemma evict_frame:
  "in_flight_map (evict_consumer_states order ds) = in_flight_map ds \<and>
   in_flight_deadlines (evict_consumer_states order ds) = in_flight_deadlines ds \<and>
   in_flight_by_consumer (evict_consumer_states order ds) = in_flight_by_consumer ds \<and>
   consumers_needing_reconcile (evict_consumer_states order ds) = consumers_needing_reconcile ds"
proof (induction order ds rule: evict_consumer_states.induct)
  case (1 order ds)
  show ?case
    by (subst (1 2 3 4) evict_consumer_states.simps) (use 1 in \<open>auto split: option.split\<close>)
qed

lemma evict_lookup:
  "fmlookup (consumer_states (evict_consumer_states order ds)) c = Some s \<Longrightarrow>
   fmlookup (consumer_states ds) c = Some s"
proof (induction order ds rule: evict_consumer_states.induct)
  case (1 order ds)
  from 1(2) show ?case
    by (subst (asm) evict_consumer_states.simps) (auto split: if_splits option.splits dest!: 1(1))
qed

lemma evicted_consumer_None:
  assumes "hash_order_ok order" "evicted_consumer order ds = None"
  shows "fmdom (consumer_states ds) = {||}"
proof -
  have "hash_keys order (consumer_states ds) = []"
    using assms(2) by (auto simp: evicted_consumer_def Let_def split: option.splits list.splits)
  with set_hash_keys [OF assms(1), of "consumer_states ds"] show ?thesis by (auto intro: fset_eqI)
qed

lemma evict_bound:
  assumes "hash_order_ok order"
  shows "fcard (fmdom (consumer_states (evict_consumer_states order ds))) \<le> MAX_CACHED_CONSUMER_STATES"
  using assms
proof (induction order ds rule: evict_consumer_states.induct)
  case (1 order ds)
  show ?case
  proof (cases "MAX_CACHED_CONSUMER_STATES < fcard (fmdom (consumer_states ds))")
    case True
    then have "fmdom (consumer_states ds) \<noteq> {||}" by (auto simp: fcard_fempty)
    then obtain c where c: "evicted_consumer order ds = Some c"
      using evicted_consumer_None [OF 1(2), of ds] by (cases "evicted_consumer order ds") auto
    with 1(1) [OF True c 1(2)] True show ?thesis by (subst evict_consumer_states.simps) simp
  next
    case False
    then show ?thesis by (subst evict_consumer_states.simps) simp
  qed
qed

text \<open>Operations that do not touch the deliveries keep the indexes.\<close>

lemma ds_wf_frame:
  assumes "in_flight_map ds' = in_flight_map ds" "in_flight_deadlines ds' = in_flight_deadlines ds"
    "in_flight_by_consumer ds' = in_flight_by_consumer ds"
  shows "ds_wf ds' = ds_wf ds" "get_in_flight c off ds' = get_in_flight c off ds"
proof -
  have "get_in_flight c off ds' = get_in_flight c off ds" "keys_at t ds' = keys_at t ds" "index_at c ds' = index_at c ds"
    for c off t
    using assms by (simp_all add: get_in_flight_def keys_at_def index_at_def)
  with assms show "ds_wf ds' = ds_wf ds" "get_in_flight c off ds' = get_in_flight c off ds"
    by (simp_all add: ds_wf_defs)
qed

lemma cache_frame [simp]:
  "ds_wf (cache_consumer_state order consumer state ds) = ds_wf ds"
  "get_in_flight c off (cache_consumer_state order consumer state ds) = get_in_flight c off ds"
  "consumers_needing_reconcile (cache_consumer_state order consumer state ds) = consumers_needing_reconcile ds"
  unfolding cache_consumer_state_def
  by (rule ds_wf_frame; simp add: evict_frame)+ (simp add: evict_frame)

lemma mark_frame [simp]:
  "ds_wf (mark_consumer_needs_reconcile consumer ds) = ds_wf ds"
  "get_in_flight c off (mark_consumer_needs_reconcile consumer ds) = get_in_flight c off ds"
  by (rule ds_wf_frame; simp add: mark_consumer_needs_reconcile_def)+

lemma reconcile_frame [simp]:
  "ds_wf (ds\<lparr>consumers_needing_reconcile := S\<rparr>) = ds_wf ds"
  "get_in_flight c off (ds\<lparr>consumers_needing_reconcile := S\<rparr>) = get_in_flight c off ds"
  by (rule ds_wf_frame; simp)+

lemma remove_delivery_frame [simp]:
  "consumer_states (remove_delivery consumer off ds) = consumer_states ds"
  "consumers_needing_reconcile (remove_delivery consumer off ds) = consumers_needing_reconcile ds"
  by (simp_all add: remove_delivery_def remove_in_flight_def split: option.split)

lemma remove_deliveries_frame [simp]:
  "consumer_states (fold (remove_delivery consumer) offs ds) = consumer_states ds"
  "consumers_needing_reconcile (fold (remove_delivery consumer) offs ds) = consumers_needing_reconcile ds"
  by (induction offs arbitrary: ds) simp_all

lemma insert_in_flight_frame [simp]:
  "consumer_states (insert_in_flight consumer d ds) = consumer_states ds"
  "consumers_needing_reconcile (insert_in_flight consumer d ds) = consumers_needing_reconcile ds"
  by (simp_all add: insert_in_flight_def Let_def)

lemma cache_lookup:
  "fmlookup (consumer_states (cache_consumer_state order consumer state ds)) c = Some s \<Longrightarrow>
   (if c = consumer then s = state else fmlookup (consumer_states ds) c = Some s)"
  unfolding cache_consumer_state_def by (drule evict_lookup) (auto split: if_splits)

end
