(* ===== verification/Delivery_Requests.thy ===== *)
theory Delivery_Requests
  imports Delivery_State Sample_Codec
begin

text \<open>
  How a request obtains the consumer's state (\<open>load_consumer_state_for_request\<close>), and the
  properties of the delivery state the broker builds on.
\<close>

section \<open>What a request sees of the consumer's state\<close>

text \<open>
  The cache and the files agree on the state \<open>s\<close> of the consumer: the files store it, a cached
  state is that state with no torn tail behind it, and a consumer to reconcile is not cached.
\<close>

definition consumer_view ::
  "codec \<Rightarrow> string \<Rightarrow> string \<Rightarrow> consumer_state \<Rightarrow> delivery_state \<times> consumer_store \<Rightarrow> bool" where
  "consumer_view cdc stream consumer s w \<longleftrightarrow>
     (\<exists>torn. stored cdc stream consumer s torn (snd w)) \<and>
     (\<forall>s'. fmlookup (consumer_states (fst w)) consumer = Some s' \<longrightarrow>
        s' = s \<and> stored_clean cdc stream consumer s (snd w) \<and> consumer |\<notin>| consumers_needing_reconcile (fst w))"

text \<open>Deliveries in flight are unsettled, unless the consumer still has to be reconciled.\<close>

definition flights_open :: "string \<Rightarrow> consumer_state \<Rightarrow> delivery_state \<Rightarrow> bool" where
  "flights_open consumer s ds \<longleftrightarrow>
     consumer |\<in>| consumers_needing_reconcile ds \<or> (\<forall>off. get_in_flight consumer off ds \<noteq> None \<longrightarrow> \<not> settled s off)"

lemma hoare_on_store:
  "hoare P m Q R \<Longrightarrow>
   hoare (\<lambda>w. P (snd w) \<and> F (fst w)) (on_store m) (\<lambda>x w. Q x (snd w) \<and> F (fst w)) (\<lambda>e w. R e (snd w) \<and> F (fst w))"
proof (rule hoareI)
  fix w x w1
  assume h: "hoare P m Q R" and pre: "P (snd w) \<and> F (fst w)"
  have run: "m (snd w) = (r, snd w1) \<and> fst w1 = fst w" if "on_store m w = (r, w1)" for r
    using that by (auto simp: on_store_def zoom_def split: prod.splits)
  show "Q x (snd w1) \<and> F (fst w1)" if "on_store m w = (Inr x, w1)"
    using hoareD_ok [OF h, of "snd w"] run [OF that] pre by simp
  show "R e (snd w1) \<and> F (fst w1)" if "on_store m w = (Inl e, w1)" for e
    using hoareD_err [OF h, of "snd w"] run [OF that] pre by simp
qed

lemma hoare_sync:
  assumes "script_free P"
  shows "hoare P sync_consumer_state_journal (\<lambda>_. P) (\<lambda>_. P)"
proof -
  have "hoare (\<lambda>d. P d \<and> j = cf_journal d)
      (case j of None \<Rightarrow> return_op () | Some _ \<Rightarrow> and_then (map_error Io syscall) (\<lambda>_. map_error Io syscall))
      (\<lambda>_. P) (\<lambda>_. P)" for j
  proof (rule hoare_weaken_pre [of P])
    show "hoare P (case j of None \<Rightarrow> return_op () | Some _ \<Rightarrow> and_then (map_error Io syscall) (\<lambda>_. map_error Io syscall))
        (\<lambda>_. P) (\<lambda>_. P)"
      using assms by (cases j) (auto intro!: hoare_and_then_syscall hoare_syscall hoare_return)
  qed simp
  then show ?thesis
    unfolding sync_consumer_state_journal_def by (intro hoare_and_then_reads)
qed

lemma set_stale_offsets:
  assumes "hash_order_ok (ho_keys ho)"
  shows "off \<in> set (stale_offsets ho consumer s ds) \<longleftrightarrow> get_in_flight consumer off ds \<noteq> None \<and> settled s off"
proof -
  have "off \<in> set (stale_offsets ho consumer s ds) \<longleftrightarrow>
      (\<exists>k. k |\<in>| fmdom (in_flight_map ds) \<and> dk_consumer k = consumer \<and> dk_offset k = off \<and> settled s off)"
    by (auto simp: stale_offsets_def set_hash_keys [OF assms] settled_def image_iff)
  also have "\<dots> \<longleftrightarrow> DeliveryKey consumer off |\<in>| fmdom (in_flight_map ds) \<and> settled s off"
    by (auto intro: exI [of _ "DeliveryKey consumer off"])
  also have "\<dots> \<longleftrightarrow> get_in_flight consumer off ds \<noteq> None \<and> settled s off"
    by (simp add: get_in_flight_def fmlookup_dom_iff)
  finally show ?thesis .
qed

lemma reconciled_ok:
  assumes "hash_order_ok (ho_keys ho)" "ds_wf ds"
  shows "ds_wf (reconciled ho consumer s ds)"
    and "get_in_flight consumer off (reconciled ho consumer s ds) =
      (if settled s off then None else get_in_flight consumer off ds)"
    and "flights_open consumer s (reconciled ho consumer s ds)"
    and "consumer |\<notin>| consumers_needing_reconcile (reconciled ho consumer s ds)"
proof -
  show "ds_wf (reconciled ho consumer s ds)"
    using flights.inv_dels [OF assms(2)] by (simp add: reconciled_def)
  show g: "get_in_flight consumer off (reconciled ho consumer s ds) =
      (if settled s off then None else get_in_flight consumer off ds)" for off
    by (simp add: reconciled_def flights.lookup_dels set_stale_offsets [OF assms(1)])
  show "consumer |\<notin>| consumers_needing_reconcile (reconciled ho consumer s ds)"
    by (simp add: reconciled_def)
  show "flights_open consumer s (reconciled ho consumer s ds)"
    by (auto simp: flights_open_def g)
qed

definition request_ok ::
  "codec \<Rightarrow> string \<Rightarrow> string \<Rightarrow> consumer_state \<Rightarrow> delivery_state \<times> consumer_store \<Rightarrow> bool" where
  "request_ok cdc stream consumer s w \<longleftrightarrow>
     consumer_view cdc stream consumer s w \<and> ds_wf (fst w) \<and> flights_open consumer s (fst w)"

text \<open>Reading the files while the consumer is not cached.\<close>

lemma hoare_request_load:
  assumes "codec_ok cdc"
  shows "hoare (\<lambda>w. request_ok cdc stream consumer s w \<and> fst w = ds \<and> fmlookup (consumer_states ds) consumer = None)
      (on_store (load_consumer_state cdc stream consumer))
      (\<lambda>x w. x = s \<and> stored_clean cdc stream consumer s (snd w) \<and> request_ok cdc stream consumer s w \<and>
         fst w = ds \<and> fmlookup (consumer_states ds) consumer = None)
      (\<lambda>_. request_ok cdc stream consumer s)"
proof (rule hoareI)
  fix w x w1
  assume pre: "request_ok cdc stream consumer s w \<and> fst w = ds \<and> fmlookup (consumer_states ds) consumer = None"
  then obtain torn where torn: "stored cdc stream consumer s torn (snd w)"
    by (auto simp: request_ok_def consumer_view_def)
  note h = hoare_on_store [OF hoare_load [OF assms], of stream consumer s torn "\<lambda>ds'. ds' = ds"]
  have frame: "request_ok cdc stream consumer s w1"
    if "fst w1 = ds" "stored cdc stream consumer s t (snd w1)" for t
    using pre that by (auto simp: request_ok_def consumer_view_def)
  show "x = s \<and> stored_clean cdc stream consumer s (snd w1) \<and> request_ok cdc stream consumer s w1 \<and>
      fst w1 = ds \<and> fmlookup (consumer_states ds) consumer = None"
    if "on_store (load_consumer_state cdc stream consumer) w = (Inr x, w1)"
  proof -
    from hoareD_ok [OF h _ that] pre torn
    have "x = s" "stored_clean cdc stream consumer s (snd w1)" "fst w1 = ds" by simp_all
    with frame pre show ?thesis by simp
  qed
  show "request_ok cdc stream consumer s w1" if "on_store (load_consumer_state cdc stream consumer) w = (Inl e, w1)" for e
  proof -
    from hoareD_err [OF h _ that] pre torn
    have "stored cdc stream consumer s torn (snd w1) \<or> stored_clean cdc stream consumer s (snd w1)" "fst w1 = ds"
      by simp_all
    with frame show ?thesis by metis
  qed
qed

lemma request_reconciled:
  assumes "hash_order_ok (ho_keys ho)" "stored_clean cdc stream consumer s d" "ds_wf ds"
  shows "request_ok cdc stream consumer s (reconciled ho consumer s ds, d)"
proof -
  have "s' = s" if "fmlookup (consumer_states (reconciled ho consumer s ds)) consumer = Some s'" for s'
    using cache_lookup [OF that [unfolded reconciled_def]] by simp
  with reconciled_ok [OF assms(1,3), where consumer = consumer and s = s] assms(2) show ?thesis
    by (auto simp: request_ok_def consumer_view_def)
qed

abbreviation request_loaded where
  "request_loaded cdc stream consumer s x w \<equiv>
     x = s \<and> request_ok cdc stream consumer s w \<and> stored_clean cdc stream consumer s (snd w) \<and>
     consumer |\<notin>| consumers_needing_reconcile (fst w)"

lemma hoare_request_reconcile:
  assumes "hash_order_ok (ho_keys ho)"
  shows "hoare (\<lambda>w. stored_clean cdc stream consumer s (snd w) \<and> request_ok cdc stream consumer s w \<and>
        fst w = ds \<and> fmlookup (consumer_states ds) consumer = None)
      (and_then (on_store sync_consumer_state_journal) (\<lambda>_.
        and_then (modify (\<lambda>w. (reconciled ho consumer s (fst w), snd w))) (\<lambda>_. return_op s)))
      (request_loaded cdc stream consumer s) (\<lambda>_. request_ok cdc stream consumer s)"
proof -
  let ?G = "\<lambda>ds'. ds' = ds \<and> ds_wf ds \<and> fmlookup (consumer_states ds) consumer = None \<and> flights_open consumer s ds"
  let ?P = "\<lambda>w. stored_clean cdc stream consumer s (snd w) \<and> ?G (fst w)"
  have ok: "?P w \<Longrightarrow> request_ok cdc stream consumer s w" for w
    by (auto simp: request_ok_def consumer_view_def)
  have "script_free (stored_clean cdc stream consumer s)" by (simp add: script_free_def)
  from hoare_on_store [OF hoare_sync [OF this], of ?G]
  have sync: "hoare ?P (on_store sync_consumer_state_journal) (\<lambda>_. ?P) (\<lambda>_. request_ok cdc stream consumer s)"
    by (rule hoare_strengthen_post) (use ok in blast)+
  have "request_loaded cdc stream consumer s s (reconciled ho consumer s (fst w), snd w)" if "?P w" for w
    using request_reconciled [OF assms, of cdc stream consumer s "snd w" "fst w"]
      reconciled_ok(4) [OF assms, of "fst w" consumer s] that by auto
  then have "hoare ?P (and_then (modify (\<lambda>w. (reconciled ho consumer s (fst w), snd w))) (\<lambda>_. return_op s))
      (request_loaded cdc stream consumer s) (\<lambda>_. request_ok cdc stream consumer s)"
    unfolding hoare_def by (auto simp: op_simps)
  with sync have "hoare ?P (and_then (on_store sync_consumer_state_journal) (\<lambda>_.
        and_then (modify (\<lambda>w. (reconciled ho consumer s (fst w), snd w))) (\<lambda>_. return_op s)))
      (request_loaded cdc stream consumer s) (\<lambda>_. request_ok cdc stream consumer s)"
    by (rule hoare_and_then)
  then show ?thesis by (rule hoare_weaken_pre) (auto simp: request_ok_def)
qed

lemma hoare_load_for_request:
  assumes "codec_ok cdc" "hash_order_ok (ho_keys ho)"
  shows "hoare (request_ok cdc stream consumer s) (load_consumer_state_for_request cdc ho stream consumer)
    (request_loaded cdc stream consumer s) (\<lambda>_. request_ok cdc stream consumer s)"
    (is "hoare ?P _ ?Q ?R")
proof (unfold load_consumer_state_for_request_def, rule hoare_and_then_reads)
  fix ds :: delivery_state
  note load = hoare_request_load [OF assms(1), of stream consumer s ds]
  have rest: "hoare (\<lambda>w. x = s \<and> stored_clean cdc stream consumer s (snd w) \<and> ?P w \<and>
        fst w = ds \<and> fmlookup (consumer_states ds) consumer = None)
      (and_then (on_store sync_consumer_state_journal) (\<lambda>_.
        and_then (modify (\<lambda>w. (reconciled ho consumer x (fst w), snd w))) (\<lambda>_. return_op x))) ?Q ?R" for x
    using hoare_request_reconcile [OF assms(2), of cdc stream consumer s ds] by (cases "x = s") (simp_all add: hoare_def)
  consider "consumer |\<in>| consumers_needing_reconcile ds"
    | "consumer |\<notin>| consumers_needing_reconcile ds" "fmlookup (consumer_states ds) consumer = None"
    | c where "consumer |\<notin>| consumers_needing_reconcile ds" "fmlookup (consumer_states ds) consumer = Some c"
    by (cases "fmlookup (consumer_states ds) consumer") auto
  then show "hoare (\<lambda>w. ?P w \<and> ds = fst w)
      (if consumer |\<in>| consumers_needing_reconcile ds
       then and_then (on_store (load_consumer_state cdc stream consumer)) (\<lambda>recovered.
            and_then (on_store sync_consumer_state_journal) (\<lambda>_.
            and_then (modify (\<lambda>w. (reconciled ho consumer recovered (fst w), snd w))) (\<lambda>_. return_op recovered)))
       else case fmlookup (consumer_states ds) consumer of
              Some cached \<Rightarrow> return_op cached
            | None \<Rightarrow> on_store (load_consumer_state cdc stream consumer)) ?Q ?R"
  proof cases
    case 1
    have "?P w \<and> ds = fst w \<Longrightarrow> ?P w \<and> fst w = ds \<and> fmlookup (consumer_states ds) consumer = None" for w
      using 1 by (cases "fmlookup (consumer_states ds) consumer") (auto simp: request_ok_def consumer_view_def)
    from hoare_and_then [OF hoare_weaken_pre [OF load this] rest] 1 show ?thesis by simp
  next
    case 2
    have "hoare (\<lambda>w. ?P w \<and> ds = fst w) (on_store (load_consumer_state cdc stream consumer)) ?Q ?R"
      by (rule hoare_weaken_pre [OF hoare_strengthen_post [OF load]]) (use 2 in auto)
    with 2 show ?thesis by simp
  next
    case (3 c)
    then show ?thesis
      by (auto simp: hoare_def return_op_def request_ok_def consumer_view_def)
  qed
qed

section \<open>Properties\<close>

text \<open>The operations of the delivery state as steps, in any order the broker may apply them.\<close>

inductive delivery_step :: "hash_orders \<Rightarrow> delivery_state \<Rightarrow> delivery_state \<Rightarrow> bool" for ho where
  step_insert: "insertable consumer d ds \<Longrightarrow> delivery_step ho ds (insert_in_flight consumer d ds)"
| step_remove: "delivery_step ho ds (remove_delivery consumer off ds)"
| step_cache: "delivery_step ho ds (cache_consumer_state (ho_consumers ho) consumer s ds)"
| step_mark: "delivery_step ho ds (mark_consumer_needs_reconcile consumer ds)"
| step_reconcile: "delivery_step ho ds (reconciled ho consumer s ds)"

inductive_cases delivery_stepE: "delivery_step ho ds ds'"

definition cache_bounded :: "delivery_state \<Rightarrow> bool" where
  "cache_bounded ds \<longleftrightarrow> fcard (fmdom (consumer_states ds)) \<le> MAX_CACHED_CONSUMER_STATES"

lemma fcard_drop_le: "fcard (fmdom (fmdrop c m)) \<le> fcard (fmdom m)"
  by (metis fcard_mono fmdom_drop fminus_fsubset)

lemma cache_bounded_ops:
  "cache_bounded ds \<Longrightarrow> cache_bounded (insert_in_flight consumer d ds)"
  "cache_bounded ds \<Longrightarrow> cache_bounded (remove_delivery consumer off ds)"
  "hash_order_ok order \<Longrightarrow> cache_bounded (cache_consumer_state order consumer s ds)"
  "cache_bounded ds \<Longrightarrow> cache_bounded (mark_consumer_needs_reconcile consumer ds)"
  using fcard_drop_le [of consumer "consumer_states ds"]
  by (simp_all add: cache_bounded_def cache_consumer_state_def evict_bound mark_consumer_needs_reconcile_def del: fmdom_drop)

lemma delivery_step_inv:
  assumes "hash_order_ok (ho_consumers ho)" "hash_order_ok (ho_keys ho)" "delivery_step ho ds ds'"
    and "ds_wf ds" "cache_bounded ds"
  shows "ds_wf ds' \<and> cache_bounded ds'"
  using assms(3)
proof cases
  case (step_reconcile consumer s)
  with assms reconciled_ok(1) cache_bounded_ops(3) show ?thesis by (simp add: reconciled_def)
qed (use assms in \<open>simp_all add: ds_wf_insert ds_wf_remove cache_bounded_ops\<close>)

text \<open>C5: In every state the operations reach from the empty one, for every hash order, the deadline,
  key, offset and member indexes agree exactly with the deliveries in flight, one consumer never
  holds two deliveries with the same key, and the cache of consumer states stays bounded.\<close>

theorem delivery_indexes_agree:
  assumes "hash_order_ok (ho_consumers ho)" "hash_order_ok (ho_keys ho)"
    and "(delivery_step ho)\<^sup>*\<^sup>* new_delivery_state ds"
  shows "ds_wf ds \<and> fcard (fmdom (consumer_states ds)) \<le> MAX_CACHED_CONSUMER_STATES"
proof -
  have "ds_wf ds \<and> cache_bounded ds"
    using assms(3)
  proof (induction rule: rtranclp_induct)
    case base
    show ?case by (simp add: cache_bounded_def) (simp add: new_delivery_state_def fcard_fempty)
  next
    case (step ds ds')
    with delivery_step_inv [OF assms(1,2)] show ?case by blast
  qed
  then show ?thesis by (simp add: cache_bounded_def)
qed

definition sorted_orders :: hash_orders where
  "sorted_orders = \<lparr>ho_keys = sorted_list_of_fset, ho_consumers = sorted_list_of_fset\<rparr>"

lemma sorted_orders_ok: "hash_order_ok (ho_consumers sorted_orders)" "hash_order_ok (ho_keys sorted_orders)"
  by (simp_all add: sorted_orders_def hash_order_sorted)

definition sample_flight :: "nat \<Rightarrow> in_flight" where
  "sample_flight off = \<lparr>if_member = ''m'', if_offset = off, if_key = Some ''k'', if_delivery_attempt = 1,
     if_delivery_token = ''t'', if_requires_receipt = True, if_deadline = 5\<rparr>"

lemma insertable_new: "insertable consumer (sample_flight off) new_delivery_state"
  by (simp add: insertable_def get_in_flight_def index_at_def empty_index_def new_delivery_state_def)

theorem delivery_indexes_agree_witness:
  "ds_wf (insert_in_flight ''c'' (sample_flight 3) new_delivery_state) \<and>
   fcard (fmdom (consumer_states (insert_in_flight ''c'' (sample_flight 3) new_delivery_state))) \<le> MAX_CACHED_CONSUMER_STATES"
  by (rule delivery_indexes_agree [OF sorted_orders_ok])
    (rule r_into_rtranclp, rule step_insert, rule insertable_new)

text \<open>C30: The expiry query returns exactly the deliveries of the consumer whose deadline has passed,
  each once, although it only visits the deadline index up to the present.\<close>

theorem expired_deliveries_exact:
  assumes "ds_wf ds"
  shows "distinct (map if_offset (expired_deliveries consumer now ds)) \<and>
    set (expired_deliveries consumer now ds) =
      {d. (\<exists>off. get_in_flight consumer off ds = Some d) \<and> if_deadline d \<le> now}"
  using expired_deliveries_distinct [OF assms] expired_deliveries_iff [OF assms] by auto

theorem expired_deliveries_exact_witness:
  "expired_deliveries ''c'' 5 (insert_in_flight ''c'' (sample_flight 3) new_delivery_state) = [sample_flight 3] \<and>
   set (expired_deliveries ''c'' 5 (insert_in_flight ''c'' (sample_flight 3) new_delivery_state)) =
     {d. (\<exists>off. get_in_flight ''c'' off (insert_in_flight ''c'' (sample_flight 3) new_delivery_state) = Some d) \<and>
         if_deadline d \<le> 5}"
proof
  have "ds_wf (insert_in_flight ''c'' (sample_flight 3) new_delivery_state)"
    by (rule ds_wf_insert [OF ds_wf_new insertable_new])
  from expired_deliveries_exact [OF this] show
    "set (expired_deliveries ''c'' 5 (insert_in_flight ''c'' (sample_flight 3) new_delivery_state)) =
     {d. (\<exists>off. get_in_flight ''c'' off (insert_in_flight ''c'' (sample_flight 3) new_delivery_state) = Some d) \<and>
         if_deadline d \<le> 5}" by blast
qed code_simp

text \<open>C31: The filter a poll computes while planning expiries, without changing the table, is the
  filter it would see after removing those deliveries: releasing a delivery releases its offset
  and its key, and nothing else.\<close>

theorem filter_excluding_is_filter_after_removal:
  assumes "ds_wf ds"
  shows "in_flight_filter_excluding consumer (fset_of_list offs) ds =
    (case in_flight_filter consumer (fold (remove_delivery consumer) offs ds) of
       None \<Rightarrow> ({||}, {||}) | Some f \<Rightarrow> f)"
  using filter_excluding_removed [OF assms, of consumer offs]
  by (simp add: in_flight_filter_excluding_def [of consumer "{||}"])

theorem filter_excluding_is_filter_after_removal_witness:
  "in_flight_filter_excluding ''c'' (fset_of_list [3]) (insert_in_flight ''c'' (sample_flight 3) new_delivery_state) =
    (case in_flight_filter ''c'' (fold (remove_delivery ''c'') [3] (insert_in_flight ''c'' (sample_flight 3) new_delivery_state)) of
       None \<Rightarrow> ({||}, {||}) | Some f \<Rightarrow> f)"
  by (rule filter_excluding_is_filter_after_removal [OF ds_wf_insert [OF ds_wf_new insertable_new]])


lemma empty_view:
  "consumer_view cdc stream consumer (new_consumer_state stream consumer)
     (new_delivery_state, \<lparr>cf_checkpoint = None, cf_journal = None, cf_script = fs\<rparr>)"
  using stored_new [of cdc stream consumer fs] by (auto simp: consumer_view_def new_delivery_state_def)


subsection \<open>Delivery tokens\<close>

lemma hex_no_dash: "CHR ''-'' \<notin> set (hex_string n)"
proof -
  have "CHR ''-'' \<notin> digit_char ` {..<16}" by code_simp
  with radix_string_digits [of 16 n] show ?thesis by auto
qed

lemma token_inject:
  "hex_string e @ ''-'' @ hex_string n = hex_string e' @ ''-'' @ hex_string n' \<longleftrightarrow> e = e' \<and> n = n'"
proof
  assume eq: "hex_string e @ ''-'' @ hex_string n = hex_string e' @ ''-'' @ hex_string n'"
  have "takeWhile (\<lambda>c. c \<noteq> CHR ''-'') (hex_string k @ ''-'' @ xs) = hex_string k" for k xs
    using hex_no_dash [of k] by (subst takeWhile_append2) auto
  with eq have "hex_string e = hex_string e'" by metis
  with eq show "e = e' \<and> n = n'" by simp
qed simp

lemma next_token_sel:
  "tg_next_id (snd (next_token g)) = (tg_next_id g + 1) mod 2 ^ 64" "tg_epoch (snd (next_token g)) = tg_epoch g"
  by (simp_all add: next_token_def Let_def wrapping_add64_def)

lemma next_token_string:
  "fst (next_token g) = hex_string (tg_epoch g) @ ''-'' @ hex_string (wrapping_add64 (tg_next_id g) 1)"
  by (simp add: next_token_def Let_def)

lemma next_token_epoch: "tg_epoch (((\<lambda>g. snd (next_token g)) ^^ n) g) = tg_epoch g"
  by (induction n) (simp_all add: next_token_sel)

lemma next_token_iterate:
  "tg_next_id (((\<lambda>g. snd (next_token g)) ^^ n) g) mod 2 ^ 64 = (tg_next_id g + n) mod 2 ^ 64"
proof (induction n)
  case (Suc n)
  let ?h = "((\<lambda>g. snd (next_token g)) ^^ n) g"
  have "tg_next_id (((\<lambda>g. snd (next_token g)) ^^ Suc n) g) mod 2 ^ 64 = (tg_next_id ?h + 1) mod 2 ^ 64"
    by (simp only: funpow.simps comp_def next_token_sel mod_mod_trivial)
  also have "\<dots> = (tg_next_id ?h mod 2 ^ 64 + 1) mod 2 ^ 64" by (rule mod_add_left_eq [symmetric])
  also have "\<dots> = (tg_next_id g + n + 1) mod 2 ^ 64" unfolding Suc by (rule mod_add_left_eq)
  finally show ?case by (simp only: add.assoc Suc_eq_plus1)
qed simp

text \<open>C36: The tokens of the first \<open>2 ^ 64\<close> deliveries of a broker process are pairwise different, so a
  receipt names one delivery.\<close>

theorem delivery_tokens_distinct:
  assumes "i < j" "j < 2 ^ 64"
  shows "fst (next_token (((\<lambda>g. snd (next_token g)) ^^ i) g)) \<noteq> fst (next_token (((\<lambda>g. snd (next_token g)) ^^ j) g))"
proof
  assume eq: "fst (next_token (((\<lambda>g. snd (next_token g)) ^^ i) g)) = fst (next_token (((\<lambda>g. snd (next_token g)) ^^ j) g))"
  have id: "wrapping_add64 (tg_next_id (((\<lambda>g. snd (next_token g)) ^^ n) g)) 1 = (tg_next_id g + n + 1) mod 2 ^ 64" for n
    unfolding wrapping_add64_def by (metis mod_add_left_eq next_token_iterate)
  from eq have "(tg_next_id g + i + 1) mod 2 ^ 64 = (tg_next_id g + j + 1) mod 2 ^ 64"
    by (simp only: next_token_string token_inject id)
  then have "(j - i) mod 2 ^ 64 = 0"
    using assms(1) mod_eq_dvd_iff_nat [of "tg_next_id g + i + 1" "tg_next_id g + j + 1" "2 ^ 64"] by auto
  with assms show False by simp
qed

theorem delivery_tokens_distinct_witness:
  "fst (next_token \<lparr>tg_epoch = 171, tg_next_id = 2 ^ 64 - 1\<rparr>) = ''ab-0'' \<and>
   fst (next_token (((\<lambda>g. snd (next_token g)) ^^ 0) \<lparr>tg_epoch = 171, tg_next_id = 2 ^ 64 - 1\<rparr>)) \<noteq>
   fst (next_token (((\<lambda>g. snd (next_token g)) ^^ 1) \<lparr>tg_epoch = 171, tg_next_id = 2 ^ 64 - 1\<rparr>))"
  using delivery_tokens_distinct [of 0 1 "\<lparr>tg_epoch = 171, tg_next_id = 2 ^ 64 - 1\<rparr>"]
  by (simp add: next_token_def wrapping_add64_def radix_string.simps digit_char_def) code_simp

end
