(* ===== verification/Crc32c.thy ===== *)
theory Crc32c
  imports Runnel_Prelude
begin

text \<open>
  The record checksum of \<open>crates/runnel-core/src/stream_log.rs\<close>: CRC-32C by table lookup. The
  table driven update is proved equal to the bit-serial definition, streaming over pieces to
  one pass, and every corruption confined to four consecutive bytes to change the checksum.
\<close>

unbundle bit_operations_syntax

type_synonym u32 = "32 word"

section \<open>Definitions\<close>

definition crc32c_bit :: "u32 \<Rightarrow> u32" where
  "crc32c_bit value = (if value AND 1 = 1 then drop_bit 1 value XOR 0x82f63b78 else drop_bit 1 value)"

definition crc32c_table :: "u32 list" where
  "crc32c_table = map (\<lambda>index. (crc32c_bit ^^ 8) (word_of_nat index)) [0..<256]"

definition crc32c_byte :: "byte \<Rightarrow> u32 \<Rightarrow> u32" where
  "crc32c_byte b checksum =
     (let table_index = unat ((checksum XOR ucast b) AND 0xff)
      in drop_bit 8 checksum XOR crc32c_table ! table_index)"

definition crc32c_update :: "u32 \<Rightarrow> bytes \<Rightarrow> u32" where
  "crc32c_update checksum bs = fold crc32c_byte bs checksum"

definition crc32c_finalize :: "u32 \<Rightarrow> u32" where
  "crc32c_finalize checksum = NOT checksum"

section \<open>The table agrees with the bit-serial definition\<close>

text \<open>The reference: shift in one byte, bit by bit.\<close>

definition crc32c_serial :: "byte \<Rightarrow> u32 \<Rightarrow> u32" where
  "crc32c_serial b checksum = (crc32c_bit ^^ 8) (checksum XOR ucast b)"

lemma and_one_bit: "(x::u32) AND 1 = 1 \<longleftrightarrow> bit x 0"
  by (simp add: and_one_eq odd_iff_mod_2_eq_one bit_0)

lemma crc32c_bit_bit:
  "bit (crc32c_bit x) n \<longleftrightarrow> n < 32 \<and> (bit x (Suc n) \<noteq> (bit x 0 \<and> bit (0x82f63b78 :: u32) n))"
  by (cases "n < 32") (auto simp: crc32c_bit_def and_one_bit bit_xor_iff bit_drop_bit_eq dest: bit_imp_le_length)

lemma crc32c_bit_xor: "crc32c_bit (x XOR y) = crc32c_bit x XOR crc32c_bit y"
  by (rule bit_word_eqI) (auto simp: crc32c_bit_bit bit_xor_iff)

lemma crc32c_bits_xor: "(crc32c_bit ^^ n) (x XOR y) = (crc32c_bit ^^ n) x XOR (crc32c_bit ^^ n) y"
  by (induction n) (simp_all add: crc32c_bit_xor)

lemma crc32c_bits_shift:
  "(\<And>i. i < n \<Longrightarrow> \<not> bit x i) \<Longrightarrow> (crc32c_bit ^^ n) x = drop_bit n x"
proof (induction n arbitrary: x)
  case (Suc n)
  from Suc.prems have "\<not> bit x 0" by blast
  then have "crc32c_bit x = drop_bit 1 x" by (simp add: crc32c_bit_def and_one_bit)
  moreover have "\<not> bit (drop_bit 1 x) i" if "i < n" for i
    using Suc.prems [of "Suc i"] that by (simp add: bit_drop_bit_eq)
  ultimately show ?case
    using Suc.IH [of "drop_bit 1 x"] by (simp add: funpow_swap1 drop_bit_drop_bit)
qed simp

lemma low_byte_bit: "bit ((x::u32) AND 0xff) n \<longleftrightarrow> n < 8 \<and> bit x n"
proof -
  have "(0xff :: u32) = mask 8" by (simp add: mask_eq_exp_minus_1)
  then have "bit (0xff :: u32) n \<longleftrightarrow> bit (mask 8 :: u32) n" by (simp only:)
  then have "bit (0xff :: u32) n \<longleftrightarrow> n < 8" by (auto simp: bit_mask_iff simp del: mask_numeral)
  then show ?thesis by (auto simp: bit_and_iff)
qed

lemma low_byte_bound: "unat ((x::u32) AND 0xff) < 256"
proof -
  have "x AND 0xff = take_bit 8 x"
    by (rule bit_word_eqI) (auto simp: low_byte_bit bit_take_bit_iff)
  then have "unat (x AND 0xff) = take_bit 8 (unat x)" by (simp add: unsigned_take_bit_eq)
  then show ?thesis by (simp add: take_bit_eq_mod)
qed

lemma crc32c_byte_serial: "crc32c_byte b checksum = crc32c_serial b checksum"
proof -
  let ?x = "checksum XOR ucast b" and ?low = "(checksum XOR ucast b) AND (0xff :: u32)"
  have high: "\<not> bit (?x XOR ?low) i" if "i < 8" for i
    using that by (auto simp: bit_xor_iff low_byte_bit)
  have "drop_bit 8 (?x XOR ?low) = drop_bit 8 checksum"
    by (rule bit_word_eqI) (auto simp: bit_drop_bit_eq bit_xor_iff low_byte_bit bit_ucast_iff dest: bit_imp_le_length)
  with crc32c_bits_shift [of 8 "?x XOR ?low"] high
  have high8: "(crc32c_bit ^^ 8) (?x XOR ?low) = drop_bit 8 checksum" by simp
  have "crc32c_table ! unat ?low = (crc32c_bit ^^ 8) ?low"
    using low_byte_bound [of ?x] by (simp add: crc32c_table_def)
  then have "crc32c_byte b checksum = (crc32c_bit ^^ 8) ((?x XOR ?low) XOR ?low)"
    unfolding crc32c_bits_xor [of 8 "?x XOR ?low"] high8 by (simp add: crc32c_byte_def)
  then show ?thesis by (simp add: crc32c_serial_def xor.assoc)
qed

section \<open>Streaming\<close>

lemma crc32c_update_append: "crc32c_update c (xs @ ys) = crc32c_update (crc32c_update c xs) ys"
  by (simp add: crc32c_update_def)

lemma crc32c_update_Nil [simp]: "crc32c_update c [] = c"
  by (simp add: crc32c_update_def)

lemma crc32c_update_serial: "crc32c_update c bs = fold crc32c_serial bs c"
proof -
  have "crc32c_byte = crc32c_serial" by (intro ext) (rule crc32c_byte_serial)
  then show ?thesis by (simp add: crc32c_update_def)
qed

section \<open>Detected corruptions\<close>

lemma crc32c_bit_inj: "crc32c_bit x = crc32c_bit y \<Longrightarrow> x = y"
proof (rule bit_word_eqI)
  fix n
  assume eq: "crc32c_bit x = crc32c_bit y" and n: "n < LENGTH(32)"
  then have bits: "bit (crc32c_bit x) i = bit (crc32c_bit y) i" for i by simp
  have top: "bit (0x82f63b78 :: u32) 31" by simp
  have "\<not> bit x 32" "\<not> bit y 32" using bit_imp_le_length [of x 32] bit_imp_le_length [of y 32] by auto
  with bits [of 31] top have low: "bit x 0 = bit y 0" by (simp add: crc32c_bit_bit)
  show "bit x n = bit y n"
  proof (cases n)
    case 0
    with low show ?thesis by simp
  next
    case (Suc m)
    with bits [of m] low n show ?thesis by (auto simp: crc32c_bit_bit)
  qed
qed

lemma crc32c_bits_inj: "(crc32c_bit ^^ n) x = (crc32c_bit ^^ n) y \<Longrightarrow> x = y"
  by (induction n) (auto dest: crc32c_bit_inj)

lemma xor_cancel: "(a::u32) XOR b = c XOR b \<Longrightarrow> a = c" "(b::u32) XOR a = b XOR c \<Longrightarrow> a = c"
proof -
  show "a = c" if "a XOR b = c XOR b"
    using arg_cong [OF that, of "\<lambda>x. x XOR b"] by (simp add: xor.assoc)
  show "a = c" if "b XOR a = b XOR c"
    using arg_cong [OF that, of "\<lambda>x. b XOR x"] by (simp add: xor.assoc [symmetric])
qed

lemma crc32c_update_inj: "crc32c_update c xs = crc32c_update d xs \<Longrightarrow> c = d"
proof (induction xs arbitrary: c d)
  case (Cons x xs)
  then have "crc32c_byte x c = crc32c_byte x d" by (simp add: crc32c_update_def)
  then have "c XOR ucast x = d XOR ucast x"
    by (simp add: crc32c_byte_serial crc32c_serial_def) (rule crc32c_bits_inj)
  then show ?case by (rule xor_cancel)
qed simp

text \<open>A short burst enters the register as one word.\<close>

primrec burst :: "bytes \<Rightarrow> u32" where
  "burst [] = 0"
| "burst (b # bs) = ucast b XOR push_bit 8 (burst bs)"

lemma burst_bit: "bit (burst bs) n \<longleftrightarrow> n < 32 \<and> n div 8 < length bs \<and> bit (bs ! (n div 8)) (n mod 8)"
proof (induction bs arbitrary: n)
  case (Cons b bs)
  show ?case
  proof (cases "n < 8")
    case True
    then show ?thesis by (simp add: bit_xor_iff bit_push_bit_iff bit_ucast_iff)
  next
    case False
    then obtain m where m: "n = 8 + m" using le_Suc_ex linorder_not_less by blast
    have "\<not> bit b n" using False bit_imp_le_length [of b n] by auto
    with Cons.IH [of m] m show ?thesis
      by (auto simp: bit_xor_iff bit_push_bit_iff bit_ucast_iff)
  qed
qed simp

lemma burst_shift:
  assumes "length bs \<le> 3"
  shows "(crc32c_bit ^^ 8) (push_bit 8 (burst bs)) = burst bs"
proof -
  have "(crc32c_bit ^^ 8) (push_bit 8 (burst bs)) = drop_bit 8 (push_bit 8 (burst bs))"
    by (rule crc32c_bits_shift) (simp add: bit_push_bit_iff)
  also have "\<dots> = burst bs"
  proof (rule bit_word_eqI)
    fix n assume "n < LENGTH(32)"
    have "n < 24" if "bit (burst bs) n" using that assms by (auto simp: burst_bit)
    then show "bit (drop_bit 8 (push_bit 8 (burst bs))) n = bit (burst bs) n"
      by (auto simp: bit_drop_bit_eq bit_push_bit_iff)
  qed
  finally show ?thesis .
qed

lemma crc32c_update_burst:
  "length bs \<le> 4 \<Longrightarrow> crc32c_update c bs = (crc32c_bit ^^ (8 * length bs)) (c XOR burst bs)"
proof (induction bs arbitrary: c)
  case (Cons b bs)
  then have short: "length bs \<le> 3" by simp
  have "crc32c_update c (b # bs) = crc32c_update ((crc32c_bit ^^ 8) (c XOR ucast b)) bs"
    by (simp add: crc32c_update_def crc32c_byte_serial crc32c_serial_def)
  also have "\<dots> = (crc32c_bit ^^ (8 * length bs)) ((crc32c_bit ^^ 8) (c XOR ucast b) XOR burst bs)"
    using Cons by simp
  also have "(crc32c_bit ^^ 8) (c XOR ucast b) XOR burst bs =
      (crc32c_bit ^^ 8) ((c XOR ucast b) XOR push_bit 8 (burst bs))"
    using burst_shift [OF short] by (simp only: crc32c_bits_xor)
  also have "(crc32c_bit ^^ (8 * length bs)) ((crc32c_bit ^^ 8) z) = (crc32c_bit ^^ (8 * length (b # bs))) z" for z
    using funpow_add [of "8 * length bs" 8 crc32c_bit] by (simp add: add.commute)
  finally show ?case by (simp add: xor.assoc)
qed simp

lemma burst_inj:
  assumes "length xs = length ys" "length xs \<le> 4" "burst xs = burst ys"
  shows "xs = ys"
proof (rule nth_equalityI)
  fix i assume i: "i < length xs"
  show "xs ! i = ys ! i"
  proof (rule bit_word_eqI)
    fix n assume n: "n < LENGTH(8)"
    with i assms(2) have "8 * i + n < 32" by simp
    moreover have "(8 * i + n) div 8 = i" "(8 * i + n) mod 8 = n" using n by auto
    moreover have "bit (burst xs) (8 * i + n) = bit (burst ys) (8 * i + n)" using assms(3) by simp
    ultimately show "bit (xs ! i) n = bit (ys ! i) n" using i assms(1) by (simp add: burst_bit)
  qed
qed (rule assms(1))

lemma crc32c_burst_differs:
  assumes "length xs = length ys" "length xs \<le> 4" "xs \<noteq> ys"
  shows "crc32c_finalize (crc32c_update c (pre @ xs @ post)) \<noteq> crc32c_finalize (crc32c_update c (pre @ ys @ post))"
proof
  assume "crc32c_finalize (crc32c_update c (pre @ xs @ post)) = crc32c_finalize (crc32c_update c (pre @ ys @ post))"
  then have "crc32c_update (crc32c_update (crc32c_update c pre) xs) post =
      crc32c_update (crc32c_update (crc32c_update c pre) ys) post"
    by (simp add: crc32c_finalize_def crc32c_update_append)
  then have "crc32c_update (crc32c_update c pre) xs = crc32c_update (crc32c_update c pre) ys"
    by (rule crc32c_update_inj)
  then have "crc32c_update c pre XOR burst xs = crc32c_update c pre XOR burst ys"
    using assms(1,2) by (simp add: crc32c_update_burst) (rule crc32c_bits_inj)
  then have "burst xs = burst ys" by (rule xor_cancel)
  with burst_inj assms show False by blast
qed

text \<open>C34: The checksum detects every corruption confined to four consecutive bytes: changing any of
  them, wherever they stand, changes the CRC.\<close>

theorem crc32c_detects_burst:
  assumes "length xs = length ys" "length xs \<le> 4" "xs \<noteq> ys"
  shows "crc32c_finalize (crc32c_update c (pre @ xs @ post)) \<noteq> crc32c_finalize (crc32c_update c (pre @ ys @ post))"
  using assms by (rule crc32c_burst_differs)

theorem crc32c_detects_burst_witness:
  "crc32c_finalize (crc32c_update (NOT 0) ([1] @ [2, 3] @ [4])) \<noteq> crc32c_finalize (crc32c_update (NOT 0) ([1] @ [2, 7] @ [4]))"
  using crc32c_detects_burst [of "[2, 3]" "[2, 7]" "NOT 0" "[1]" "[4]"] by simp

text \<open>C35: The table-driven update computes the bit-serial CRC-32C of the same bytes, whatever pieces
  the input is fed in.\<close>

theorem crc32c_update_is_serial:
  "crc32c_update c (concat pieces) = fold (\<lambda>piece d. fold crc32c_serial piece d) pieces c"
  by (induction pieces arbitrary: c) (simp_all add: crc32c_update_serial)

text \<open>The known answer of the Castagnoli polynomial for the digits 1 to 9.\<close>

lemma crc32c_serial_steps:
  "crc32c_serial b c = crc32c_bit (crc32c_bit (crc32c_bit (crc32c_bit (crc32c_bit (crc32c_bit (crc32c_bit
     (crc32c_bit (c XOR ucast b))))))))"
  by (simp add: crc32c_serial_def eval_nat_numeral)

lemma crc32c_check_value:
  "crc32c_finalize (crc32c_update (NOT 0) [0x31, 0x32, 0x33, 0x34, 0x35, 0x36, 0x37, 0x38, 0x39]) = 0xE3069283"
  by (simp add: crc32c_finalize_def crc32c_update_serial crc32c_serial_steps crc32c_bit_def)

end
