(* ===== verification/Record_Frame.thy ===== *)
theory Record_Frame
  imports Engine_Contract Core_Names Crc32c
begin

text \<open>
  The frame of one record of a stream file (\<open>crates/runnel-core/src/stream_log.rs\<close>,
  \<open>append_record_with_sync\<close> to write it, \<open>read_next_record\<close> and \<open>read_record\<close> to parse it): a
  48-byte header with a CRC-32C over the whole frame, the key, the request identity and the
  payload. A written frame parses back; every proper prefix of it reads as an incomplete tail;
  a corruption of up to four consecutive bytes of the covered part is refused.
\<close>

section \<open>Numbers and text in bytes\<close>

definition le_bytes :: "nat \<Rightarrow> nat \<Rightarrow> bytes" where
  "le_bytes n x = map (\<lambda>i. word_of_nat (x div 256 ^ i mod 256)) [0..<n]"

primrec le_value :: "bytes \<Rightarrow> nat" where
  "le_value [] = 0"
| "le_value (b # bs) = unat b + 256 * le_value bs"

definition subslice :: "nat \<Rightarrow> nat \<Rightarrow> 'a list \<Rightarrow> 'a list" where
  "subslice from to xs = take (to - from) (drop from xs)"

text \<open>\<open>std::str::from_utf8\<close>: the well-formed byte sequences of UTF-8.\<close>

definition utf8_cont :: "byte \<Rightarrow> bool" where
  "utf8_cont b \<longleftrightarrow> 0x80 \<le> unat b \<and> unat b \<le> 0xBF"

fun utf8_valid :: "bytes \<Rightarrow> bool" where
  "utf8_valid [] = True"
| "utf8_valid (b0 # bs) =
     (let c = unat b0
      in if c < 0x80 then utf8_valid bs
         else if 0xC2 \<le> c \<and> c \<le> 0xDF then
           (case bs of b1 # r \<Rightarrow> utf8_cont b1 \<and> utf8_valid r | _ \<Rightarrow> False)
         else if 0xE0 \<le> c \<and> c \<le> 0xEF then
           (case bs of
              b1 # b2 # r \<Rightarrow>
                utf8_cont b1 \<and> (c = 0xE0 \<longrightarrow> 0xA0 \<le> unat b1) \<and> (c = 0xED \<longrightarrow> unat b1 \<le> 0x9F) \<and>
                utf8_cont b2 \<and> utf8_valid r
            | _ \<Rightarrow> False)
         else if 0xF0 \<le> c \<and> c \<le> 0xF4 then
           (case bs of
              b1 # b2 # b3 # r \<Rightarrow>
                utf8_cont b1 \<and> (c = 0xF0 \<longrightarrow> 0x90 \<le> unat b1) \<and> (c = 0xF4 \<longrightarrow> unat b1 \<le> 0x8F) \<and>
                utf8_cont b2 \<and> utf8_cont b3 \<and> utf8_valid r
            | _ \<Rightarrow> False)
         else False)"

section \<open>Record identities and index entries\<close>

definition RECORD_MAGIC :: bytes where
  "RECORD_MAGIC = as_bytes ''RNL3''"

definition RECORD_HEADER_LEN :: nat where
  "RECORD_HEADER_LEN = 48"

definition RECORD_FORMAT_VERSION :: byte where
  "RECORD_FORMAT_VERSION = 2"

definition NO_IDENTITY_FLAG :: byte where
  "NO_IDENTITY_FLAG = 2"

definition MAX_KEY_LEN :: nat where
  "MAX_KEY_LEN = 128"

definition MAX_BODY_LEN :: nat where
  "MAX_BODY_LEN = 64 * 1024 * 1024"

datatype request_identity_kind = PublicIdentity | DeadLetterMoveIdentity

fun kind_flag :: "request_identity_kind \<Rightarrow> byte" where
  "kind_flag PublicIdentity = 0"
| "kind_flag DeadLetterMoveIdentity = 1"

datatype record_identity = NoIdentity | Public string | DeadLetterMove string

fun identity_flag :: "record_identity \<Rightarrow> byte" where
  "identity_flag NoIdentity = NO_IDENTITY_FLAG"
| "identity_flag (Public _) = kind_flag PublicIdentity"
| "identity_flag (DeadLetterMove _) = kind_flag DeadLetterMoveIdentity"

fun identity_request_id :: "record_identity \<Rightarrow> string option" where
  "identity_request_id NoIdentity = None"
| "identity_request_id (Public request_id) = Some request_id"
| "identity_request_id (DeadLetterMove request_id) = Some request_id"

fun identity_kind :: "record_identity \<Rightarrow> request_identity_kind option" where
  "identity_kind NoIdentity = None"
| "identity_kind (Public _) = Some PublicIdentity"
| "identity_kind (DeadLetterMove _) = Some DeadLetterMoveIdentity"

record record_index =
  ri_offset :: offset
  ri_payload_offset :: nat
  ri_payload_len :: nat
  ri_key :: "string option"
  ri_request_id :: "string option"
  ri_request_identity_kind :: "request_identity_kind option"
  ri_published_at_ms :: nat

record parsed_record =
  pr_index :: record_index
  pr_next_cursor :: nat

section \<open>Writing\<close>

definition record_lengths :: "nat \<Rightarrow> nat \<Rightarrow> broker_error + nat \<times> nat" where
  "record_lengths key_len payload_len =
     (if key_len > u32_max
      then Inl (InvalidRecord ''message key length exceeds u32 storage representation'')
      else if key_len > MAX_KEY_LEN
      then Inl (InvalidRecord (''message key is '' @ dec_string key_len @ '' bytes; stream record limit is '' @
             dec_string MAX_KEY_LEN @ '' bytes''))
      else if payload_len > u32_max
      then Inl (InvalidRecord ''message payload length exceeds u32 storage representation'')
      else if payload_len > MAX_BODY_LEN
      then Inl (InvalidRecord (''message payload is '' @ dec_string payload_len @ '' bytes; stream record limit is '' @
             dec_string MAX_BODY_LEN @ '' bytes''))
      else Inr (key_len, payload_len))"

definition record_checksum :: "bytes \<Rightarrow> bytes \<Rightarrow> bytes \<Rightarrow> bytes \<Rightarrow> u32" where
  "record_checksum header key request_id body =
     (let checksum_header = take 44 header @ [0, 0, 0, 0];
          checksum = crc32c_update (NOT 0) checksum_header;
          checksum = crc32c_update checksum key;
          checksum = crc32c_update checksum request_id
      in crc32c_finalize (crc32c_update checksum body))"

definition record_header :: "byte \<Rightarrow> nat \<Rightarrow> nat \<Rightarrow> nat \<Rightarrow> nat \<Rightarrow> nat \<Rightarrow> u32 \<Rightarrow> bytes" where
  "record_header flag payload_len off published_at_ms key_len request_id_len checksum =
     RECORD_MAGIC @ [RECORD_FORMAT_VERSION, flag] @ le_bytes 2 RECORD_HEADER_LEN @
     le_bytes 4 payload_len @ le_bytes 4 payload_len @ le_bytes 8 off @ le_bytes 8 published_at_ms @
     le_bytes 4 key_len @ le_bytes 4 request_id_len @ [0, 0, 0, 0] @ le_bytes 4 (unat checksum)"

text \<open>The four pieces \<open>append_record_with_sync\<close> writes.\<close>

definition record_frame ::
  "string option \<Rightarrow> bytes \<Rightarrow> record_identity \<Rightarrow> offset \<Rightarrow> nat \<Rightarrow> bytes \<times> bytes \<times> bytes \<times> bytes" where
  "record_frame key payload identity off published_at_ms =
     (let key_bytes = as_bytes (case key of None \<Rightarrow> '''' | Some k \<Rightarrow> k);
          id_bytes = as_bytes (case identity_request_id identity of None \<Rightarrow> '''' | Some r \<Rightarrow> r);
          header = record_header (identity_flag identity) (length payload) off published_at_ms
            (length key_bytes) (length id_bytes);
          checksum = record_checksum (header 0) key_bytes id_bytes payload
      in (header checksum, key_bytes, id_bytes, payload))"

definition frame_bytes :: "bytes \<times> bytes \<times> bytes \<times> bytes \<Rightarrow> bytes" where
  "frame_bytes f = (case f of (header, key, request_id, payload) \<Rightarrow> header @ key @ request_id @ payload)"

section \<open>Parsing\<close>

definition invalid_record_data :: "string \<Rightarrow> broker_error" where
  "invalid_record_data m = Io (IoError IoInvalidData m)"

text \<open>The payload is checksummed through a buffer of 8192 bytes.\<close>

function checksum_payload :: "nat \<Rightarrow> bytes \<Rightarrow> u32 \<Rightarrow> u32" where
  "checksum_payload remaining bs checksum =
     (if remaining > 0
      then let read_len = min remaining 8192
           in checksum_payload (remaining - read_len) (drop read_len bs)
                (crc32c_update checksum (take read_len bs))
      else checksum)"
  by pat_completeness auto
termination by (relation "measure fst") auto

declare checksum_payload.simps [simp del]

fun flag_kind :: "byte \<Rightarrow> request_identity_kind option option" where
  "flag_kind b =
     (if b = 0 then Some (Some PublicIdentity)
      else if b = 1 then Some (Some DeadLetterMoveIdentity)
      else if b = NO_IDENTITY_FLAG then Some None
      else None)"

definition record_len :: "nat \<Rightarrow> nat \<Rightarrow> nat \<Rightarrow> nat option" where
  "record_len key_len request_id_len stored_len =
     Option.bind (Option.bind (checked_add64 RECORD_HEADER_LEN key_len)
       (\<lambda>n. checked_add64 n request_id_len)) (\<lambda>n. checked_add64 n stored_len)"

text \<open>The body of the frame, once the header has been accepted.\<close>

definition read_body ::
  "bytes \<Rightarrow> nat \<Rightarrow> bytes \<Rightarrow> request_identity_kind option \<Rightarrow> nat \<Rightarrow> nat \<Rightarrow> nat \<Rightarrow> nat \<Rightarrow>
   broker_error + parsed_record option" where
  "read_body file cursor header kind stored_len key_len request_id_len rlen =
     (let body = drop (cursor + RECORD_HEADER_LEN) file;
          key_bytes = take key_len body;
          id_bytes = take request_id_len (drop key_len body);
          payload = drop (key_len + request_id_len) body
      in if key_bytes \<noteq> [] \<and> \<not> utf8_valid key_bytes
         then Inl (invalid_record_data ''RNL3 record key is not UTF-8'')
         else if kind \<noteq> None \<and> \<not> utf8_valid id_bytes
         then Inl (invalid_record_data ''RNL3 record ID is not UTF-8'')
         else let checksum = crc32c_update (NOT 0) (take 44 header @ [0, 0, 0, 0]);
                  checksum = crc32c_update checksum key_bytes;
                  checksum = crc32c_update checksum id_bytes;
                  checksum = checksum_payload stored_len payload checksum
              in if unat (crc32c_finalize checksum) \<noteq> le_value (subslice 44 48 header)
                 then Inl (invalid_record_data ''RNL3 record checksum mismatch'')
                 else Inr (Some
                   \<lparr>pr_index =
                      \<lparr>ri_offset = le_value (subslice 16 24 header),
                       ri_payload_offset = cursor + RECORD_HEADER_LEN + key_len + request_id_len,
                       ri_payload_len = stored_len,
                       ri_key = (if key_bytes = [] then None else Some (of_bytes key_bytes)),
                       ri_request_id = (case kind of None \<Rightarrow> None | Some _ \<Rightarrow> Some (of_bytes id_bytes)),
                       ri_request_identity_kind = kind,
                       ri_published_at_ms = le_value (subslice 24 32 header)\<rparr>,
                    pr_next_cursor = cursor + rlen\<rparr>))"

definition read_record :: "bytes \<Rightarrow> nat \<Rightarrow> broker_error + parsed_record option" where
  "read_record file cursor =
     (if length file - cursor < RECORD_HEADER_LEN then Inr None
      else let header = take RECORD_HEADER_LEN (drop cursor file)
      in if header ! 4 \<noteq> RECORD_FORMAT_VERSION
         then Inl (invalid_record_data ''unsupported RNL3 record version'')
      else case flag_kind (header ! 5) of
        None \<Rightarrow> Inl (invalid_record_data ''unsupported RNL3 record identity flag'')
      | Some kind \<Rightarrow>
      if le_value (subslice 6 8 header) \<noteq> RECORD_HEADER_LEN
      then Inl (invalid_record_data ''invalid RNL3 record header length'')
      else let stored_len = le_value (subslice 8 12 header);
               logical_len = le_value (subslice 12 16 header);
               key_len = le_value (subslice 32 36 header);
               request_id_len = le_value (subslice 36 40 header)
      in if key_len > MAX_KEY_LEN
         then Inl (invalid_record_data ''RNL3 record key exceeds storage limit'')
      else if request_id_len > MAX_REQUEST_ID_LEN
         then Inl (invalid_record_data ''RNL3 record ID exceeds storage limit'')
      else if stored_len > MAX_BODY_LEN \<or> logical_len > MAX_BODY_LEN
         then Inl (invalid_record_data ''RNL3 record exceeds storage limit'')
      else if kind = None \<and> request_id_len \<noteq> 0
         then Inl (invalid_record_data ''RNL3 record without identity contains ID bytes'')
      else if logical_len \<noteq> stored_len
         then Inl (invalid_record_data ''compressed RNL3 records are not supported'')
      else if subslice 40 44 header \<noteq> [0, 0, 0, 0]
         then Inl (invalid_record_data ''unsupported RNL3 record header fields'')
      else case record_len key_len request_id_len stored_len of
        None \<Rightarrow> Inl (invalid_record_data ''RNL3 record length overflows u64'')
      | Some rlen \<Rightarrow>
          if length file - cursor < rlen then Inr None
          else read_body file cursor header kind stored_len key_len request_id_len rlen)"

definition read_next_record :: "bytes \<Rightarrow> nat \<Rightarrow> broker_error + parsed_record option" where
  "read_next_record file cursor =
     (if length file - cursor < 4 then Inr None
      else let magic = take 4 (drop cursor file)
      in if magic = as_bytes ''RNL1''
         then Inl (invalid_record_data ''unsupported RNL1 stream format; this broker requires RNL3'')
      else if magic = as_bytes ''RNL2''
         then Inl (invalid_record_data ''unsupported RNL2 stream format; this broker requires RNL3'')
      else if magic \<noteq> RECORD_MAGIC
         then Inl (invalid_record_data ''unsupported stream record magic'')
      else read_record file cursor)"

section \<open>Encodings invert\<close>

lemma length_le_bytes [simp]: "length (le_bytes n x) = n"
  by (simp add: le_bytes_def)

lemma le_bytes_Suc: "le_bytes (Suc n) x = word_of_nat (x mod 256) # le_bytes n (x div 256)"
proof -
  have "x div 256 ^ Suc i = x div 256 div 256 ^ i" for i by (simp add: div_mult2_eq)
  then show ?thesis
    unfolding le_bytes_def by (simp add: upt_conv_Cons map_Suc_upt [symmetric] comp_def del: upt_Suc power_Suc)
qed

lemma unat_byte_of_nat: "x < 256 \<Longrightarrow> unat (word_of_nat x :: byte) = x"
  by (simp add: unat_of_nat)

lemma le_value_le_bytes: "x < 256 ^ n \<Longrightarrow> le_value (le_bytes n x) = x"
proof (induction n arbitrary: x)
  case 0
  then show ?case by (simp add: le_bytes_def)
next
  case (Suc n)
  have "x div 256 < 256 ^ n" using Suc.prems by (simp add: less_mult_imp_div_less mult.commute)
  with Suc.IH show ?case by (simp add: le_bytes_Suc unat_byte_of_nat)
qed

lemma utf8_valid_ascii: "list_all (\<lambda>b. unat b < 0x80) bs \<Longrightarrow> utf8_valid bs"
  by (induction bs) (simp_all add: Let_def)

lemma checksum_payload_update: "checksum_payload n bs c = crc32c_update c (take n bs)"
proof (induction n bs c rule: checksum_payload.induct)
  case (1 n bs c)
  let ?k = "min n 8192"
  have "take n bs = take ?k bs @ take (n - ?k) (drop ?k bs)"
    by (metis append_take_drop_id le_add_diff_inverse min.cobounded1 take_add)
  with 1 show ?case
    by (subst checksum_payload.simps) (simp add: Let_def crc32c_update_append [symmetric] del: take_take)
qed

section \<open>The written header\<close>

lemma length_magic [simp]: "length RECORD_MAGIC = 4"
  by (simp add: RECORD_MAGIC_def)

lemma length_record_header [simp]: "length (record_header flag pl off ts kl il c) = 48"
  by (simp add: record_header_def)

lemma record_header_fields:
  "take 4 (record_header flag pl off ts kl il c) = RECORD_MAGIC"
  "record_header flag pl off ts kl il c ! 4 = RECORD_FORMAT_VERSION"
  "record_header flag pl off ts kl il c ! 5 = flag"
  "subslice 6 8 (record_header flag pl off ts kl il c) = le_bytes 2 RECORD_HEADER_LEN"
  "subslice 8 12 (record_header flag pl off ts kl il c) = le_bytes 4 pl"
  "subslice 12 16 (record_header flag pl off ts kl il c) = le_bytes 4 pl"
  "subslice 16 24 (record_header flag pl off ts kl il c) = le_bytes 8 off"
  "subslice 24 32 (record_header flag pl off ts kl il c) = le_bytes 8 ts"
  "subslice 32 36 (record_header flag pl off ts kl il c) = le_bytes 4 kl"
  "subslice 36 40 (record_header flag pl off ts kl il c) = le_bytes 4 il"
  "subslice 40 44 (record_header flag pl off ts kl il c) = [0, 0, 0, 0]"
  "subslice 44 48 (record_header flag pl off ts kl il c) = le_bytes 4 (unat c)"
  unfolding record_header_def subslice_def by (simp_all add: nth_append)

lemma take_44_record_header: "take 44 (record_header flag pl off ts kl il c) = take 44 (record_header flag pl off ts kl il d)"
  unfolding record_header_def by simp

section \<open>Progress\<close>

lemma read_body_Some:
  assumes "read_body file cursor header kind stored_len key_len request_id_len rlen = Inr (Some p)"
  shows "pr_next_cursor p = cursor + rlen" "ri_payload_len (pr_index p) = stored_len"
    "ri_payload_offset (pr_index p) = cursor + RECORD_HEADER_LEN + key_len + request_id_len"
  using assms by (auto simp: read_body_def Let_def split: if_splits)

lemma record_len_Some:
  "record_len key_len request_id_len stored_len = Some rlen \<Longrightarrow>
   rlen = RECORD_HEADER_LEN + key_len + request_id_len + stored_len"
  by (auto simp: record_len_def checked_add64_def split: if_splits bind_splits)

lemma read_record_Some:
  assumes "read_record file cursor = Inr (Some p)"
  obtains kind stored_len key_len request_id_len rlen where
    "read_body file cursor (take RECORD_HEADER_LEN (drop cursor file)) kind stored_len key_len request_id_len rlen = Inr (Some p)"
    "record_len key_len request_id_len stored_len = Some rlen" "rlen \<le> length file - cursor"
  using assms unfolding read_record_def Let_def
  by (simp split: if_split_asm option.split_asm del: flag_kind.simps)

lemma read_next_record_progress:
  assumes "read_next_record file cursor = Inr (Some p)"
  shows "cursor + RECORD_HEADER_LEN \<le> pr_next_cursor p" "pr_next_cursor p \<le> length file"
    "ri_payload_offset (pr_index p) + ri_payload_len (pr_index p) = pr_next_cursor p"
proof -
  have r: "read_record file cursor = Inr (Some p)"
    using assms by (simp add: read_next_record_def Let_def split: if_split_asm)
  then obtain kind stored_len key_len request_id_len rlen where *:
    "read_body file cursor (take RECORD_HEADER_LEN (drop cursor file)) kind stored_len key_len request_id_len rlen = Inr (Some p)"
    "record_len key_len request_id_len stored_len = Some rlen" "rlen \<le> length file - cursor"
    by (rule read_record_Some)
  from read_body_Some [OF *(1)] record_len_Some [OF *(2)] *(3)
  show "cursor + RECORD_HEADER_LEN \<le> pr_next_cursor p" "pr_next_cursor p \<le> length file"
    "ri_payload_offset (pr_index p) + ri_payload_len (pr_index p) = pr_next_cursor p"
    by (simp_all add: RECORD_HEADER_LEN_def)
qed

section \<open>Reading a written frame\<close>

text \<open>What the writer checks, and what the types of the code guarantee (UTF-8 text, \<open>u64\<close> numbers).\<close>

definition key_text :: "string option \<Rightarrow> string" where
  "key_text key = (case key of None \<Rightarrow> '''' | Some k \<Rightarrow> k)"

definition id_text :: "record_identity \<Rightarrow> string" where
  "id_text identity = (case identity_request_id identity of None \<Rightarrow> '''' | Some r \<Rightarrow> r)"

definition record_fits :: "string option \<Rightarrow> bytes \<Rightarrow> record_identity \<Rightarrow> bool" where
  "record_fits key payload identity \<longleftrightarrow>
     length (key_text key) \<le> MAX_KEY_LEN \<and> length payload \<le> MAX_BODY_LEN \<and>
     length (id_text identity) \<le> MAX_REQUEST_ID_LEN"

definition record_typed :: "string option \<Rightarrow> record_identity \<Rightarrow> offset \<Rightarrow> nat \<Rightarrow> bool" where
  "record_typed key identity off ts \<longleftrightarrow>
     utf8_valid (as_bytes (key_text key)) \<and> utf8_valid (as_bytes (id_text identity)) \<and> off \<le> u64_max \<and> ts \<le> u64_max"

text \<open>The index entry a reader builds. An empty key is stored like no key.\<close>

definition disk_index :: "nat \<Rightarrow> string option \<Rightarrow> bytes \<Rightarrow> record_identity \<Rightarrow> offset \<Rightarrow> nat \<Rightarrow> record_index" where
  "disk_index cursor key payload identity off ts =
     \<lparr>ri_offset = off,
      ri_payload_offset = cursor + RECORD_HEADER_LEN + length (key_text key) + length (id_text identity),
      ri_payload_len = length payload,
      ri_key = (if key = Some '''' then None else key),
      ri_request_id = identity_request_id identity,
      ri_request_identity_kind = identity_kind identity,
      ri_published_at_ms = ts\<rparr>"

abbreviation encoded_record :: "string option \<Rightarrow> bytes \<Rightarrow> record_identity \<Rightarrow> offset \<Rightarrow> nat \<Rightarrow> bytes" where
  "encoded_record key payload identity off ts \<equiv> frame_bytes (record_frame key payload identity off ts)"

definition frame_header :: "string option \<Rightarrow> bytes \<Rightarrow> record_identity \<Rightarrow> offset \<Rightarrow> nat \<Rightarrow> bytes" where
  "frame_header key payload identity off ts = fst (record_frame key payload identity off ts)"

lemma frame_header_eq:
  "frame_header key payload identity off ts =
     record_header (identity_flag identity) (length payload) off ts (length (key_text key)) (length (id_text identity))
       (record_checksum (record_header (identity_flag identity) (length payload) off ts (length (key_text key))
         (length (id_text identity)) 0) (as_bytes (key_text key)) (as_bytes (id_text identity)) payload)"
  by (simp add: frame_header_def record_frame_def Let_def key_text_def id_text_def)

lemma encoded_record_eq:
  "encoded_record key payload identity off ts =
     frame_header key payload identity off ts @ as_bytes (key_text key) @ as_bytes (id_text identity) @ payload"
  by (simp add: frame_header_def record_frame_def frame_bytes_def Let_def key_text_def id_text_def)

lemma length_frame_header [simp]: "length (frame_header key payload identity off ts) = 48"
  by (simp add: frame_header_eq)

lemma length_encoded_record:
  "length (encoded_record key payload identity off ts) =
     RECORD_HEADER_LEN + length (key_text key) + length (id_text identity) + length payload"
  by (simp add: encoded_record_eq RECORD_HEADER_LEN_def)

lemma flag_kind_identity: "flag_kind (identity_flag identity) = Some (identity_kind identity)"
  by (cases identity) (simp_all add: NO_IDENTITY_FLAG_def)

lemma no_kind_no_id: "identity_kind identity = None \<Longrightarrow> id_text identity = ''''"
  by (cases identity) (simp_all add: id_text_def)

lemma record_len_fits:
  assumes "record_fits key payload identity"
  shows "record_len (length (key_text key)) (length (id_text identity)) (length payload) =
    Some (length (encoded_record key payload identity off ts))"
  using assms
  by (simp add: record_fits_def record_len_def checked_add64_def length_encoded_record RECORD_HEADER_LEN_def
      MAX_KEY_LEN_def MAX_BODY_LEN_def MAX_REQUEST_ID_LEN_def)

lemma frame_header_values:
  fixes off ts :: nat
  assumes "record_fits key payload identity"
  defines "header \<equiv> frame_header key payload identity off ts"
  shows "header ! 4 = RECORD_FORMAT_VERSION" "flag_kind (header ! 5) = Some (identity_kind identity)"
    "le_value (subslice 6 8 header) = RECORD_HEADER_LEN"
    "le_value (subslice 8 12 header) = length payload" "le_value (subslice 12 16 header) = length payload"
    "le_value (subslice 32 36 header) = length (key_text key)"
    "le_value (subslice 36 40 header) = length (id_text identity)" "subslice 40 44 header = [0, 0, 0, 0]"
    "off \<le> u64_max \<Longrightarrow> le_value (subslice 16 24 header) = off"
    "ts \<le> u64_max \<Longrightarrow> le_value (subslice 24 32 header) = ts"
  using assms(1) unfolding header_def frame_header_eq record_header_fields flag_kind_identity
  by (auto simp: record_fits_def MAX_KEY_LEN_def MAX_BODY_LEN_def MAX_REQUEST_ID_LEN_def RECORD_HEADER_LEN_def
      intro!: le_value_le_bytes)

text \<open>The parser reads the header of a frame and goes on to its body, if all of it is there.\<close>

lemma read_written_header:
  assumes fits: "record_fits key payload identity"
    and "take RECORD_HEADER_LEN (drop cursor file) = frame_header key payload identity off ts"
  shows "read_next_record file cursor =
    (if length file - cursor < length (encoded_record key payload identity off ts) then Inr None
     else read_body file cursor (frame_header key payload identity off ts) (identity_kind identity) (length payload)
       (length (key_text key)) (length (id_text identity)) (length (encoded_record key payload identity off ts)))"
proof -
  let ?h = "frame_header key payload identity off ts"
  have len: "\<not> length file - cursor < RECORD_HEADER_LEN"
    using arg_cong [OF assms(2), of length] by (simp add: RECORD_HEADER_LEN_def)
  have "take 4 (drop cursor file) = take 4 ?h"
    using arg_cong [OF assms(2), of "take 4"] by (simp add: RECORD_HEADER_LEN_def)
  then have magic: "take 4 (drop cursor file) = RECORD_MAGIC"
    by (simp add: frame_header_eq record_header_fields)
  have "read_next_record file cursor = read_record file cursor"
    using len magic by (simp add: read_next_record_def RECORD_MAGIC_def RECORD_HEADER_LEN_def)
  also have "\<dots> = (if length file - cursor < length (encoded_record key payload identity off ts) then Inr None
     else read_body file cursor ?h (identity_kind identity) (length payload)
       (length (key_text key)) (length (id_text identity)) (length (encoded_record key payload identity off ts)))"
    unfolding read_record_def assms(2)
    using len fits no_kind_no_id [of identity] record_len_fits [OF fits, of off ts]
    by (cases "identity_kind identity") (simp_all add: Let_def frame_header_values [OF fits] record_fits_def del: flag_kind.simps)
  finally show ?thesis .
qed

lemma unat_le_value: "le_value (le_bytes 4 (unat (c::u32))) = unat c"
proof (rule le_value_le_bytes)
  show "unat c < 256 ^ 4" using unsigned_less [of c] by simp
qed

lemma read_written_body:
  assumes "record_fits key payload identity" "record_typed key identity off ts"
    and body: "drop (cursor + RECORD_HEADER_LEN) file = as_bytes (key_text key) @ as_bytes (id_text identity) @ payload @ post"
  shows "read_body file cursor (frame_header key payload identity off ts) (identity_kind identity) (length payload)
      (length (key_text key)) (length (id_text identity)) rlen =
    Inr (Some \<lparr>pr_index = disk_index cursor key payload identity off ts, pr_next_cursor = cursor + rlen\<rparr>)"
proof -
  let ?h = "frame_header key payload identity off ts"
  let ?b = "as_bytes (key_text key) @ as_bytes (id_text identity) @ payload @ post"
  have pieces: "take (length (key_text key)) ?b = as_bytes (key_text key)"
      "take (length (id_text identity)) (drop (length (key_text key)) ?b) = as_bytes (id_text identity)"
      "drop (length (key_text key) + length (id_text identity)) ?b = payload @ post"
      "take (length payload) (payload @ post) = payload"
    by simp_all
  have t44: "take 44 ?h = take 44 (record_header (identity_flag identity) (length payload) off ts
      (length (key_text key)) (length (id_text identity)) 0)"
    unfolding frame_header_eq by (rule take_44_record_header)
  have sum: "le_value (subslice 44 48 ?h) =
      unat (crc32c_finalize (crc32c_update (crc32c_update (crc32c_update (crc32c_update (NOT 0) (take 44 ?h @ [0, 0, 0, 0]))
        (as_bytes (key_text key))) (as_bytes (id_text identity))) payload))"
    unfolding t44 by (simp add: frame_header_eq record_header_fields unat_le_value record_checksum_def)
  have id: "(case identity_kind identity of None \<Rightarrow> None | Some _ \<Rightarrow> Some (id_text identity)) = identity_request_id identity"
    by (cases identity) (simp_all add: id_text_def)
  have key: "(if key_text key = [] then None else Some (key_text key)) = (if key = Some '''' then None else key)"
    by (auto simp: key_text_def split: option.split)
  have typed: "utf8_valid (as_bytes (key_text key))" "utf8_valid (as_bytes (id_text identity))" "off \<le> u64_max" "ts \<le> u64_max"
    using assms(2) by (simp_all add: record_typed_def)
  show ?thesis
    unfolding read_body_def body Let_def checksum_payload_update pieces sum
      as_bytes_eq_Nil_iff of_bytes_as_bytes key id disk_index_def
    using typed frame_header_values(9,10) [OF assms(1)] by simp
qed

lemma read_frame:
  assumes "record_fits key payload identity" "record_typed key identity off ts"
    and "drop cursor file = encoded_record key payload identity off ts @ post"
  shows "read_next_record file cursor =
    Inr (Some \<lparr>pr_index = disk_index cursor key payload identity off ts,
               pr_next_cursor = cursor + length (encoded_record key payload identity off ts)\<rparr>)"
proof -
  have header: "take RECORD_HEADER_LEN (drop cursor file) = frame_header key payload identity off ts"
    unfolding assms(3) by (simp add: encoded_record_eq RECORD_HEADER_LEN_def)
  have "drop (cursor + RECORD_HEADER_LEN) file = drop RECORD_HEADER_LEN (drop cursor file)"
    by (simp add: add.commute)
  then have body: "drop (cursor + RECORD_HEADER_LEN) file =
      as_bytes (key_text key) @ as_bytes (id_text identity) @ payload @ post"
    unfolding assms(3) by (simp add: encoded_record_eq RECORD_HEADER_LEN_def)
  have "\<not> length file - cursor < length (encoded_record key payload identity off ts)"
    using arg_cong [OF assms(3), of length] by simp
  then show ?thesis
    by (simp only: read_written_header [OF assms(1) header] read_written_body [OF assms(1,2) body] if_False)
qed

lemma payload_in_file:
  assumes "drop cursor file = encoded_record key payload identity off ts @ post"
  shows "take (length payload) (drop (ri_payload_offset (disk_index cursor key payload identity off ts)) file) = payload"
proof -
  have "drop (ri_payload_offset (disk_index cursor key payload identity off ts)) file =
      drop (RECORD_HEADER_LEN + length (key_text key) + length (id_text identity)) (drop cursor file)"
    by (simp add: disk_index_def add_ac)
  then show ?thesis
    unfolding assms by (simp add: encoded_record_eq RECORD_HEADER_LEN_def)
qed

lemma read_torn_frame:
  assumes fits: "record_fits key payload identity" and torn: "n < length (encoded_record key payload identity off ts)"
    and tail: "drop cursor file = take n (encoded_record key payload identity off ts)" "length file - cursor = n"
  shows "read_next_record file cursor = Inr None"
proof -
  let ?e = "encoded_record key payload identity off ts"
  consider "n < 4" | "4 \<le> n" "n < RECORD_HEADER_LEN" | "RECORD_HEADER_LEN \<le> n" by linarith
  then show ?thesis
  proof cases
    case 1
    with tail show ?thesis by (simp add: read_next_record_def)
  next
    case 2
    have "take 4 (drop cursor file) = take 4 ?e" unfolding tail(1) using 2 by simp
    then have "take 4 (drop cursor file) = RECORD_MAGIC"
      by (simp add: encoded_record_eq frame_header_eq record_header_fields)
    with 2 tail show ?thesis
      by (simp add: read_next_record_def read_record_def RECORD_MAGIC_def)
  next
    case 3
    have "take RECORD_HEADER_LEN (drop cursor file) = take RECORD_HEADER_LEN ?e"
      unfolding tail(1) using 3 by simp
    then have "take RECORD_HEADER_LEN (drop cursor file) = frame_header key payload identity off ts"
      by (simp add: encoded_record_eq RECORD_HEADER_LEN_def)
    from read_written_header [OF fits this] torn tail show ?thesis by simp
  qed
qed

section \<open>Properties\<close>



text \<open>C21: A frame cut anywhere before its end, as a crash leaves it, reads as an incomplete tail and
  never as an error or as another record.\<close>

theorem torn_record_is_incomplete:
  assumes "record_fits key payload identity" "n < length (encoded_record key payload identity off ts)"
  shows "read_next_record (pre @ take n (encoded_record key payload identity off ts)) (length pre) = Inr None"
  by (rule read_torn_frame [OF assms]) (use assms(2) in simp_all)

theorem torn_record_is_incomplete_witness:
  "read_next_record ([5] @ take 50 (encoded_record (Some ''k'') [7, 8] NoIdentity 3 99)) (length [5::byte]) = Inr None"
  using torn_record_is_incomplete [of "Some ''k''" "[7, 8]" NoIdentity 50 3 99 "[5]"]
  by (simp add: record_fits_def key_text_def id_text_def MAX_KEY_LEN_def MAX_BODY_LEN_def MAX_REQUEST_ID_LEN_def
      length_encoded_record RECORD_HEADER_LEN_def)

lemma crc_pieces:
  "crc32c_update (crc32c_update (crc32c_update (crc32c_update c h) k) i) p = crc32c_update c (h @ k @ i @ p)"
  by (simp add: crc32c_update_append)

lemma read_body_checksum:
  assumes body: "drop (cursor + RECORD_HEADER_LEN) file = body @ post"
    and len: "length body = key_len + request_id_len + stored_len"
    and sum: "unat (crc32c_finalize (crc32c_update (NOT 0) ((take 44 header @ [0, 0, 0, 0]) @ body))) \<noteq> le_value (subslice 44 48 header)"
  shows "\<exists>e. read_body file cursor header kind stored_len key_len request_id_len rlen = Inl e"
proof -
  let ?k = "take key_len (body @ post)" and ?i = "take request_id_len (drop key_len (body @ post))"
  let ?p = "take stored_len (drop (key_len + request_id_len) (body @ post))"
  have "?k @ ?i @ ?p = take (key_len + request_id_len + stored_len) (body @ post)"
    by (simp only: take_add append.assoc)
  also have "\<dots> = body" using len by simp
  finally have whole: "?k @ ?i @ ?p = body" .
  have "crc32c_update (crc32c_update (crc32c_update (crc32c_update (NOT 0) (take 44 header @ [0, 0, 0, 0])) ?k) ?i) ?p =
      crc32c_update (NOT 0) ((take 44 header @ [0, 0, 0, 0]) @ body)"
    unfolding crc_pieces whole by simp
  with sum show ?thesis
    unfolding read_body_def body Let_def checksum_payload_update by simp
qed

text \<open>C22: Corruption of the stored key, identity or payload that is confined to four consecutive bytes
  is always refused with an error: the reader never returns altered content.\<close>

theorem corrupted_body_refused:
  assumes fits: "record_fits key payload identity"
    and body: "as_bytes (key_text key) @ as_bytes (id_text identity) @ payload = left @ old @ right"
    and burst: "length new = length old" "length old \<le> 4" "new \<noteq> old"
  shows "\<exists>e. read_next_record (pre @ frame_header key payload identity off ts @ (left @ new @ right) @ post) (length pre) = Inl e"
proof -
  let ?h = "frame_header key payload identity off ts"
  let ?file = "pre @ ?h @ (left @ new @ right) @ post"
  have len: "length (left @ new @ right) = length (key_text key) + length (id_text identity) + length payload"
    using arg_cong [OF body, of length] burst by simp
  have header: "take RECORD_HEADER_LEN (drop (length pre) ?file) = ?h"
    by (simp add: RECORD_HEADER_LEN_def)
  have rest: "drop (length pre + RECORD_HEADER_LEN) ?file = (left @ new @ right) @ post"
    by (simp add: RECORD_HEADER_LEN_def)
  let ?t = "take 44 ?h @ [0, 0, 0, 0]"
  have t44: "take 44 ?h = take 44 (record_header (identity_flag identity) (length payload) off ts
      (length (key_text key)) (length (id_text identity)) 0)"
    unfolding frame_header_eq by (rule take_44_record_header)
  have "le_value (subslice 44 48 ?h) =
      unat (crc32c_finalize (crc32c_update (NOT 0) (?t @ as_bytes (key_text key) @ as_bytes (id_text identity) @ payload)))"
    unfolding t44 crc_pieces [symmetric]
    by (simp add: frame_header_eq record_header_fields unat_le_value record_checksum_def)
  moreover have "crc32c_finalize (crc32c_update (NOT 0) ((?t @ left) @ new @ right)) \<noteq>
      crc32c_finalize (crc32c_update (NOT 0) ((?t @ left) @ old @ right))"
    using burst by (intro crc32c_burst_differs) auto
  ultimately have "unat (crc32c_finalize (crc32c_update (NOT 0) (?t @ left @ new @ right))) \<noteq> le_value (subslice 44 48 ?h)"
    by (simp add: body word_unat_eq_iff [symmetric])
  from read_body_checksum [OF rest len this] show ?thesis
    unfolding read_written_header [OF fits header] using len by (simp add: length_encoded_record RECORD_HEADER_LEN_def)
qed

theorem corrupted_body_refused_witness:
  "\<exists>e. read_next_record ([] @ frame_header None [7, 8] NoIdentity 3 99 @ ([] @ [9] @ [8]) @ []) (length ([]::bytes)) = Inl e"
  by (rule corrupted_body_refused [of None "[7, 8]" NoIdentity "[]" "[7]" "[8]" "[9]"])
    (simp_all add: record_fits_def key_text_def id_text_def MAX_KEY_LEN_def MAX_BODY_LEN_def MAX_REQUEST_ID_LEN_def)

end
