(* ===== verification/Stream_Log.thy ===== *)
theory Stream_Log
  imports Record_Frame Consumer_Files
begin

text \<open>
  The log of one stream (\<open>crates/runnel-core/src/stream_log.rs\<close>): the append-only file, the bounded
  tail of index entries, the sparse checkpoints into the file, and the index of request
  identities. The file is its bytes; every system call takes the next outcome of a script, and a
  failing write may leave a prefix of its bytes behind. \<open>sl_synced\<close> counts the bytes the last
  successful \<open>sync_data\<close> covered: a crash leaves at least those.
\<close>

section \<open>State\<close>

definition MAX_IN_MEMORY_RECORDS :: nat where
  "MAX_IN_MEMORY_RECORDS = 1024"

definition SPARSE_INDEX_STRIDE :: nat where
  "SPARSE_INDEX_STRIDE = 64"

definition MAX_SPARSE_INDEX_ENTRIES :: nat where
  "MAX_SPARSE_INDEX_ENTRIES = 1024"

record request_identity_index =
  ids_public :: "(string, offset) fmap"
  ids_dead_letter_moves :: "(string, offset) fmap"

record log_checkpoint =
  lc_offset :: offset
  lc_cursor :: nat

record stream_log =
  sl_file :: bytes
  sl_records :: "record_index list"
  sl_sparse_index :: "log_checkpoint list"
  sl_request_ids :: request_identity_index
  sl_next_offset :: offset
  sl_synced :: nat
  sl_script :: "io_fault list"
  sl_clock :: "nat list"

section \<open>Indexes\<close>

fun identity_get :: "string \<Rightarrow> request_identity_kind \<Rightarrow> request_identity_index \<Rightarrow> offset option" where
  "identity_get identity PublicIdentity ids = fmlookup (ids_public ids) identity"
| "identity_get identity DeadLetterMoveIdentity ids = fmlookup (ids_dead_letter_moves ids) identity"

fun identity_remember ::
  "string \<Rightarrow> request_identity_kind \<Rightarrow> offset \<Rightarrow> request_identity_index \<Rightarrow> request_identity_index" where
  "identity_remember identity PublicIdentity off ids =
     ids\<lparr>ids_public := or_insert identity off (ids_public ids)\<rparr>"
| "identity_remember identity DeadLetterMoveIdentity off ids =
     ids\<lparr>ids_dead_letter_moves := or_insert identity off (ids_dead_letter_moves ids)\<rparr>"

definition sparse_remember :: "offset \<Rightarrow> nat \<Rightarrow> log_checkpoint list \<Rightarrow> log_checkpoint list" where
  "sparse_remember off cursor cps =
     (if off mod SPARSE_INDEX_STRIDE \<noteq> 0 then cps
      else (if length cps = MAX_SPARSE_INDEX_ENTRIES then tl cps else cps) @
             [\<lparr>lc_offset = off, lc_cursor = cursor\<rparr>])"

definition sparse_start_for :: "offset \<Rightarrow> log_checkpoint list \<Rightarrow> nat" where
  "sparse_start_for off cps =
     (case find (\<lambda>c. lc_offset c \<le> off) (rev cps) of None \<Rightarrow> 0 | Some c \<Rightarrow> lc_cursor c)"

definition remember_record :: "record_index \<Rightarrow> record_index list \<Rightarrow> record_index list" where
  "remember_record r records =
     (if length records = MAX_IN_MEMORY_RECORDS then tl records else records) @ [r]"

definition remember_identity ::
  "string option \<Rightarrow> request_identity_kind option \<Rightarrow> offset \<Rightarrow> request_identity_index \<Rightarrow> request_identity_index" where
  "remember_identity request_id kind off ids =
     (case (request_id, kind) of (Some r, Some k) \<Rightarrow> identity_remember r k off ids | _ \<Rightarrow> ids)"

section \<open>System calls\<close>

definition log_next_fault :: "stream_log \<Rightarrow> io_fault \<times> stream_log" where
  "log_next_fault log =
     (case sl_script log of [] \<Rightarrow> (IoFine, log) | f # fs \<Rightarrow> (f, log\<lparr>sl_script := fs\<rparr>))"

definition log_call :: "(stream_log, broker_error, unit) op" where
  "log_call log =
     (case log_next_fault log of
        (IoFine, log1) \<Rightarrow> (Inr (), log1)
      | (IoFail e, log1) \<Rightarrow> (Inl (Io e), log1)
      | (IoPartial _ e, log1) \<Rightarrow> (Inl (Io e), log1))"

text \<open>\<open>write_all\<close> on the file, opened for appending; nothing is written for no bytes.\<close>

definition log_write :: "bytes \<Rightarrow> (stream_log, broker_error, unit) op" where
  "log_write bs log =
     (if bs = [] then (Inr (), log)
      else case log_next_fault log of
        (IoFine, log1) \<Rightarrow> (Inr (), log1\<lparr>sl_file := sl_file log1 @ bs\<rparr>)
      | (IoFail e, log1) \<Rightarrow> (Inl (Io e), log1)
      | (IoPartial n e, log1) \<Rightarrow>
          (Inl (Io e), log1\<lparr>sl_file := sl_file log1 @ take (min n (length bs - 1)) bs\<rparr>))"

definition log_sync :: "(stream_log, broker_error, unit) op" where
  "log_sync =
     and_then log_call (\<lambda>_. modify (\<lambda>log. log\<lparr>sl_synced := length (sl_file log)\<rparr>))"

text \<open>\<open>now_ms\<close>: the next reading of the wall clock.\<close>

definition now_ms :: "(stream_log, broker_error, nat) op" where
  "now_ms log =
     (case sl_clock log of [] \<Rightarrow> (Inr 0, log) | t # ts \<Rightarrow> (Inr (t mod 2 ^ 64), log\<lparr>sl_clock := ts\<rparr>))"

section \<open>Creation and recovery\<close>

definition empty_log :: "bytes \<Rightarrow> io_fault list \<Rightarrow> nat list \<Rightarrow> stream_log" where
  "empty_log contents script clock =
     \<lparr>sl_file = contents, sl_records = [], sl_sparse_index = [],
      sl_request_ids = \<lparr>ids_public = fmempty, ids_dead_letter_moves = fmempty\<rparr>, sl_next_offset = 0,
      sl_synced = 0, sl_script = script, sl_clock = clock\<rparr>"

text \<open>Creation opens a file that must not exist yet.\<close>

definition create_log :: "io_fault list \<Rightarrow> nat list \<Rightarrow> broker_error + stream_log" where
  "create_log script clock =
     (case log_call (empty_log [] script clock) of (Inl e, _) \<Rightarrow> Inl e | (Inr _, log) \<Rightarrow> Inr log)"

definition remember_parsed :: "nat \<Rightarrow> parsed_record \<Rightarrow> offset \<Rightarrow> stream_log \<Rightarrow> stream_log" where
  "remember_parsed cursor p next_offset log =
     log\<lparr>sl_sparse_index := sparse_remember (ri_offset (pr_index p)) cursor (sl_sparse_index log),
         sl_next_offset := next_offset,
         sl_request_ids := remember_identity (ri_request_id (pr_index p))
           (ri_request_identity_kind (pr_index p)) (ri_offset (pr_index p)) (sl_request_ids log),
         sl_records := remember_record (pr_index p) (sl_records log)\<rparr>"

function inspect_loop :: "bytes \<Rightarrow> nat \<Rightarrow> stream_log \<Rightarrow> broker_error + nat \<times> stream_log" where
  "inspect_loop file cursor log =
     (case read_next_record file cursor of
        Inl e \<Rightarrow> Inl e
      | Inr None \<Rightarrow> Inr (cursor, log)
      | Inr (Some p) \<Rightarrow>
          if ri_offset (pr_index p) \<noteq> sl_next_offset log
          then Inl (invalid_record_data ''record offsets are not contiguous'')
          else case checked_add64 (sl_next_offset log) 1 of
                 None \<Rightarrow> Inl (invalid_record_data ''record offset exceeds u64 range'')
               | Some next_offset \<Rightarrow>
                   inspect_loop file (pr_next_cursor p) (remember_parsed cursor p next_offset log))"
  by pat_completeness auto
termination
proof (relation "measure (\<lambda>(file, cursor, _). length file - cursor)", goal_cases)
  case 1
  show ?case by simp
next
  case (2 contents cursor log _ p next_offset)
  then have "cursor + RECORD_HEADER_LEN \<le> pr_next_cursor p" "pr_next_cursor p \<le> length contents"
    using read_next_record_progress [of contents cursor p] by auto
  then show ?case by (simp add: RECORD_HEADER_LEN_def)
qed

declare inspect_loop.simps [simp del]

text \<open>
  \<open>inspect\<close> rebuilds the indexes of a file: open, read its length, seek, scan. The scan counts as one
  call to the disk. The second result is where an incomplete tail starts, if there is one.
\<close>

definition inspect :: "bytes \<Rightarrow> io_fault list \<Rightarrow> nat list \<Rightarrow> broker_error + stream_log \<times> nat option" where
  "inspect file script clock =
     (case and_then log_call (\<lambda>_. and_then log_call (\<lambda>_. and_then log_call (\<lambda>_. log_call)))
          (empty_log file script clock) of
        (Inl e, _) \<Rightarrow> Inl e
      | (Inr _, log) \<Rightarrow>
          (case inspect_loop file 0 log of
             Inl e \<Rightarrow> Inl e
           | Inr (cursor, log1) \<Rightarrow>
               Inr (log1, if cursor \<noteq> length file then Some cursor else None)))"

definition finish_recovery :: "nat option \<Rightarrow> (stream_log, broker_error, unit) op" where
  "finish_recovery incomplete_tail =
     and_then
       (case incomplete_tail of
          None \<Rightarrow> return_op ()
        | Some cursor \<Rightarrow>
            and_then log_call (\<lambda>_.
            modify (\<lambda>log. log\<lparr>sl_file := take cursor (sl_file log), sl_synced := min cursor (sl_synced log)\<rparr>))) (\<lambda>_.
     log_call)"

section \<open>Reading\<close>

definition scan_start :: "offset \<Rightarrow> stream_log \<Rightarrow> nat" where
  "scan_start off log = sparse_start_for off (sl_sparse_index log)"

function scan_find :: "bytes \<Rightarrow> nat \<Rightarrow> offset \<Rightarrow> broker_error + record_index" where
  "scan_find file cursor off =
     (case read_next_record file cursor of
        Inl e \<Rightarrow> Inl e
      | Inr None \<Rightarrow> Inl (CorruptRecord off)
      | Inr (Some p) \<Rightarrow>
          if ri_offset (pr_index p) = off then Inr (pr_index p)
          else scan_find file (pr_next_cursor p) off)"
  by pat_completeness auto
termination
proof (relation "measure (\<lambda>(file, cursor, _). length file - cursor)", goal_cases)
  case 1
  show ?case by simp
next
  case (2 contents cursor off _ p)
  then have "cursor + RECORD_HEADER_LEN \<le> pr_next_cursor p" "pr_next_cursor p \<le> length contents"
    using read_next_record_progress [of contents cursor p] by auto
  then show ?case by (simp add: RECORD_HEADER_LEN_def)
qed

declare scan_find.simps [simp del]

text \<open>The cold paths read the file's length, seek, and scan.\<close>

definition find_record :: "offset \<Rightarrow> (stream_log, broker_error, record_index) op" where
  "find_record off =
     and_then (reads (\<lambda>log. find (\<lambda>r. ri_offset r = off) (sl_records log))) (\<lambda>cached.
     case cached of
       Some r \<Rightarrow> return_op r
     | None \<Rightarrow>
         and_then log_call (\<lambda>_. and_then log_call (\<lambda>_. and_then log_call (\<lambda>_.
         and_then (reads (\<lambda>log. scan_find (sl_file log) (scan_start off log) off)) lift_res))))"

text \<open>\<open>read_exact\<close> fails when the file ends before the buffer is full, and reads nothing into no buffer.\<close>

definition read_payload :: "record_index \<Rightarrow> (stream_log, broker_error, bytes) op" where
  "read_payload r =
     and_then log_call (\<lambda>_.
     and_then (if ri_payload_len r = 0 then return_op () else log_call) (\<lambda>_.
     and_then (reads (\<lambda>log. take (ri_payload_len r) (drop (ri_payload_offset r) (sl_file log)))) (\<lambda>payload.
     if length payload < ri_payload_len r
     then throw (Io (IoError IoUnexpectedEof ''failed to fill whole buffer''))
     else return_op payload)))"

definition read_message :: "string \<Rightarrow> offset \<Rightarrow> (stream_log, broker_error, message) op" where
  "read_message stream off =
     and_then (find_record off) (\<lambda>index.
     and_then (read_payload index) (\<lambda>payload.
     return_op \<lparr>m_stream = stream, m_offset = ri_offset index, m_key = ri_key index, m_payload = payload,
       m_published_at_ms = ri_published_at_ms index, m_delivery_token = None, m_delivery_attempt = None\<rparr>))"

definition read_replay_message :: "string \<Rightarrow> offset \<Rightarrow> (stream_log, broker_error, replay_message) op" where
  "read_replay_message stream off =
     and_then (reads sl_next_offset) (\<lambda>next_offset.
     if off \<ge> next_offset
     then throw (HistoryUnavailable stream off 0 next_offset)
     else and_then (find_record off) (\<lambda>index.
          and_then (read_payload index) (\<lambda>payload.
          return_op \<lparr>rm_stream = stream, rm_offset = ri_offset index, rm_key = ri_key index,
            rm_payload = payload, rm_published_at_ms = ri_published_at_ms index\<rparr>)))"

definition record_is_candidate ::
  "offset fset \<Rightarrow> (offset fset \<times> string fset) option \<Rightarrow> record_index \<Rightarrow> bool" where
  "record_is_candidate acknowledged in_flight r =
     (if ri_offset r |\<in>| acknowledged \<or> (case in_flight of None \<Rightarrow> False | Some (offsets, _) \<Rightarrow> ri_offset r |\<in>| offsets)
      then False
      else case ri_key r of
             None \<Rightarrow> True
           | Some key \<Rightarrow> (case in_flight of None \<Rightarrow> True | Some (_, keys) \<Rightarrow> key |\<notin>| keys))"

function tail_search :: "record_index list \<Rightarrow> offset \<Rightarrow> nat \<Rightarrow> nat \<Rightarrow> nat" where
  "tail_search records off low high =
     (if low < high
      then let middle = low + (high - low) div 2
           in if ri_offset (records ! middle) < off then tail_search records off (middle + 1) high
              else tail_search records off low middle
      else low)"
  by pat_completeness auto
termination by (relation "measure (\<lambda>(_, _, low, high). high - low)") auto

declare tail_search.simps [simp del]

definition tail_start_index :: "offset \<Rightarrow> stream_log \<Rightarrow> nat" where
  "tail_start_index off log = tail_search (sl_records log) off 0 (length (sl_records log))"

function scan_candidate ::
  "bytes \<Rightarrow> nat \<Rightarrow> offset \<Rightarrow> offset fset \<Rightarrow> (offset fset \<times> string fset) option \<Rightarrow> broker_error + record_index option" where
  "scan_candidate file cursor committed acknowledged in_flight =
     (case read_next_record file cursor of
        Inl e \<Rightarrow> Inl e
      | Inr None \<Rightarrow> Inr None
      | Inr (Some p) \<Rightarrow>
          if ri_offset (pr_index p) \<ge> committed \<and> record_is_candidate acknowledged in_flight (pr_index p)
          then Inr (Some (pr_index p))
          else scan_candidate file (pr_next_cursor p) committed acknowledged in_flight)"
  by pat_completeness auto
termination
proof (relation "measure (\<lambda>(file, cursor, _). length file - cursor)", goal_cases)
  case 1
  show ?case by simp
next
  case (2 contents cursor committed acknowledged in_flight _ p)
  then have "cursor + RECORD_HEADER_LEN \<le> pr_next_cursor p" "pr_next_cursor p \<le> length contents"
    using read_next_record_progress [of contents cursor p] by auto
  then show ?case by (simp add: RECORD_HEADER_LEN_def)
qed

declare scan_candidate.simps [simp del]

definition find_candidate ::
  "offset \<Rightarrow> offset fset \<Rightarrow> (offset fset \<times> string fset) option \<Rightarrow> (stream_log, broker_error, record_index option) op" where
  "find_candidate committed acknowledged in_flight =
     and_then (reads id) (\<lambda>log.
     case sl_records log of
       [] \<Rightarrow> return_op None
     | first # _ \<Rightarrow>
         if committed \<ge> ri_offset first
         then return_op (find (record_is_candidate acknowledged in_flight)
                (drop (tail_start_index committed log) (sl_records log)))
         else and_then log_call (\<lambda>_. and_then log_call (\<lambda>_. and_then log_call (\<lambda>_.
              lift_res (scan_candidate (sl_file log) (scan_start committed log) committed acknowledged in_flight)))))"

section \<open>Appending\<close>

definition check_request_id :: "record_identity \<Rightarrow> broker_error + nat" where
  "check_request_id identity =
     (let request_id_len = length (id_text identity)
      in if request_id_len > u32_max
         then Inl (InvalidRecord ''request ID length exceeds u32 storage representation'')
         else if request_id_len > MAX_REQUEST_ID_LEN
         then Inl (InvalidRecord (''request ID is '' @ dec_string request_id_len @
                '' bytes; stream record limit is '' @ dec_string MAX_REQUEST_ID_LEN @ '' bytes''))
         else Inr request_id_len)"

definition write_frame :: "bytes \<times> bytes \<times> bytes \<times> bytes \<Rightarrow> (stream_log, broker_error, unit) op" where
  "write_frame f =
     (case f of (header, key, request_id, payload) \<Rightarrow>
        and_then (log_write header) (\<lambda>_.
        and_then (log_write key) (\<lambda>_.
        and_then (log_write request_id) (\<lambda>_.
        log_write payload))))"

text \<open>The index entries of a record that has been written at the end of the file.\<close>

definition index_appended ::
  "string option \<Rightarrow> bytes \<Rightarrow> record_identity \<Rightarrow> offset \<Rightarrow> nat \<Rightarrow> stream_log \<Rightarrow> stream_log" where
  "index_appended key payload identity off published_at_ms log =
     (let payload_offset = length (sl_file log) - length payload;
          record_cursor = payload_offset - length (id_text identity) - length (key_text key) - RECORD_HEADER_LEN
      in log\<lparr>sl_sparse_index := sparse_remember off record_cursor (sl_sparse_index log),
             sl_records := remember_record
               \<lparr>ri_offset = off, ri_payload_offset = payload_offset, ri_payload_len = length payload,
                ri_key = key, ri_request_id = identity_request_id identity,
                ri_request_identity_kind = identity_kind identity,
                ri_published_at_ms = published_at_ms\<rparr> (sl_records log),
             sl_request_ids := remember_identity (identity_request_id identity) (identity_kind identity) off (sl_request_ids log),
             sl_next_offset := saturating_add64 off 1\<rparr>)"

definition append_record_with_sync ::
  "string option \<Rightarrow> bytes \<Rightarrow> record_identity \<Rightarrow> bool \<Rightarrow> (stream_log, broker_error, offset) op" where
  "append_record_with_sync key payload identity sync =
     and_then (lift_res (record_lengths (length (key_text key)) (length payload))) (\<lambda>_.
     and_then (lift_res (check_request_id identity)) (\<lambda>_.
     and_then (reads sl_next_offset) (\<lambda>off.
     and_then now_ms (\<lambda>published_at_ms.
     and_then (write_frame (record_frame key payload identity off published_at_ms)) (\<lambda>_.
     and_then (if sync then log_sync else return_op ()) (\<lambda>_.
     and_then log_call (\<lambda>_.
     and_then (modify (index_appended key payload identity off published_at_ms)) (\<lambda>_.
     return_op off))))))))"

definition append_log :: "string option \<Rightarrow> bytes \<Rightarrow> (stream_log, broker_error, offset) op" where
  "append_log key payload = append_record_with_sync key payload NoIdentity True"

definition append_with_request_id :: "string option \<Rightarrow> bytes \<Rightarrow> string \<Rightarrow> (stream_log, broker_error, offset) op" where
  "append_with_request_id key payload request_id = append_record_with_sync key payload (Public request_id) True"

definition request_offset :: "string \<Rightarrow> stream_log \<Rightarrow> offset option" where
  "request_offset request_id log = identity_get request_id PublicIdentity (sl_request_ids log)"

definition dead_letter_move_offset :: "string \<Rightarrow> stream_log \<Rightarrow> offset option" where
  "dead_letter_move_offset move_id log = identity_get move_id DeadLetterMoveIdentity (sl_request_ids log)"

definition request_offset_for_content ::
  "string \<Rightarrow> string option \<Rightarrow> bytes \<Rightarrow> (stream_log, broker_error, offset option) op" where
  "request_offset_for_content request_id key payload =
     and_then (reads (request_offset request_id)) (\<lambda>known.
     case known of
       None \<Rightarrow> return_op None
     | Some off \<Rightarrow>
         and_then (find_record off) (\<lambda>existing.
         if key_text (ri_key existing) \<noteq> key_text key then throw RequestIdContentConflict
         else and_then (read_payload existing) (\<lambda>stored.
              if stored \<noteq> payload then throw RequestIdContentConflict else return_op (Some off))))"

definition append_with_move_id :: "string option \<Rightarrow> bytes \<Rightarrow> string \<Rightarrow> (stream_log, broker_error, offset) op" where
  "append_with_move_id key payload move_id =
     and_then (reads (dead_letter_move_offset move_id)) (\<lambda>known.
     case known of
       Some off \<Rightarrow>
         and_then (find_record off) (\<lambda>existing.
         if ri_key existing \<noteq> key
         then throw (invalid_record_data ''dead-letter move identity has different key or payload'')
         else and_then (read_payload existing) (\<lambda>stored.
              if stored \<noteq> payload
              then throw (invalid_record_data ''dead-letter move identity has different key or payload'')
              else return_op off))
     | None \<Rightarrow> append_record_with_sync key payload (DeadLetterMove move_id) True)"

fun is_per_record_rejection :: "broker_error \<Rightarrow> bool" where
  "is_per_record_rejection (InvalidRecord _) = True"
| "is_per_record_rejection (Io e) = (io_error_kind e = IoInvalidInput)"
| "is_per_record_rejection _ = False"

text \<open>One round of the batch loop: the outcome, and whether a record was appended.\<close>

definition batch_identity :: "publish_record \<Rightarrow> record_identity" where
  "batch_identity r = (case pr_request_id r of None \<Rightarrow> NoIdentity | Some request_id \<Rightarrow> Public request_id)"

definition lookup_request :: "publish_record \<Rightarrow> (stream_log, broker_error, offset option) op" where
  "lookup_request r =
     (case pr_request_id r of
        None \<Rightarrow> return_op None
      | Some request_id \<Rightarrow> request_offset_for_content request_id (pr_key r) (pr_payload r))"

definition append_batch_record ::
  "publish_record \<Rightarrow> (stream_log, broker_error, (broker_error + offset) \<times> bool) op" where
  "append_batch_record r log =
     (case lookup_request r log of
        (Inr (Some off), log1) \<Rightarrow> (Inr (Inr off, False), log1)
      | (Inl e, log1) \<Rightarrow>
          if e = RequestIdContentConflict then (Inr (Inl e, False), log1) else (Inl e, log1)
      | (Inr None, log1) \<Rightarrow>
          (case append_record_with_sync (pr_key r) (pr_payload r) (batch_identity r) False log1 of
             (Inr off, log2) \<Rightarrow> (Inr (Inr off, True), log2)
           | (Inl e, log2) \<Rightarrow>
               if is_per_record_rejection e then (Inr (Inl e, False), log2) else (Inl e, log2)))"

primrec append_batch_loop ::
  "publish_record list \<Rightarrow> (stream_log, broker_error, (broker_error + offset) list \<times> bool) op" where
  "append_batch_loop [] = return_op ([], False)"
| "append_batch_loop (r # rs) =
     and_then (append_batch_record r) (\<lambda>(outcome, appended).
     and_then (append_batch_loop rs) (\<lambda>(outcomes, rest).
     return_op (outcome # outcomes, appended \<or> rest)))"

definition append_batch :: "publish_record list \<Rightarrow> (stream_log, broker_error, (broker_error + offset) list) op" where
  "append_batch records =
     and_then (append_batch_loop records) (\<lambda>(outcomes, appended).
     and_then (if appended then log_sync else return_op ()) (\<lambda>_.
     return_op outcomes))"

definition storage_bytes :: "(stream_log, broker_error, nat) op" where
  "storage_bytes = and_then log_call (\<lambda>_. reads (\<lambda>log. length (sl_file log)))"

end
