(* ===== verification/Log_Recovery.thy ===== *)
theory Log_Recovery
  imports Stream_Log
begin

text \<open>
  Correctness of the stream log: a log refines the list of its entries. The file is the
  concatenation of their frames, and every index of the running log is a function of that list:
  reads, candidate searches and request identities answer from the entries, and scanning the
  file after a restart or a crash rebuilds the same indexes.
\<close>

section \<open>The entries of a log\<close>

record log_entry =
  le_key :: "string option"
  le_payload :: bytes
  le_identity :: record_identity
  le_published_at_ms :: nat

definition entry_bytes :: "offset \<Rightarrow> log_entry \<Rightarrow> bytes" where
  "entry_bytes off e = encoded_record (le_key e) (le_payload e) (le_identity e) off (le_published_at_ms e)"

primrec frames_from :: "offset \<Rightarrow> log_entry list \<Rightarrow> bytes" where
  "frames_from off [] = []"
| "frames_from off (e # es) = entry_bytes off e @ frames_from (Suc off) es"

definition log_bytes :: "log_entry list \<Rightarrow> bytes" where
  "log_bytes es = frames_from 0 es"

definition entry_cursor :: "log_entry list \<Rightarrow> offset \<Rightarrow> nat" where
  "entry_cursor es i = length (log_bytes (take i es))"

definition entry_index :: "log_entry list \<Rightarrow> offset \<Rightarrow> record_index" where
  "entry_index es i =
     disk_index (entry_cursor es i) (le_key (es ! i)) (le_payload (es ! i)) (le_identity (es ! i)) i
       (le_published_at_ms (es ! i))"

definition entry_ok :: "offset \<Rightarrow> log_entry \<Rightarrow> bool" where
  "entry_ok off e \<longleftrightarrow>
     record_fits (le_key e) (le_payload e) (le_identity e) \<and>
     record_typed (le_key e) (le_identity e) off (le_published_at_ms e) \<and> le_key e \<noteq> Some ''''"

definition entries_ok :: "log_entry list \<Rightarrow> bool" where
  "entries_ok es \<longleftrightarrow> length es \<le> u64_max \<and> (\<forall>i<length es. entry_ok i (es ! i))"

definition torn_frame :: "bytes \<Rightarrow> bool" where
  "torn_frame torn \<longleftrightarrow>
     (\<exists>key payload identity off ts n. record_fits key payload identity \<and>
        n < length (encoded_record key payload identity off ts) \<and>
        torn = take n (encoded_record key payload identity off ts))"

lemma length_entry_bytes: "0 < length (entry_bytes off e)"
  by (simp add: entry_bytes_def length_encoded_record RECORD_HEADER_LEN_def)

lemma frames_from_append:
  "frames_from off (es @ fs) = frames_from off es @ frames_from (off + length es) fs"
  by (induction es arbitrary: off) simp_all

lemma log_bytes_snoc: "log_bytes (es @ [e]) = log_bytes es @ entry_bytes (length es) e"
  by (simp add: log_bytes_def frames_from_append)

lemma log_bytes_Nil [simp]: "log_bytes [] = []"
  by (simp add: log_bytes_def)

lemma log_bytes_split:
  assumes "i < length es"
  shows "log_bytes es = log_bytes (take i es) @ entry_bytes i (es ! i) @ frames_from (Suc i) (drop (Suc i) es)"
proof -
  have "log_bytes es = log_bytes (take i es @ es ! i # drop (Suc i) es)"
    using id_take_nth_drop [OF assms] by simp
  with assms show ?thesis by (simp add: log_bytes_def frames_from_append min_absorb2)
qed

lemma entry_cursor_0 [simp]: "entry_cursor es 0 = 0"
  by (simp add: entry_cursor_def)

lemma entry_cursor_end: "length es \<le> i \<Longrightarrow> entry_cursor es i = length (log_bytes es)"
  by (simp add: entry_cursor_def)

lemma entry_cursor_Suc:
  "i < length es \<Longrightarrow> entry_cursor es (Suc i) = entry_cursor es i + length (entry_bytes i (es ! i))"
  by (simp add: entry_cursor_def take_Suc_conv_app_nth log_bytes_snoc min_absorb2)

lemma entry_cursor_mono: "i \<le> j \<Longrightarrow> entry_cursor es i \<le> entry_cursor es j"
proof (induction rule: dec_induct)
  case (step j)
  then show ?case by (cases "j < length es") (simp_all add: entry_cursor_Suc entry_cursor_end)
qed simp

lemma entry_cursor_snoc: "i \<le> length es \<Longrightarrow> entry_cursor (es @ fs) i = entry_cursor es i"
  by (simp add: entry_cursor_def)

lemma entry_index_snoc: "i < length es \<Longrightarrow> entry_index (es @ fs) i = entry_index es i"
  by (simp add: entry_index_def entry_cursor_snoc nth_append)

lemma entry_index_fields [simp]:
  "ri_offset (entry_index es i) = i"
  "ri_payload_len (entry_index es i) = length (le_payload (es ! i))"
  "ri_request_id (entry_index es i) = identity_request_id (le_identity (es ! i))"
  "ri_request_identity_kind (entry_index es i) = identity_kind (le_identity (es ! i))"
  "ri_published_at_ms (entry_index es i) = le_published_at_ms (es ! i)"
  by (simp_all add: entry_index_def disk_index_def)

lemma entry_index_key [simp]: "entry_ok i (es ! i) \<Longrightarrow> ri_key (entry_index es i) = le_key (es ! i)"
  by (simp add: entry_index_def disk_index_def entry_ok_def)

lemma entries_okD: "entries_ok es \<Longrightarrow> i < length es \<Longrightarrow> entry_ok i (es ! i)"
  by (simp add: entries_ok_def)

lemma entries_ok_take: "entries_ok es \<Longrightarrow> entries_ok (take i es)"
  by (auto simp: entries_ok_def)

lemma entries_ok_snoc:
  "entries_ok (es @ [e]) \<longleftrightarrow> entries_ok es \<and> entry_ok (length es) e \<and> length es < u64_max"
  by (auto simp: entries_ok_def nth_append less_Suc_eq)

section \<open>Reading frames at their cursors\<close>

lemma drop_entry:
  assumes "i < length es"
  shows "drop (entry_cursor es i) (log_bytes es @ post) =
    entry_bytes i (es ! i) @ frames_from (Suc i) (drop (Suc i) es) @ post"
  unfolding log_bytes_split [OF assms] entry_cursor_def by simp

lemma read_entry:
  assumes "entries_ok es" "i < length es"
  shows "read_next_record (log_bytes es @ post) (entry_cursor es i) =
    Inr (Some \<lparr>pr_index = entry_index es i, pr_next_cursor = entry_cursor es (Suc i)\<rparr>)"
  using read_frame [OF _ _ drop_entry [OF assms(2), unfolded entry_bytes_def]] entries_okD [OF assms]
  by (simp add: entry_ok_def entry_index_def entry_cursor_Suc [OF assms(2)] entry_bytes_def)

lemma read_past_end:
  assumes "torn_frame torn"
  shows "read_next_record (log_bytes es @ torn) (entry_cursor es (length es)) = Inr None"
proof -
  from assms obtain key payload identity off ts n where *: "record_fits key payload identity"
    "n < length (encoded_record key payload identity off ts)" "torn = take n (encoded_record key payload identity off ts)"
    by (auto simp: torn_frame_def)
  then have "length torn = n" by simp
  with * show ?thesis
    by (intro read_torn_frame [OF *(1,2)]) (simp_all add: entry_cursor_end)
qed

lemma torn_frame_Nil [simp]: "torn_frame []"
  unfolding torn_frame_def
  by (intro exI [of _ None] exI [of _ "[]"] exI [of _ NoIdentity] exI [of _ "0::nat"])
    (simp add: record_fits_def key_text_def id_text_def length_encoded_record RECORD_HEADER_LEN_def)

lemma payload_of_entry:
  assumes "i < length es"
  shows "take (length (le_payload (es ! i))) (drop (ri_payload_offset (entry_index es i)) (log_bytes es @ post)) =
    le_payload (es ! i)"
  unfolding entry_index_def
  by (rule payload_in_file [OF drop_entry [OF assms, unfolded entry_bytes_def]])

section \<open>The indexes as functions of the entries\<close>

definition tail_of :: "log_entry list \<Rightarrow> record_index list" where
  "tail_of es = map (entry_index es) [length es - MAX_IN_MEMORY_RECORDS ..< length es]"

definition checkpoint_count :: "log_entry list \<Rightarrow> nat" where
  "checkpoint_count es = (length es + SPARSE_INDEX_STRIDE - 1) div SPARSE_INDEX_STRIDE"

definition checkpoint_at :: "log_entry list \<Rightarrow> nat \<Rightarrow> log_checkpoint" where
  "checkpoint_at es k =
     \<lparr>lc_offset = k * SPARSE_INDEX_STRIDE, lc_cursor = entry_cursor es (k * SPARSE_INDEX_STRIDE)\<rparr>"

definition checkpoints_of :: "log_entry list \<Rightarrow> log_checkpoint list" where
  "checkpoints_of es =
     map (checkpoint_at es) [checkpoint_count es - MAX_SPARSE_INDEX_ENTRIES ..< checkpoint_count es]"

definition identities_of :: "log_entry list \<Rightarrow> request_identity_index" where
  "identities_of es =
     fold (\<lambda>i. remember_identity (identity_request_id (le_identity (es ! i))) (identity_kind (le_identity (es ! i))) i)
       [0..<length es] \<lparr>ids_public = fmempty, ids_dead_letter_moves = fmempty\<rparr>"

definition indexed :: "log_entry list \<Rightarrow> stream_log \<Rightarrow> stream_log" where
  "indexed es log =
     log\<lparr>sl_records := tail_of es, sl_sparse_index := checkpoints_of es,
         sl_request_ids := identities_of es, sl_next_offset := length es\<rparr>"

lemma drop_last_window:
  fixes n m :: nat
  assumes "0 < m"
  shows "(if length (map f [n - m ..< n]) = m then tl (map f [n - m ..< n]) else map f [n - m ..< n]) @ [f n] =
    map f [Suc n - m ..< Suc n]"
proof (cases "m \<le> n")
  case True
  then have "[n - m ..< n] = (n - m) # [Suc (n - m) ..< n]" using assms by (simp add: upt_conv_Cons)
  moreover have "Suc (n - m) = Suc n - m" using True by simp
  ultimately show ?thesis using True assms by simp
next
  case False
  then show ?thesis by simp
qed

lemma tail_of_snoc: "tail_of (es @ [e]) = remember_record (entry_index (es @ [e]) (length es)) (tail_of es)"
proof -
  have old: "tail_of es = map (entry_index (es @ [e])) [length es - MAX_IN_MEMORY_RECORDS ..< length es]"
    by (simp add: tail_of_def entry_index_snoc)
  have pos: "0 < MAX_IN_MEMORY_RECORDS" by (simp add: MAX_IN_MEMORY_RECORDS_def)
  show ?thesis
    unfolding remember_record_def old drop_last_window [OF pos] by (simp add: tail_of_def)
qed

lemma checkpoint_count_eq:
  "checkpoint_count es =
     length es div SPARSE_INDEX_STRIDE + (if length es mod SPARSE_INDEX_STRIDE = 0 then 0 else 1)"
proof -
  define q r where "q = length es div SPARSE_INDEX_STRIDE" and "r = length es mod SPARSE_INDEX_STRIDE"
  have es: "length es = r + q * 64" and r: "r < 64"
    by (simp_all add: q_def r_def SPARSE_INDEX_STRIDE_def)
  have "checkpoint_count es = (r + 63 + q * 64) div 64"
    by (simp add: checkpoint_count_def es SPARSE_INDEX_STRIDE_def add_ac)
  also have "\<dots> = q + (r + 63) div 64" by simp
  also have "(r + 63) div 64 = (if r = 0 then 0 else 1)"
    using r by (auto intro: div_nat_eqI)
  finally show ?thesis by (simp only: q_def r_def)
qed

lemma checkpoint_count_Suc:
  "checkpoint_count (es @ [e]) =
     (if length es mod SPARSE_INDEX_STRIDE = 0 then Suc (checkpoint_count es) else checkpoint_count es)"
  unfolding checkpoint_count_eq by (simp add: SPARSE_INDEX_STRIDE_def mod_Suc div_Suc)

lemma checkpoint_count_exact:
  "length es mod SPARSE_INDEX_STRIDE = 0 \<Longrightarrow> checkpoint_count es * SPARSE_INDEX_STRIDE = length es"
  unfolding checkpoint_count_eq by (auto simp: mod_eq_0_iff_dvd)

lemma checkpoint_count_less:
  assumes "k < checkpoint_count es"
  shows "k * SPARSE_INDEX_STRIDE < length es"
proof -
  let ?d = "length es div SPARSE_INDEX_STRIDE" and ?m = "length es mod SPARSE_INDEX_STRIDE"
  have es: "?d * SPARSE_INDEX_STRIDE + ?m = length es" by simp
  have "k < ?d \<or> k = ?d \<and> 0 < ?m"
    using assms by (auto simp: checkpoint_count_eq split: if_splits)
  then show ?thesis
  proof
    assume "k < ?d"
    then have "k * SPARSE_INDEX_STRIDE < ?d * SPARSE_INDEX_STRIDE" by (simp add: SPARSE_INDEX_STRIDE_def)
    with es show ?thesis by linarith
  next
    assume k: "k = ?d \<and> 0 < ?m"
    then have "k * SPARSE_INDEX_STRIDE + ?m = length es" using es by simp
    with k show ?thesis by linarith
  qed
qed

lemma checkpoint_at_snoc: "k < checkpoint_count es \<Longrightarrow> checkpoint_at (es @ fs) k = checkpoint_at es k"
  by (simp add: checkpoint_at_def entry_cursor_snoc checkpoint_count_less less_imp_le)

lemma checkpoints_of_snoc:
  "checkpoints_of (es @ [e]) = sparse_remember (length es) (length (log_bytes es)) (checkpoints_of es)"
proof (cases "length es mod SPARSE_INDEX_STRIDE = 0")
  case True
  have old: "checkpoints_of es = map (checkpoint_at (es @ [e]))
      [checkpoint_count es - MAX_SPARSE_INDEX_ENTRIES ..< checkpoint_count es]"
    by (simp add: checkpoints_of_def checkpoint_at_snoc)
  have new: "checkpoint_at (es @ [e]) (checkpoint_count es) = \<lparr>lc_offset = length es, lc_cursor = length (log_bytes es)\<rparr>"
    by (simp add: checkpoint_at_def checkpoint_count_exact [OF True] entry_cursor_snoc entry_cursor_end)
  have pos: "0 < MAX_SPARSE_INDEX_ENTRIES" by (simp add: MAX_SPARSE_INDEX_ENTRIES_def)
  have "sparse_remember (length es) (length (log_bytes es)) (checkpoints_of es) =
      map (checkpoint_at (es @ [e])) [Suc (checkpoint_count es) - MAX_SPARSE_INDEX_ENTRIES ..< Suc (checkpoint_count es)]"
    unfolding drop_last_window [OF pos, symmetric] new using True by (simp add: sparse_remember_def old)
  with True show ?thesis by (simp add: checkpoints_of_def checkpoint_count_Suc del: upt_Suc)
next
  case False
  then show ?thesis
    by (simp add: sparse_remember_def checkpoints_of_def checkpoint_count_Suc checkpoint_at_snoc)
qed

lemma identities_of_snoc:
  "identities_of (es @ [e]) =
     remember_identity (identity_request_id (le_identity e)) (identity_kind (le_identity e)) (length es) (identities_of es)"
proof -
  have "fold (\<lambda>i. remember_identity (identity_request_id (le_identity ((es @ [e]) ! i))) (identity_kind (le_identity ((es @ [e]) ! i))) i)
      [0..<length es] ids =
    fold (\<lambda>i. remember_identity (identity_request_id (le_identity (es ! i))) (identity_kind (le_identity (es ! i))) i)
      [0..<length es] ids" for ids
    by (rule fold_cong) (simp_all add: nth_append)
  then show ?thesis by (simp add: identities_of_def)
qed

lemmas index_steps = tail_of_snoc checkpoints_of_snoc identities_of_snoc

lemma identity_get_remember:
  "identity_get r k (remember_identity rid kd off ids) =
     (case identity_get r k ids of
        Some o1 \<Rightarrow> Some o1
      | None \<Rightarrow> if rid = Some r \<and> kd = Some k then Some off else None)"
proof (cases "rid = None \<or> kd = None")
  case True
  then show ?thesis by (auto simp: remember_identity_def split: option.split)
next
  case False
  then obtain rid' kd' where "rid = Some rid'" "kd = Some kd'" by auto
  then show ?thesis
    by (cases k; cases kd') (auto simp: remember_identity_def split: option.split)
qed

lemma find_append: "find p (xs @ ys) = (case find p xs of None \<Rightarrow> find p ys | Some x \<Rightarrow> Some x)"
  by (induction xs) simp_all

text \<open>The identity index answers with the first entry that carries the identity.\<close>

lemma identity_get_entries:
  "identity_get r k (identities_of es) =
     find (\<lambda>i. identity_request_id (le_identity (es ! i)) = Some r \<and> identity_kind (le_identity (es ! i)) = Some k)
       [0..<length es]"
proof (induction es rule: rev_induct)
  case Nil
  show ?case by (cases k) (simp_all add: identities_of_def)
next
  case (snoc e es)
  have "find (\<lambda>i. identity_request_id (le_identity ((es @ [e]) ! i)) = Some r \<and> identity_kind (le_identity ((es @ [e]) ! i)) = Some k)
      [0..<length es] = identity_get r k (identities_of es)"
    unfolding snoc.IH by (rule find_cong) (auto simp: nth_append)
  then show ?case
    by (auto simp: identities_of_snoc identity_get_remember find_append split: option.split)
qed

section \<open>Scanning\<close>

lemma indexed_Nil: "indexed [] (empty_log contents script clock) = empty_log contents script clock"
  by (simp add: indexed_def tail_of_def checkpoints_of_def checkpoint_count_def identities_of_def empty_log_def
      SPARSE_INDEX_STRIDE_def)

lemma indexed_idem [simp]: "indexed es (indexed fs log) = indexed es log"
  by (simp add: indexed_def)

lemma remember_parsed_entry:
  assumes "i < length es"
  shows "remember_parsed (entry_cursor es i) \<lparr>pr_index = entry_index es i, pr_next_cursor = c\<rparr> (Suc i) (indexed (take i es) log) =
    indexed (take (Suc i) es) log"
proof -
  have t: "take (Suc i) es = take i es @ [es ! i]" and l: "length (take i es) = i"
    using assms by (simp_all add: take_Suc_conv_app_nth)
  have "entry_index (take i es @ [es ! i]) i = entry_index es i"
    using entry_index_snoc [of i "take (Suc i) es" "drop (Suc i) es", unfolded append_take_drop_id] assms by (simp add: t)
  then show ?thesis
    using tail_of_snoc [of "take i es" "es ! i"] checkpoints_of_snoc [of "take i es" "es ! i"]
      identities_of_snoc [of "take i es" "es ! i"] assms
    unfolding t l
    by (intro stream_log.equality) (simp_all add: remember_parsed_def indexed_def entry_cursor_def l min_absorb2)
qed

lemma inspect_loop_entries:
  assumes "entries_ok es" "torn_frame torn" "i \<le> length es"
  shows "inspect_loop (log_bytes es @ torn) (entry_cursor es i) (indexed (take i es) log) =
    Inr (length (log_bytes es), indexed es log)"
  using assms(3)
proof (induction rule: inc_induct)
  case base
  show ?case
    by (subst inspect_loop.simps, simp add: read_past_end [OF assms(2)]) (simp add: entry_cursor_end)
next
  case (step i)
  then have i: "i < length es" by simp
  then have n: "checked_add64 i (Suc 0) = Some (Suc i)"
    using assms(1) by (simp add: checked_add64_def entries_ok_def)
  have o: "sl_next_offset (indexed (take i es) log) = i" using i by (simp add: indexed_def)
  show ?case
    by (subst inspect_loop.simps) (simp add: read_entry [OF assms(1) i] o n remember_parsed_entry [OF i] step.IH)
qed

text \<open>Every scan from a cursor below an entry finds it.\<close>

lemma scan_find_entry:
  assumes "entries_ok es" "off < length es" "i \<le> off"
  shows "scan_find (log_bytes es @ post) (entry_cursor es i) off = Inr (entry_index es off)"
  using assms(3)
proof (induction rule: inc_induct)
  case base
  show ?case by (subst scan_find.simps) (simp add: read_entry assms)
next
  case (step i)
  with assms have "i < length es" "i \<noteq> off" by simp_all
  with step.IH show ?case by (subst scan_find.simps) (simp add: read_entry assms)
qed

lemma scan_find_absent:
  assumes "entries_ok es" "torn_frame torn" "length es \<le> off" "i \<le> length es"
  shows "scan_find (log_bytes es @ torn) (entry_cursor es i) off = Inl (CorruptRecord off)"
  using assms(4)
proof (induction rule: inc_induct)
  case base
  show ?case by (subst scan_find.simps) (simp add: read_past_end assms)
next
  case (step i)
  with assms have "i < length es" "i \<noteq> off" by simp_all
  with step.IH show ?case by (subst scan_find.simps) (simp add: read_entry assms)
qed

text \<open>The abstract search: the first entry at or after the committed offset that is eligible.\<close>

definition eligible ::
  "offset fset \<Rightarrow> (offset fset \<times> string fset) option \<Rightarrow> log_entry list \<Rightarrow> offset \<Rightarrow> bool" where
  "eligible acknowledged in_flight es i \<longleftrightarrow>
     i |\<notin>| acknowledged \<and>
     (case in_flight of
        None \<Rightarrow> True
      | Some (offsets, keys) \<Rightarrow>
          i |\<notin>| offsets \<and> (case le_key (es ! i) of None \<Rightarrow> True | Some k \<Rightarrow> k |\<notin>| keys))"

definition first_eligible ::
  "offset \<Rightarrow> offset fset \<Rightarrow> (offset fset \<times> string fset) option \<Rightarrow> log_entry list \<Rightarrow> offset option" where
  "first_eligible committed acknowledged in_flight es =
     find (eligible acknowledged in_flight es) [committed..<length es]"

lemma candidate_eligible:
  assumes "entries_ok es" "i < length es"
  shows "record_is_candidate acknowledged in_flight (entry_index es i) = eligible acknowledged in_flight es i"
  using entries_okD [OF assms]
  by (auto simp: record_is_candidate_def eligible_def split: option.split)

lemma scan_candidate_from:
  assumes "entries_ok es" "torn_frame torn" "i \<le> length es"
  shows "scan_candidate (log_bytes es @ torn) (entry_cursor es i) committed acknowledged in_flight =
    Inr (map_option (entry_index es) (find (eligible acknowledged in_flight es) [max i committed..<length es]))"
  using assms(3)
proof (induction rule: inc_induct)
  case base
  show ?case by (subst scan_candidate.simps) (simp add: read_past_end assms)
next
  case (step i)
  then have i: "i < length es" by simp
  show ?case
  proof (cases "committed \<le> i")
    case True
    then have "[max i committed..<length es] = i # [max (Suc i) committed..<length es]"
      using i by (simp add: upt_conv_Cons max_absorb1)
    with True i step.IH show ?thesis
      by (subst scan_candidate.simps) (simp add: read_entry assms candidate_eligible)
  next
    case False
    then have "max i committed = max (Suc i) committed" by simp
    with False i step.IH show ?thesis
      by (subst scan_candidate.simps) (simp add: read_entry assms)
  qed
qed

lemma scan_candidate_entries:
  assumes "entries_ok es" "torn_frame torn" "i \<le> length es" "i \<le> committed"
  shows "scan_candidate (log_bytes es @ torn) (entry_cursor es i) committed acknowledged in_flight =
    Inr (map_option (entry_index es) (first_eligible committed acknowledged in_flight es))"
  using scan_candidate_from [OF assms(1-3)] assms(4) by (simp add: first_eligible_def max_absorb2)

end
