(* ===== verification/Log_Reads.thy ===== *)
theory Log_Reads
  imports Log_Recovery
begin

text \<open>
  The read operations of a stream log answer from its entries, whether the answer comes from the
  tail in memory or from a scan that starts at a sparse checkpoint, and they leave the log as it
  is. They fail only where a system call does.
\<close>

section \<open>Logs that hold entries\<close>

text \<open>The log holds the entries, followed in the file by bytes that no index knows.\<close>

definition log_ok :: "log_entry list \<Rightarrow> bytes \<Rightarrow> stream_log \<Rightarrow> bool" where
  "log_ok es junk log \<longleftrightarrow>
     entries_ok es \<and> sl_file log = log_bytes es @ junk \<and> indexed es log = log \<and>
     sl_synced log \<le> length (sl_file log)"

lemma log_okD:
  assumes "log_ok es junk log"
  shows "entries_ok es" "sl_file log = log_bytes es @ junk" "sl_records log = tail_of es"
    "sl_sparse_index log = checkpoints_of es" "sl_request_ids log = identities_of es" "sl_next_offset log = length es"
proof -
  from assms have *: "entries_ok es" "sl_file log = log_bytes es @ junk" "indexed es log = log"
    by (simp_all add: log_ok_def)
  then show "entries_ok es" "sl_file log = log_bytes es @ junk" by simp_all
  from arg_cong [OF *(3), of sl_records] show "sl_records log = tail_of es" by (simp add: indexed_def)
  from arg_cong [OF *(3), of sl_sparse_index] show "sl_sparse_index log = checkpoints_of es" by (simp add: indexed_def)
  from arg_cong [OF *(3), of sl_request_ids] show "sl_request_ids log = identities_of es" by (simp add: indexed_def)
  from arg_cong [OF *(3), of sl_next_offset] show "sl_next_offset log = length es" by (simp add: indexed_def)
qed

lemma log_okI:
  assumes "entries_ok es" "sl_file log = log_bytes es @ junk" "sl_records log = tail_of es"
    "sl_sparse_index log = checkpoints_of es" "sl_request_ids log = identities_of es" "sl_next_offset log = length es"
    "sl_synced log \<le> length (sl_file log)"
  shows "log_ok es junk log"
  using assms by (auto simp: log_ok_def indexed_def)

section \<open>Operations that only read\<close>

text \<open>From \<open>log0\<close> nothing changed but outcomes of the script that were used up.\<close>

definition reading :: "stream_log \<Rightarrow> stream_log \<Rightarrow> bool" where
  "reading log0 log \<longleftrightarrow> (\<exists>k. log = log0\<lparr>sl_script := drop k (sl_script log0)\<rparr>)"

definition script_errors :: "io_fault list \<Rightarrow> io_error set" where
  "script_errors faults = {io. IoFail io \<in> set faults \<or> (\<exists>n. IoPartial n io \<in> set faults)}"

definition io_failed :: "stream_log \<Rightarrow> broker_error \<Rightarrow> bool" where
  "io_failed log0 e \<longleftrightarrow> (\<exists>io. e = Io io \<and> io \<in> script_errors (sl_script log0))"

abbreviation reads_log :: "stream_log \<Rightarrow> (stream_log, broker_error, 'a) op \<Rightarrow> 'a \<Rightarrow> bool" where
  "reads_log log0 m x \<equiv>
     hoare (reading log0) m (\<lambda>y log. y = x \<and> reading log0 log) (\<lambda>e log. io_failed log0 e \<and> reading log0 log)"

lemma reading_refl [simp]: "reading log log"
  unfolding reading_def by (rule exI [of _ 0]) simp

lemma reading_fields:
  assumes "reading log0 log"
  shows "sl_file log = sl_file log0" "sl_records log = sl_records log0" "sl_sparse_index log = sl_sparse_index log0"
    "sl_request_ids log = sl_request_ids log0" "sl_next_offset log = sl_next_offset log0"
    "sl_synced log = sl_synced log0" "sl_clock log = sl_clock log0"
  using assms by (auto simp: reading_def)

lemma reading_log_ok: "reading log0 log \<Longrightarrow> log_ok es junk log0 \<Longrightarrow> log_ok es junk log"
  by (rule log_okI) (simp_all add: reading_fields log_okD, auto simp: log_ok_def)

lemma reading_next: "reading log0 log \<Longrightarrow> reading log0 (snd (log_next_fault log))"
proof -
  assume "reading log0 log"
  then obtain k where k: "log = log0\<lparr>sl_script := drop k (sl_script log0)\<rparr>" by (auto simp: reading_def)
  show ?thesis
  proof (cases "drop k (sl_script log0)")
    case Nil
    then show ?thesis using \<open>reading log0 log\<close> by (simp add: log_next_fault_def k)
  next
    case (Cons f fs)
    then have "drop (Suc k) (sl_script log0) = fs" by (simp add: drop_Suc drop_tl)
    then show ?thesis
      by (auto simp: log_next_fault_def k Cons reading_def intro!: exI [of _ "Suc k"])
  qed
qed

lemma log_next_fault_Fine: "sl_script log = [] \<Longrightarrow> log_next_fault log = (IoFine, log)"
  by (simp add: log_next_fault_def)

lemma script_errors_drop: "script_errors (drop k faults) \<subseteq> script_errors faults"
  by (auto simp: script_errors_def dest: in_set_dropD)

lemma reading_faults:
  assumes "reading log0 log"
  shows "log_next_fault log = (IoFail io, log1) \<Longrightarrow> io_failed log0 (Io io)"
    "log_next_fault log = (IoPartial n io, log1) \<Longrightarrow> io_failed log0 (Io io)"
proof -
  from assms obtain k where script: "sl_script log = drop k (sl_script log0)" by (auto simp: reading_def)
  show "log_next_fault log = (IoFail io, log1) \<Longrightarrow> io_failed log0 (Io io)"
    "log_next_fault log = (IoPartial n io, log1) \<Longrightarrow> io_failed log0 (Io io)"
    using script_errors_drop [of k "sl_script log0"] unfolding script [symmetric]
    by (auto simp: log_next_fault_def io_failed_def script_errors_def split: list.splits)
qed

lemma reads_log_call [hoare_rules]: "reads_log log0 log_call ()"
proof (rule hoareI)
  fix log x log1
  assume "reading log0 log" "log_call log = (Inr x, log1)"
  then show "x = () \<and> reading log0 log1"
    using reading_next [of log0 log] by (auto simp: log_call_def split: prod.splits io_fault.splits)
next
  fix log e log1
  assume "reading log0 log" "log_call log = (Inl e, log1)"
  then show "io_failed log0 e \<and> reading log0 log1"
    using reading_next [of log0 log] reading_faults [of log0 log]
    by (auto simp: log_call_def split: prod.splits io_fault.splits)
qed

lemma reads_log_return [hoare_rules]: "reads_log log0 (return_op x) x"
  by (simp add: hoare_def return_op_def)

lemma reads_log_reads [hoare_rules]:
  "(\<And>log. reading log0 log \<Longrightarrow> f log = x) \<Longrightarrow> reads_log log0 (reads f) x"
  by (simp add: hoare_def reads_def)

lemma reads_log_lift [hoare_rules]: "r = Inr x \<Longrightarrow> reads_log log0 (lift_res r) x"
  by (simp add: hoare_def lift_res_def)

lemma reads_log_and_then [hoare_rules]:
  "reads_log log0 m x \<Longrightarrow> reads_log log0 (f x) y \<Longrightarrow> reads_log log0 (and_then m f) y"
  by (rule hoare_and_then, assumption) (simp add: hoare_def)

lemma reads_log_get:
  "(\<And>log. reading log0 log \<Longrightarrow> reads_log log0 (f log) y) \<Longrightarrow> reads_log log0 (and_then (reads id) f) y"
  by (simp add: hoare_def and_then_def reads_def)

lemma reads_log_if: "reads_log log0 m x \<Longrightarrow> reads_log log0 n x \<Longrightarrow> reads_log log0 (if c then m else n) x"
  by simp

text \<open>Without faults such an operation returns its answer.\<close>

lemma reads_log_returns:
  assumes "reads_log log m x" "sl_script log = []"
  shows "m log = (Inr x, log)"
proof (cases "m log")
  case (Pair r log1)
  then show ?thesis
  proof (cases r)
    case (Inl e)
    with assms Pair hoareD_err [OF assms(1), of log e log1] show ?thesis by (simp add: io_failed_def script_errors_def)
  next
    case (Inr y)
    with assms Pair hoareD_ok [OF assms(1), of log y log1] show ?thesis by (auto simp: reading_def)
  qed
qed

section \<open>Searching the indexes\<close>

lemma find_map: "find p (map f xs) = map_option f (find (\<lambda>x. p (f x)) xs)"
  by (induction xs) simp_all

lemma find_SomeD: "find p xs = Some x \<Longrightarrow> x \<in> set xs \<and> p x"
  by (induction xs) (auto split: if_splits)

lemma find_upt_eq: "find (\<lambda>i. i = off) [a..<b] = (if a \<le> off \<and> off < b then Some off else None)"
proof (cases "a \<le> off \<and> off < b")
  case True
  then have "[a..<b] = [a..<off] @ off # [Suc off..<b]"
    by (metis le_add_diff_inverse less_imp_le_nat upt_add_eq_append upt_conv_Cons)
  moreover have "find (\<lambda>i. i = off) [a..<off] = None" by (simp add: find_None_iff)
  ultimately show ?thesis using True by (simp add: find_append)
next
  case False
  then have "find (\<lambda>i. i = off) [a..<b] = None" by (auto simp: find_None_iff)
  with False show ?thesis by auto
qed

lemma find_in_tail:
  "find (\<lambda>r. ri_offset r = off) (tail_of es) =
     (if length es - MAX_IN_MEMORY_RECORDS \<le> off \<and> off < length es then Some (entry_index es off) else None)"
  by (simp add: tail_of_def find_map find_upt_eq)

lemma scan_start_entry:
  assumes "log_ok es junk log"
  obtains i where "scan_start off log = entry_cursor es i" "i \<le> off" "i \<le> length es"
proof (cases "find (\<lambda>c. lc_offset c \<le> off) (rev (checkpoints_of es))")
  case None
  then have "scan_start off log = entry_cursor es 0"
    by (simp add: scan_start_def sparse_start_for_def log_okD [OF assms])
  with that show ?thesis by blast
next
  case (Some c)
  from find_SomeD [OF this] have "c \<in> set (checkpoints_of es)" and c: "lc_offset c \<le> off" by simp_all
  then obtain k where k: "c = checkpoint_at es k" "k < checkpoint_count es"
    by (auto simp: checkpoints_of_def)
  with c Some have "scan_start off log = entry_cursor es (k * SPARSE_INDEX_STRIDE)" "k * SPARSE_INDEX_STRIDE \<le> off"
    by (simp_all add: scan_start_def sparse_start_for_def log_okD [OF assms] checkpoint_at_def)
  with that checkpoint_count_less [OF k(2)] show ?thesis by (meson less_imp_le)
qed

lemma tail_search_bounds:
  assumes "sorted (map ri_offset records)" "low \<le> high" "high \<le> length records"
    "\<forall>i<low. ri_offset (records ! i) < off" "\<forall>i. high \<le> i \<and> i < length records \<longrightarrow> off \<le> ri_offset (records ! i)"
  defines "n \<equiv> tail_search records off low high"
  shows "n \<le> length records \<and> (\<forall>i<n. ri_offset (records ! i) < off) \<and>
    (\<forall>i. n \<le> i \<and> i < length records \<longrightarrow> off \<le> ri_offset (records ! i))"
  unfolding n_def using assms(1-5)
proof (induction records off low high rule: tail_search.induct)
  case (1 records off low high)
  show ?case
  proof (cases "low < high")
    case False
    then have "tail_search records off low high = low" by (subst tail_search.simps) simp
    with False "1.prems" show ?thesis by simp
  next
    case True
    define middle where "middle = low + (high - low) div 2"
    have m: "low \<le> middle" "middle < high" using True by (auto simp: middle_def)
    have order: "ri_offset (records ! i) \<le> ri_offset (records ! j)" if "i \<le> j" "j < length records" for i j
      using sorted_nth_mono [OF "1.prems"(1), of i j] that by simp
    show ?thesis
    proof (cases "ri_offset (records ! middle) < off")
      case True
      have "\<forall>i<middle + 1. ri_offset (records ! i) < off"
        using order [of _ middle] True m "1.prems"(3) by (auto simp: less_Suc_eq_le intro: le_less_trans)
      moreover have "tail_search records off low high = tail_search records off (middle + 1) high"
        using True \<open>low < high\<close> by (subst tail_search.simps) (simp add: middle_def)
      ultimately show ?thesis
        using "1.IH"(1) [OF \<open>low < high\<close> middle_def True] "1.prems" m by simp
    next
      case False
      have above: "\<forall>i. middle \<le> i \<and> i < length records \<longrightarrow> off \<le> ri_offset (records ! i)"
        using order [of middle] False by (meson le_trans not_le)
      have step: "tail_search records off low high = tail_search records off low middle"
        using False \<open>low < high\<close> by (subst tail_search.simps) (simp add: middle_def)
      have "middle \<le> length records" using m "1.prems"(3) by simp
      from "1.IH"(2) [OF \<open>low < high\<close> middle_def False "1.prems"(1) m(1) this "1.prems"(4) above]
      show ?thesis unfolding step .
    qed
  qed
qed

lemma drop_tail_start:
  assumes "log_ok es junk log" "length es - MAX_IN_MEMORY_RECORDS \<le> off"
  shows "drop (tail_start_index off log) (sl_records log) = map (entry_index es) [off..<length es]"
proof -
  let ?a = "length es - MAX_IN_MEMORY_RECORDS" and ?n = "tail_start_index off log"
  have records: "sl_records log = map (entry_index es) [?a..<length es]"
    by (simp add: log_okD(3) [OF assms(1)] tail_of_def)
  have len: "length (sl_records log) = length es - ?a" by (simp add: records)
  have sorted: "sorted (map ri_offset (sl_records log))" by (simp add: records comp_def)
  have *: "?n \<le> length es - ?a \<and> (\<forall>i<?n. ri_offset (sl_records log ! i) < off) \<and>
      (\<forall>i. ?n \<le> i \<and> i < length es - ?a \<longrightarrow> off \<le> ri_offset (sl_records log ! i))"
    using tail_search_bounds [OF sorted, of 0 "length (sl_records log)" off]
    unfolding tail_start_index_def len by simp
  have nth: "ri_offset (sl_records log ! i) = ?a + i" if "i < length es - ?a" for i
    using that by (simp add: records)
  have "?a + ?n = off \<or> length es \<le> ?a + ?n \<and> length es \<le> off"
  proof (cases "?n < length es - ?a")
    case True
    with * have "off \<le> ri_offset (sl_records log ! ?n)" by simp
    with nth [OF True] have "off \<le> ?a + ?n" by simp
    moreover have "?a + ?n \<le> off"
    proof (cases ?n)
      case (Suc m)
      with * have "ri_offset (sl_records log ! m) < off" by simp
      with nth [of m] True Suc show ?thesis by simp
    qed (use assms(2) in simp)
    ultimately show ?thesis by simp
  next
    case False
    with * have n: "?n = length es - ?a" by simp
    show ?thesis
    proof (cases ?n)
      case 0
      with n assms(2) show ?thesis by linarith
    next
      case (Suc m)
      with * have "ri_offset (sl_records log ! m) < off" by simp
      with nth [of m] n Suc have "?a + m < off" by simp
      with n Suc show ?thesis by linarith
    qed
  qed
  then have "[?a + ?n..<length es] = [off..<length es]" by auto
  then show ?thesis unfolding records drop_map drop_upt by simp
qed

section \<open>What the reads answer\<close>

lemma reads_find_record:
  assumes ok: "log_ok es junk log0" and off: "off < length es"
  shows "reads_log log0 (find_record off) (entry_index es off)"
proof -
  obtain i where i: "scan_start off log0 = entry_cursor es i" "i \<le> off"
    using scan_start_entry [OF ok] by metis
  have scan: "scan_find (sl_file log) (scan_start off log) off = Inr (entry_index es off)" if "reading log0 log" for log
    using scan_find_entry [OF log_okD(1) [OF ok] off i(2)] that i(1)
    by (simp add: reading_fields scan_start_def log_okD(2) [OF ok])
  have cached: "find (\<lambda>r. ri_offset r = off) (sl_records log) =
      (if length es - MAX_IN_MEMORY_RECORDS \<le> off \<and> off < length es then Some (entry_index es off) else None)"
    if "reading log0 log" for log
    using that by (simp add: reading_fields log_okD(3) [OF ok] find_in_tail)
  show ?thesis
    unfolding find_record_def
    by (rule reads_log_and_then, rule reads_log_reads, erule cached)
      (auto intro!: hoare_rules scan reads_log_and_then reads_log_call reads_log_reads reads_log_lift)
qed

lemma reads_read_payload:
  assumes ok: "log_ok es junk log0" and off: "off < length es"
  shows "reads_log log0 (read_payload (entry_index es off)) (le_payload (es ! off))"
proof -
  have payload: "take (ri_payload_len (entry_index es off)) (drop (ri_payload_offset (entry_index es off)) (sl_file log)) =
      le_payload (es ! off)" if "reading log0 log" for log
    using payload_of_entry [OF off] that by (simp add: reading_fields log_okD(2) [OF ok])
  show ?thesis
    unfolding read_payload_def
    by (rule reads_log_and_then [OF reads_log_call],
        rule reads_log_and_then [OF reads_log_if [OF reads_log_return reads_log_call]],
        rule reads_log_and_then [OF reads_log_reads], erule payload) (simp add: reads_log_return)
qed

definition entry_message :: "string \<Rightarrow> log_entry list \<Rightarrow> offset \<Rightarrow> message" where
  "entry_message stream es off =
     \<lparr>m_stream = stream, m_offset = off, m_key = le_key (es ! off), m_payload = le_payload (es ! off),
      m_published_at_ms = le_published_at_ms (es ! off), m_delivery_token = None, m_delivery_attempt = None\<rparr>"

lemma reads_read_message:
  assumes ok: "log_ok es junk log0" and off: "off < length es"
  shows "reads_log log0 (read_message stream off) (entry_message stream es off)"
proof -
  have key: "ri_key (entry_index es off) = le_key (es ! off)"
    using entries_okD [OF log_okD(1) [OF ok] off] by simp
  show ?thesis
    unfolding read_message_def entry_message_def
    by (rule reads_log_and_then [OF reads_find_record [OF ok off]],
        rule reads_log_and_then [OF reads_read_payload [OF ok off]]) (simp add: key reads_log_return)
qed

lemma reads_read_replay_message:
  assumes ok: "log_ok es junk log0" and off: "off < length es"
  shows "reads_log log0 (read_replay_message stream off)
    \<lparr>rm_stream = stream, rm_offset = off, rm_key = le_key (es ! off), rm_payload = le_payload (es ! off),
     rm_published_at_ms = le_published_at_ms (es ! off)\<rparr>"
proof -
  have key: "ri_key (entry_index es off) = le_key (es ! off)"
    using entries_okD [OF log_okD(1) [OF ok] off] by simp
  have nle: "\<not> length es \<le> off" using off by simp
  have next_offset: "reads_log log0 (reads sl_next_offset) (length es)"
    by (rule reads_log_reads) (simp add: reading_fields log_okD(6) [OF ok])
  show ?thesis
    unfolding read_replay_message_def
    by (rule reads_log_and_then [OF next_offset], simp only: nle if_False,
        rule reads_log_and_then [OF reads_find_record [OF ok off]],
        rule reads_log_and_then [OF reads_read_payload [OF ok off]]) (simp add: key reads_log_return)
qed

lemma reads_find_candidate:
  assumes ok: "log_ok es torn log0" and torn: "torn_frame torn"
  shows "reads_log log0 (find_candidate committed acknowledged in_flight)
    (map_option (entry_index es) (first_eligible committed acknowledged in_flight es))"
proof -
  let ?answer = "map_option (entry_index es) (first_eligible committed acknowledged in_flight es)"
  have records: "sl_records log = tail_of es" if "reading log0 log" for log
    using that by (simp add: reading_fields log_okD(3) [OF ok])
  have first: "ri_offset r = length es - MAX_IN_MEMORY_RECORDS" if "tail_of es = r # rs" for r rs
    using that by (auto simp: tail_of_def map_eq_Cons_conv upt_eq_Cons_conv)
  have warm: "find (record_is_candidate acknowledged in_flight) (drop (tail_start_index committed log) (sl_records log)) = ?answer"
    if "reading log0 log" "length es - MAX_IN_MEMORY_RECORDS \<le> committed" for log
    unfolding drop_tail_start [OF reading_log_ok [OF that(1) ok] that(2)] find_map first_eligible_def
    by (rule arg_cong, rule find_cong) (auto simp: candidate_eligible [OF log_okD(1) [OF ok]])
  have cold: "scan_candidate (sl_file log) (scan_start committed log) committed acknowledged in_flight = Inr ?answer"
    if r: "reading log0 log" for log
  proof -
    obtain i where "scan_start committed log = entry_cursor es i" "i \<le> committed" "i \<le> length es"
      using scan_start_entry [OF reading_log_ok [OF r ok]] by blast
    with scan_candidate_entries [OF log_okD(1) [OF ok] torn] r show ?thesis
      by (simp add: reading_fields log_okD(2) [OF ok])
  qed
  have empty: "?answer = None" if "tail_of es = []"
    using that by (cases es) (auto simp: tail_of_def first_eligible_def MAX_IN_MEMORY_RECORDS_def)
  show ?thesis
    unfolding find_candidate_def
  proof (rule reads_log_get)
    fix log
    assume r: "reading log0 log"
    have cold_path: "reads_log log0 (and_then log_call (\<lambda>_. and_then log_call (\<lambda>_. and_then log_call (\<lambda>_.
        lift_res (scan_candidate (sl_file log) (scan_start committed log) committed acknowledged in_flight))))) ?answer"
      by (intro reads_log_and_then [OF reads_log_call] reads_log_lift cold r)
    show "reads_log log0 (case sl_records log of
        [] \<Rightarrow> return_op None
      | first # _ \<Rightarrow>
          if ri_offset first \<le> committed
          then return_op (find (record_is_candidate acknowledged in_flight)
                 (drop (tail_start_index committed log) (sl_records log)))
          else and_then log_call (\<lambda>_. and_then log_call (\<lambda>_. and_then log_call (\<lambda>_.
               lift_res (scan_candidate (sl_file log) (scan_start committed log) committed acknowledged in_flight))))) ?answer"
    proof (cases "tail_of es")
      case Nil
      show ?thesis unfolding records [OF r] Nil list.case empty [OF Nil] by (rule reads_log_return)
    next
      case (Cons r0 rs)
      then have case_eq: "sl_records log = r0 # rs" using records [OF r] by simp
      show ?thesis
      proof (cases "ri_offset r0 \<le> committed")
        case True
        then have "find (record_is_candidate acknowledged in_flight) (drop (tail_start_index committed log) (r0 # rs)) = ?answer"
          using warm [OF r] first [OF Cons] case_eq by simp
        with True show ?thesis unfolding case_eq by (simp add: reads_log_return)
      next
        case False
        with cold_path show ?thesis unfolding case_eq by simp
      qed
    qed
  qed
qed

end
