(* ===== verification/Log_Appends.thy ===== *)
theory Log_Appends
  imports Log_Reads
begin

text \<open>
  Appending to a stream log extends the list of its entries by one; a failing write leaves the
  entries and leaves part of the frame in the file. Publishing with a request identity is
  idempotent, and a batch appends what its records would append one after the other.
\<close>

section \<open>Writing a frame\<close>

text \<open>\<open>log0\<close> with bytes added to its file, and some outcomes of the script used up.\<close>

abbreviation wrote :: "stream_log \<Rightarrow> bytes \<Rightarrow> stream_log \<Rightarrow> bool" where
  "wrote log0 bs \<equiv> reading (log0\<lparr>sl_file := sl_file log0 @ bs\<rparr>)"

lemma wrote_more: "reading log0 log \<Longrightarrow> reading (log0\<lparr>sl_file := f\<rparr>) (log\<lparr>sl_file := f\<rparr>)"
  unfolding reading_def by (elim exE, rule exI, rule stream_log.equality) simp_all

lemma io_failed_file [simp]: "io_failed (log0\<lparr>sl_file := f\<rparr>) e = io_failed log0 e"
  by (simp add: io_failed_def)

lemma hoare_log_write:
  "hoare (wrote log0 bs0) (log_write bs) (\<lambda>_. wrote log0 (bs0 @ bs))
     (\<lambda>e log. io_failed log0 e \<and> (\<exists>n. n < length (bs0 @ bs) \<and> wrote log0 (take n (bs0 @ bs)) log))"
proof (rule hoareI)
  fix log x log1
  assume pre: "wrote log0 bs0 log" and run: "log_write bs log = (Inr x, log1)"
  from pre have f: "sl_file log = sl_file log0 @ bs0" by (simp add: reading_fields)
  show "wrote log0 (bs0 @ bs) log1"
  proof (cases "bs = []")
    case True
    with pre run show ?thesis by (simp add: log_write_def)
  next
    case False
    from reading_next [OF pre] have next_ok: "wrote log0 bs0 (snd (log_next_fault log))" .
    from wrote_more [OF next_ok, of "sl_file log0 @ bs0 @ bs"] reading_fields(1) [OF next_ok] False run
    show ?thesis by (auto simp: log_write_def split: prod.splits io_fault.splits)
  qed
next
  fix log e log1
  assume pre: "wrote log0 bs0 log" and run: "log_write bs log = (Inl e, log1)"
  then have bs: "bs \<noteq> []" by (auto simp: log_write_def)
  from reading_next [OF pre] have next_ok: "wrote log0 bs0 (snd (log_next_fault log))" .
  from reading_faults [OF pre] run bs have failed: "io_failed log0 e"
    by (auto simp: log_write_def split: prod.splits io_fault.splits)
  obtain f log2 where nf: "log_next_fault log = (f, log2)" by fastforce
  with next_ok have log2: "wrote log0 bs0 log2" by simp
  show "io_failed log0 e \<and> (\<exists>n. n < length (bs0 @ bs) \<and> wrote log0 (take n (bs0 @ bs)) log1)"
  proof (cases f)
    case IoFine
    with run bs nf show ?thesis by (simp add: log_write_def)
  next
    case (IoFail io)
    with run bs nf log2 failed show ?thesis by (auto simp: log_write_def intro!: exI [of _ "length bs0"])
  next
    case (IoPartial n io)
    define m where "m = min n (length bs - 1)"
    have "m < length bs" using bs by (cases bs) (auto simp: m_def)
    moreover from run bs nf IoPartial have "log1 = log2\<lparr>sl_file := sl_file log0 @ bs0 @ take m bs\<rparr>"
      by (simp add: log_write_def m_def reading_fields(1) [OF log2])
    ultimately show ?thesis
      using wrote_more [OF log2, of "sl_file log0 @ bs0 @ take m bs"] failed by (auto intro!: exI [of _ "length bs0 + m"])
  qed
qed

lemma hoare_write_frame:
  "hoare (reading log0) (write_frame f) (\<lambda>_. wrote log0 (frame_bytes f))
     (\<lambda>e log. io_failed log0 e \<and> (\<exists>n. n < length (frame_bytes f) \<and> wrote log0 (take n (frame_bytes f)) log))"
proof -
  obtain h k i p where f: "f = (h, k, i, p)" by (metis prod.exhaust)
  let ?torn = "\<lambda>bs e log. io_failed log0 e \<and> (\<exists>n. n < length bs \<and> wrote log0 (take n bs) log)"
  have step: "hoare (wrote log0 bs0) (log_write bs) (\<lambda>_. wrote log0 (bs0 @ bs)) (?torn (bs0 @ bs @ rest))" for bs0 bs rest
  proof (rule hoare_strengthen_post [OF hoare_log_write])
    fix e log
    assume "?torn (bs0 @ bs) e log"
    then obtain n where "io_failed log0 e" "n < length (bs0 @ bs)" "wrote log0 (take n (bs0 @ bs)) log" by blast
    moreover from this(2) have "take n (bs0 @ bs @ rest) = take n (bs0 @ bs)" by simp
    ultimately show "?torn (bs0 @ bs @ rest) e log" by (auto intro!: exI [of _ n])
  qed simp
  have start: "wrote log0 [] = reading log0" by (simp add: reading_def)
  have "hoare (wrote log0 []) (write_frame f) (\<lambda>_. wrote log0 (h @ k @ i @ p)) (?torn (h @ k @ i @ p))"
    unfolding write_frame_def f prod.case
    using step [of "[]" h "k @ i @ p"] step [of h k "i @ p"] step [of "h @ k" i p] step [of "h @ k @ i" p "[]"]
    by (simp only: append.assoc append_Nil append_Nil2) (rule hoare_and_then, assumption)+
  then show ?thesis unfolding start by (simp add: f frame_bytes_def)
qed

section \<open>Appending one record\<close>

definition stamp :: "stream_log \<Rightarrow> nat" where
  "stamp log = (case sl_clock log of [] \<Rightarrow> 0 | t # _ \<Rightarrow> t mod 2 ^ 64)"

definition stamped :: "stream_log \<Rightarrow> stream_log" where
  "stamped log = log\<lparr>sl_clock := tl (sl_clock log)\<rparr>"

lemma now_ms_eq: "now_ms log = (Inr (stamp log), stamped log)"
  by (simp add: now_ms_def stamp_def stamped_def split: list.split)

lemma stamped_fields [simp]:
  "sl_file (stamped log) = sl_file log" "sl_records (stamped log) = sl_records log"
  "sl_sparse_index (stamped log) = sl_sparse_index log" "sl_request_ids (stamped log) = sl_request_ids log"
  "sl_next_offset (stamped log) = sl_next_offset log" "sl_synced (stamped log) = sl_synced log"
  "sl_script (stamped log) = sl_script log" "io_failed (stamped log) e = io_failed log e"
  by (simp_all add: stamped_def io_failed_def)

lemma stamp_bound: "stamp log \<le> u64_max"
proof -
  have "t mod 2 ^ 64 \<le> u64_max" for t :: nat
    using mod_less_divisor [of "2 ^ 64" t] by (simp add: less_Suc_eq_le [symmetric])
  then show ?thesis by (simp add: stamp_def split: list.split)
qed

definition new_entry :: "string option \<Rightarrow> bytes \<Rightarrow> record_identity \<Rightarrow> stream_log \<Rightarrow> log_entry" where
  "new_entry key payload identity log =
     \<lparr>le_key = key, le_payload = payload, le_identity = identity, le_published_at_ms = stamp log\<rparr>"

text \<open>The texts of a request: valid UTF-8, and a key that is not empty.\<close>

definition texts_ok :: "string option \<Rightarrow> record_identity \<Rightarrow> bool" where
  "texts_ok key identity \<longleftrightarrow>
     utf8_valid (as_bytes (key_text key)) \<and> utf8_valid (as_bytes (id_text identity)) \<and> key \<noteq> Some ''''"

lemma new_entry_ok:
  "record_fits key payload identity \<Longrightarrow> texts_ok key identity \<Longrightarrow> off \<le> u64_max \<Longrightarrow>
   entry_ok off (new_entry key payload identity log)"
  using stamp_bound [of log] by (simp add: entry_ok_def new_entry_def texts_ok_def record_typed_def)

lemma index_appended_ok:
  assumes ok: "log_ok es [] log0" and fits: "record_fits key payload identity" "texts_ok key identity"
    and room: "length es < u64_max"
    and fields: "sl_file log = sl_file log0 @ entry_bytes (length es) (new_entry key payload identity log0)"
      "sl_records log = sl_records log0" "sl_sparse_index log = sl_sparse_index log0"
      "sl_request_ids log = sl_request_ids log0" "sl_synced log \<le> length (sl_file log)"
  shows "log_ok (es @ [new_entry key payload identity log0]) []
    (index_appended key payload identity (length es) (stamp log0) log)"
proof -
  let ?e = "new_entry key payload identity log0"
  have e: "entry_ok (length es) ?e" using new_entry_ok [OF fits] room by simp
  have len: "length (entry_bytes (length es) ?e) =
      RECORD_HEADER_LEN + length (key_text key) + length (id_text identity) + length payload"
    by (simp add: entry_bytes_def new_entry_def length_encoded_record)
  have index: "entry_index (es @ [?e]) (length es) =
      \<lparr>ri_offset = length es,
       ri_payload_offset = length (log_bytes es) + RECORD_HEADER_LEN + length (key_text key) + length (id_text identity),
       ri_payload_len = length payload, ri_key = key, ri_request_id = identity_request_id identity,
       ri_request_identity_kind = identity_kind identity, ri_published_at_ms = stamp log0\<rparr>"
    using fits(2)
    by (simp add: entry_index_def disk_index_def entry_cursor_snoc entry_cursor_end new_entry_def texts_ok_def)
  show ?thesis
  proof (rule log_okI)
    show "entries_ok (es @ [?e])" using log_okD(1) [OF ok] e room by (simp add: entries_ok_snoc)
  qed (use room log_okD [OF ok] fields len in
        \<open>simp_all add: index_appended_def Let_def log_bytes_snoc index_steps index saturating_add64_def
           new_entry_def [of key payload identity log0, symmetric] add_ac\<close>,
       simp_all add: new_entry_def)
qed

lemma append_checks:
  "record_fits key payload identity \<Longrightarrow>
     record_lengths (length (key_text key)) (length payload) = Inr (length (key_text key), length payload) \<and>
     check_request_id identity = Inr (length (id_text identity))"
  "\<not> record_fits key payload identity \<Longrightarrow>
     (\<exists>m. record_lengths (length (key_text key)) (length payload) = Inl (InvalidRecord m)) \<or>
     record_lengths (length (key_text key)) (length payload) = Inr (length (key_text key), length payload) \<and>
     (\<exists>m. check_request_id identity = Inl (InvalidRecord m))"
  by (auto simp: record_fits_def record_lengths_def check_request_id_def Let_def MAX_KEY_LEN_def MAX_BODY_LEN_def
      MAX_REQUEST_ID_LEN_def)

definition synced_if :: "bool \<Rightarrow> stream_log \<Rightarrow> stream_log" where
  "synced_if sync log = (if sync then log\<lparr>sl_synced := length (sl_file log)\<rparr> else log)"

lemma reading_synced: "reading log0 log \<Longrightarrow> reading (synced_if sync log0) (synced_if sync log)"
  unfolding reading_def synced_if_def by (auto intro!: stream_log.equality)

lemma hoare_log_sync:
  "hoare (reading log0) (if sync then log_sync else return_op ()) (\<lambda>_. reading (synced_if sync log0))
     (\<lambda>e log. io_failed log0 e \<and> reading log0 log)"
proof (cases sync)
  case True
  then have put: "hoare (reading log0) (modify (\<lambda>log. log\<lparr>sl_synced := length (sl_file log)\<rparr>))
      (\<lambda>_. reading (synced_if sync log0)) (\<lambda>e log. io_failed log0 e \<and> reading log0 log)"
    using reading_synced [of log0 _ sync] by (simp add: hoare_def modify_def synced_if_def)
  show ?thesis unfolding log_sync_def if_P [OF True]
    by (rule hoare_and_then [OF reads_log_call], rule hoare_weaken_pre [OF put]) simp
next
  case False
  then show ?thesis by (simp add: hoare_def return_op_def synced_if_def)
qed

definition script_used :: "stream_log \<Rightarrow> stream_log \<Rightarrow> bool" where
  "script_used log0 log \<longleftrightarrow> (\<exists>k. sl_script log = drop k (sl_script log0))"

lemma script_used_refl [simp]: "script_used log log"
  unfolding script_used_def by (rule exI [of _ 0]) simp

lemma script_used_trans: "script_used log0 log1 \<Longrightarrow> script_used log1 log2 \<Longrightarrow> script_used log0 log2"
  unfolding script_used_def by (metis drop_drop)

lemma reading_script_used: "reading log0 log \<Longrightarrow> script_used log0 log"
  by (auto simp: reading_def script_used_def)

lemma script_used_Nil: "script_used log0 log \<Longrightarrow> sl_script log0 = [] \<Longrightarrow> sl_script log = []"
  by (auto simp: script_used_def)

lemma io_failed_used: "script_used log0 log \<Longrightarrow> io_failed log e \<Longrightarrow> io_failed log0 e"
  using script_errors_drop by (fastforce simp: script_used_def io_failed_def)

text \<open>What a failed write leaves: the entries, and the first bytes of the frame in the file.\<close>

definition torn_append :: "log_entry list \<Rightarrow> log_entry \<Rightarrow> stream_log \<Rightarrow> stream_log \<Rightarrow> bool" where
  "torn_append es e log0 log \<longleftrightarrow>
     sl_synced log0 \<le> sl_synced log \<and>
     (\<exists>n. n \<le> length (entry_bytes (length es) e) \<and> log_ok es (take n (entry_bytes (length es) e)) log)"

lemma torn_appendI:
  assumes "log_ok es [] log0" "n \<le> length (entry_bytes (length es) e)"
    "reading (synced_if sync ((stamped log0)\<lparr>sl_file := sl_file log0 @ take n (entry_bytes (length es) e)\<rparr>)) log"
  shows "torn_append es e log0 log"
proof -
  have "sl_synced log0 \<le> length (sl_file log0)" using assms(1) by (auto simp: log_ok_def)
  then show ?thesis
    unfolding torn_append_def
    using assms(2) reading_fields [OF assms(3)] log_okD [OF assms(1)]
    by (auto simp: synced_if_def intro!: exI [of _ n] log_okI)
qed

lemma hoare_append_record:
  assumes ok: "log_ok es [] log0" and texts: "texts_ok key identity" and room: "length es < u64_max"
    and fits: "record_fits key payload identity"
  defines "e \<equiv> new_entry key payload identity log0"
  shows "hoare (\<lambda>log. log = log0) (append_record_with_sync key payload identity sync)
    (\<lambda>off log. off = length es \<and> log_ok (es @ [e]) [] log \<and> script_used log0 log \<and>
       sl_synced log = (if sync then length (sl_file log) else sl_synced log0))
    (\<lambda>err log. io_failed log0 err \<and> torn_append es e log0 log)"
proof -
  define log1 where "log1 = stamped log0"
  define log2 where "log2 = log1\<lparr>sl_file := sl_file log1 @ entry_bytes (length es) e\<rparr>"
  let ?R = "\<lambda>err log. io_failed log0 err \<and> torn_append es e log0 log"
  have frame: "frame_bytes (record_frame key payload identity (length es) (stamp log0)) = entry_bytes (length es) e"
    by (simp add: e_def new_entry_def entry_bytes_def)
  have l1: "sl_file log1 = sl_file log0" "sl_next_offset log0 = length es" "io_failed log1 = io_failed log0"
    by (simp_all add: log1_def log_okD [OF ok] io_failed_def fun_eq_iff)
  have written: "hoare (reading log1) (write_frame (record_frame key payload identity (length es) (stamp log0)))
      (\<lambda>_. reading log2) ?R"
  proof (rule hoare_strengthen_post [OF hoare_write_frame [of log1 "record_frame key payload identity (length es) (stamp log0)", unfolded frame]])
    fix err log
    assume "io_failed log1 err \<and> (\<exists>n. n < length (entry_bytes (length es) e) \<and> wrote log1 (take n (entry_bytes (length es) e)) log)"
    then show "?R err log"
      using torn_appendI [OF ok less_imp_le, where sync = False] by (auto simp: synced_if_def log1_def)
  qed (simp add: log2_def)
  have full: "torn_append es e log0 log" if "reading (synced_if b log2) log" for b log
    using torn_appendI [OF ok, of "length (entry_bytes (length es) e)" e b log] that by (simp add: log2_def log1_def l1)
  have failed2: "io_failed (synced_if b log2) err = io_failed log0 err" for b err
    by (simp add: io_failed_def synced_if_def log2_def log1_def)
  have sync_step: "hoare (reading log2) (if sync then log_sync else return_op ())
      (\<lambda>_. reading (synced_if sync log2)) ?R"
    by (rule hoare_strengthen_post [OF hoare_log_sync])
      (use full [of False] failed2 [of False] in \<open>auto simp: synced_if_def\<close>)
  have position: "hoare (reading (synced_if sync log2)) log_call (\<lambda>_. reading (synced_if sync log2)) ?R"
    by (rule hoare_strengthen_post [OF reads_log_call]) (use full failed2 in auto)
  have indexed: "log_ok (es @ [e]) [] (index_appended key payload identity (length es) (stamp log0) log) \<and> script_used log0 log \<and>
      sl_synced log = (if sync then length (sl_file log) else sl_synced log0)"
    if "reading (synced_if sync log2) log" for log
  proof -
    have "sl_synced log0 \<le> length (sl_file log0)" using ok by (auto simp: log_ok_def)
    then show ?thesis
      unfolding e_def
      using reading_fields [OF that] index_appended_ok [OF ok fits texts room, of log] reading_script_used [OF that]
      by (auto simp: synced_if_def log2_def log1_def e_def script_used_def)
  qed
  have indexing: "hoare (reading (synced_if sync log2))
      (and_then (modify (index_appended key payload identity (length es) (stamp log0))) (\<lambda>_. return_op (length es)))
      (\<lambda>off log. off = length es \<and> log_ok (es @ [e]) [] log \<and> script_used log0 log \<and>
         sl_synced log = (if sync then length (sl_file log) else sl_synced log0)) ?R"
    using indexed by (auto simp: hoare_def and_then_def modify_def return_op_def index_appended_def Let_def script_used_def)
  have start: "hoare (\<lambda>log. log = log0) (and_then (reads sl_next_offset) (\<lambda>off. and_then now_ms (g off))) Q ?R"
    if "hoare (reading log1) (g (length es) (stamp log0)) Q ?R" for g and Q :: "nat \<Rightarrow> stream_log \<Rightarrow> bool"
    using that reading_refl [of log1] by (simp add: hoare_def and_then_def reads_def now_ms_eq l1(2) log1_def)
  show ?thesis
    unfolding append_record_with_sync_def lift_res_bind append_checks(1) [OF fits, THEN conjunct1]
      append_checks(1) [OF fits, THEN conjunct2] sum.case
    by (intro start hoare_and_then [OF written] hoare_and_then [OF sync_step] hoare_and_then [OF position] indexing)
qed

lemma append_rejected:
  assumes "\<not> record_fits key payload identity"
  shows "\<exists>m. append_record_with_sync key payload identity sync log = (Inl (InvalidRecord m), log)"
  using append_checks(2) [OF assms]
  by (auto simp: append_record_with_sync_def and_then_def lift_res_def)

lemma append_record_cases:
  assumes "log_ok es [] log" "texts_ok key identity" "length es < u64_max"
    and "append_record_with_sync key payload identity sync log = (r, log')"
  obtains (appended) "r = Inr (length es)" "record_fits key payload identity"
      "log_ok (es @ [new_entry key payload identity log]) [] log'" "script_used log log'"
      "sl_synced log' = (if sync then length (sl_file log') else sl_synced log)"
  | (rejected) m where "r = Inl (InvalidRecord m)" "\<not> record_fits key payload identity" "log' = log"
  | (failed) e where "r = Inl e" "io_failed log e" "torn_append es (new_entry key payload identity log) log log'"
      "record_fits key payload identity"
proof (cases "record_fits key payload identity")
  case True
  note spec = hoare_append_record [OF assms(1-3) True, of sync]
  show thesis
  proof (cases r)
    case (Inl e)
    with hoareD_err [OF spec refl] assms(4) True failed show ?thesis by blast
  next
    case (Inr off)
    with hoareD_ok [OF spec refl] assms(4) True appended show ?thesis by blast
  qed
next
  case False
  from append_rejected [OF this, of sync log] assms(4) False rejected show thesis by auto
qed

lemma log_ok_empty: "log_ok [] [] (empty_log [] script clock)"
  unfolding log_ok_def indexed_Nil by (simp add: entries_ok_def empty_log_def)

section \<open>Recovery from any prefix of the file\<close>

lemma prefix_of_frames:
  assumes "entries_ok es" "n \<le> length (log_bytes es)"
  obtains k torn where "k \<le> length es" "take n (log_bytes es) = log_bytes (take k es) @ torn" "torn_frame torn"
    "n < length (log_bytes es) \<Longrightarrow> k < length es \<and> n < entry_cursor es (Suc k)"
    "n = length (log_bytes es) \<Longrightarrow> k = length es \<and> torn = []"
  using assms
proof (induction es arbitrary: thesis rule: rev_induct)
  case Nil
  then show ?case by (auto intro: Nil.prems(1) [of 0 "[]"])
next
  case (snoc e es)
  let ?l = "log_bytes es" and ?b = "entry_bytes (length es) e"
  consider "n < length ?l" | "length ?l \<le> n" "n < length ?l + length ?b" | "n = length ?l + length ?b"
    using snoc.prems(3) by (simp add: log_bytes_snoc) linarith
  then show ?case
  proof cases
    case 1
    from snoc.IH [OF _ _ less_imp_le [OF 1]] snoc.prems(2) 1
    obtain k torn where "k \<le> length es" "take n ?l = log_bytes (take k es) @ torn" "torn_frame torn"
      "k < length es \<and> n < entry_cursor es (Suc k)"
      by (auto simp: entries_ok_snoc)
    with 1 show ?thesis
      by (intro snoc.prems(1) [of k torn]) (auto simp: log_bytes_snoc entry_cursor_snoc)
  next
    case 2
    have "torn_frame (take (n - length ?l) ?b)"
      using 2 snoc.prems(2) unfolding torn_frame_def entry_bytes_def
      by (intro exI [of _ "le_key e"] exI [of _ "le_payload e"] exI [of _ "le_identity e"] exI [of _ "length es"]
          exI [of _ "le_published_at_ms e"] exI [of _ "n - length ?l"])
        (auto simp: entries_ok_snoc entry_ok_def)
    with 2 show ?thesis
      by (intro snoc.prems(1) [of "length es" "take (n - length ?l) ?b"])
        (auto simp: log_bytes_snoc entry_cursor_end)
  next
    case 3
    then show ?thesis
      by (intro snoc.prems(1) [of "Suc (length es)" "[]"]) (auto simp: log_bytes_snoc)
  qed
qed

text \<open>Opening a file that starts with the frames of the entries restores all indexes.\<close>

lemma inspect_entries:
  assumes "entries_ok es" "torn_frame torn"
  shows "inspect (log_bytes es @ torn) [] clock =
    Inr (indexed es (empty_log (log_bytes es @ torn) [] clock),
         if torn = [] then None else Some (length (log_bytes es)))"
proof -
  let ?log = "empty_log (log_bytes es @ torn) [] clock"
  have call: "log_call ?log = (Inr (), ?log)" by (simp add: log_call_def log_next_fault_def empty_log_def)
  have "inspect_loop (log_bytes es @ torn) 0 ?log = Inr (length (log_bytes es), indexed es ?log)"
    using inspect_loop_entries [OF assms, of 0 ?log] by (simp add: indexed_Nil)
  then show ?thesis
    by (simp add: inspect_def and_then_def call)
qed

lemma log_ok_opened: "entries_ok es \<Longrightarrow> log_ok es torn (indexed es (empty_log (log_bytes es @ torn) script clock))"
  by (rule log_okI) (simp_all add: indexed_def empty_log_def)

lemma finish_recovery_ok:
  assumes "entries_ok es" "torn_frame torn"
  shows "finish_recovery (if torn = [] then None else Some (length (log_bytes es)))
      (indexed es (empty_log (log_bytes es @ torn) [] clock)) =
    (Inr (), indexed es (empty_log (log_bytes es) [] clock))"
  unfolding finish_recovery_def
  by (cases "torn = []")
    (auto simp: op_simps log_call_def log_next_fault_def indexed_def empty_log_def intro!: stream_log.equality)

section \<open>Request identities\<close>

text \<open>The offset of the first entry with a public request identity.\<close>

definition published_as :: "string \<Rightarrow> log_entry list \<Rightarrow> offset option" where
  "published_as request_id es = find (\<lambda>i. le_identity (es ! i) = Public request_id) [0..<length es]"

definition moved_as :: "string \<Rightarrow> log_entry list \<Rightarrow> offset option" where
  "moved_as move_id es = find (\<lambda>i. le_identity (es ! i) = DeadLetterMove move_id) [0..<length es]"

lemma identity_offsets:
  assumes "log_ok es junk log"
  shows "request_offset request_id log = published_as request_id es"
    "dead_letter_move_offset move_id log = moved_as move_id es"
proof -
  have "(identity_request_id i = Some r \<and> identity_kind i = Some PublicIdentity) = (i = Public r)"
    "(identity_request_id i = Some r \<and> identity_kind i = Some DeadLetterMoveIdentity) = (i = DeadLetterMove r)" for i r
    by (cases i; auto)+
  then show "request_offset request_id log = published_as request_id es"
    "dead_letter_move_offset move_id log = moved_as move_id es"
    by (simp_all add: request_offset_def dead_letter_move_offset_def log_okD(5) [OF assms] identity_get_entries
        published_as_def moved_as_def)
qed

lemma published_as_less: "published_as request_id es = Some off \<Longrightarrow> off < length es"
  by (auto simp: published_as_def dest: find_SomeD)

lemma moved_as_less: "moved_as move_id es = Some off \<Longrightarrow> off < length es"
  by (auto simp: moved_as_def dest: find_SomeD)

definition same_content :: "string option \<Rightarrow> bytes \<Rightarrow> log_entry \<Rightarrow> bool" where
  "same_content key payload e \<longleftrightarrow> key_text (le_key e) = key_text key \<and> le_payload e = payload"

lemma reads_request_offset:
  assumes ok: "log_ok es junk log0"
    and same: "\<And>off. published_as request_id es = Some off \<Longrightarrow> same_content key payload (es ! off)"
  shows "reads_log log0 (request_offset_for_content request_id key payload) (published_as request_id es)"
proof -
  have lookup: "reads_log log0 (reads (request_offset request_id)) (published_as request_id es)"
    by (rule reads_log_reads) (rule identity_offsets [OF reading_log_ok [OF _ ok]])
  show ?thesis
  proof (cases "published_as request_id es")
    case None
    show ?thesis unfolding request_offset_for_content_def
      by (rule reads_log_and_then [OF lookup]) (simp add: None reads_log_return)
  next
    case (Some off)
    note less = published_as_less [OF Some]
    have key: "ri_key (entry_index es off) = le_key (es ! off)" using entries_okD [OF log_okD(1) [OF ok] less] by simp
    have tail: "reads_log log0 (and_then (find_record off) (\<lambda>existing.
         if key_text (ri_key existing) \<noteq> key_text key then throw RequestIdContentConflict
         else and_then (read_payload existing) (\<lambda>stored.
              if stored \<noteq> payload then throw RequestIdContentConflict else return_op (Some off)))) (Some off)"
      using same [OF Some]
      by (intro reads_log_and_then [OF reads_find_record [OF ok less]])
        (simp add: key same_content_def, intro reads_log_and_then [OF reads_read_payload [OF ok less]],
         simp add: reads_log_return)
    show ?thesis unfolding request_offset_for_content_def
      by (rule reads_log_and_then [OF lookup]) (simp add: Some tail)
  qed
qed

lemma conflicting_request_offset:
  assumes ok: "log_ok es junk log0" and known: "published_as request_id es = Some off"
    and differs: "\<not> same_content key payload (es ! off)"
  shows "hoare (reading log0) (request_offset_for_content request_id key payload) (\<lambda>_ _. False)
    (\<lambda>e log. (e = RequestIdContentConflict \<or> io_failed log0 e) \<and> reading log0 log)"
proof -
  let ?R = "\<lambda>e log. (e = RequestIdContentConflict \<or> io_failed log0 e) \<and> reading log0 log"
  note less = published_as_less [OF known]
  have key: "ri_key (entry_index es off) = le_key (es ! off)" using entries_okD [OF log_okD(1) [OF ok] less] by simp
  have step: "hoare (reading log0) (and_then m f) (\<lambda>_ _. False) ?R"
    if "reads_log log0 m x" "hoare (reading log0) (f x) (\<lambda>_ _. False) ?R"
    for m :: "(stream_log, broker_error, 'x) op" and x and f :: "'x \<Rightarrow> (stream_log, broker_error, offset option) op"
    by (rule hoare_and_then, rule hoare_strengthen_post [OF that(1)], assumption, blast)
      (use that(2) in \<open>auto simp: hoare_def\<close>)
  have lookup: "reads_log log0 (reads (request_offset request_id)) (Some off)"
    by (rule reads_log_reads) (simp add: identity_offsets(1) [OF reading_log_ok [OF _ ok]] known)
  have refuse: "hoare (reading log0) (throw RequestIdContentConflict :: (stream_log, broker_error, offset option) op)
      (\<lambda>_ _. False) ?R"
    by (simp add: hoare_def throw_def)
  show ?thesis
    unfolding request_offset_for_content_def
    by (rule step [OF lookup], simp only: option.case, rule step [OF reads_find_record [OF ok less]],
        cases "key_text (le_key (es ! off)) = key_text key")
      (use differs in \<open>auto simp: key same_content_def refuse intro!: step [OF reads_read_payload [OF ok less]]\<close>)
qed

end
