(* ===== verification/Log_Batches.thy ===== *)
theory Log_Batches
  imports Log_Appends
begin

text \<open>
  Batches and the properties of the stream log. A batch is specified on the contents of the
  entries alone (key, payload, identity), one record after the other; the batch loop of the code
  refines it.
\<close>

section \<open>Publishing one record, abstractly\<close>

type_synonym content = "string option \<times> bytes \<times> record_identity"

definition content_of :: "log_entry \<Rightarrow> content" where
  "content_of e = (le_key e, le_payload e, le_identity e)"

definition append_refusal :: "string option \<Rightarrow> bytes \<Rightarrow> record_identity \<Rightarrow> broker_error option" where
  "append_refusal key payload identity =
     (case record_lengths (length (key_text key)) (length payload) of
        Inl e \<Rightarrow> Some e
      | Inr _ \<Rightarrow> (case check_request_id identity of Inl e \<Rightarrow> Some e | Inr _ \<Rightarrow> None))"

text \<open>
  A known request identity answers with its offset, or refuses other content; any other record
  takes the next offset if the storage limits admit it.
\<close>

definition publish_one :: "publish_record \<Rightarrow> content list \<Rightarrow> (broker_error + offset) \<times> content list" where
  "publish_one r cs =
     (case (if pr_request_id r = None then None else position (\<lambda>(_, _, identity). identity = batch_identity r) cs) of
        Some off \<Rightarrow>
          (if key_text (fst (cs ! off)) = key_text (pr_key r) \<and> fst (snd (cs ! off)) = pr_payload r
           then Inr off else Inl RequestIdContentConflict, cs)
      | None \<Rightarrow>
          (case append_refusal (pr_key r) (pr_payload r) (batch_identity r) of
             Some e \<Rightarrow> (Inl e, cs)
           | None \<Rightarrow> (Inr (length cs), cs @ [(pr_key r, pr_payload r, batch_identity r)])))"

fun publish_all :: "publish_record list \<Rightarrow> content list \<Rightarrow> (broker_error + offset) list \<times> content list" where
  "publish_all [] cs = ([], cs)"
| "publish_all (r # rs) cs =
     (let (outcome, cs1) = publish_one r cs; (outcomes, cs2) = publish_all rs cs1 in (outcome # outcomes, cs2))"

lemma find_index_position: "find (\<lambda>i. p (xs ! i)) [0..<length xs] = position p xs"
proof (induction xs)
  case (Cons x xs)
  have "find (\<lambda>i. p ((x # xs) ! i)) (map Suc [0..<length xs]) = map_option Suc (position p xs)"
    unfolding find_map using Cons.IH by simp
  then show ?case
    unfolding length_Cons upt_conv_Cons [OF zero_less_Suc] map_Suc_upt [symmetric] by simp
qed simp

lemma published_as_position:
  "published_as request_id es = position (\<lambda>(_, _, identity). identity = Public request_id) (map content_of es)"
proof -
  have "position (\<lambda>(_, _, identity). identity = Public request_id) (map content_of es) =
      position (\<lambda>e. le_identity e = Public request_id) es"
    by (induction es) (simp_all add: content_of_def)
  then show ?thesis
    unfolding published_as_def using find_index_position [of "\<lambda>e. le_identity e = Public request_id" es] by simp
qed

lemma append_refusal_None: "append_refusal key payload identity = None \<longleftrightarrow> record_fits key payload identity"
  using append_checks [where key = key and payload = payload and identity = identity]
  by (cases "record_fits key payload identity") (auto simp: append_refusal_def)

lemma append_refused:
  assumes "append_refusal key payload identity = Some e"
  shows "append_record_with_sync key payload identity sync log = (Inl e, log)" "is_per_record_rejection e"
proof -
  from assms have "\<not> record_fits key payload identity" by (simp add: append_refusal_None [symmetric])
  from append_checks(2) [OF this] assms
  show "append_record_with_sync key payload identity sync log = (Inl e, log)" "is_per_record_rejection e"
    by (auto simp: append_record_with_sync_def append_refusal_def and_then_def lift_res_def)
qed

section \<open>One round of the batch\<close>

text \<open>No system call reports invalid input: the batch loop would take that for a rejected record.\<close>

definition plain_faults :: "io_fault list \<Rightarrow> bool" where
  "plain_faults faults \<longleftrightarrow> (\<forall>io \<in> script_errors faults. io_error_kind io \<noteq> IoInvalidInput)"

definition record_texts_ok :: "publish_record \<Rightarrow> bool" where
  "record_texts_ok r \<longleftrightarrow> texts_ok (pr_key r) (batch_identity r)"

lemma io_failed_plain:
  "io_failed log e \<Longrightarrow> plain_faults (sl_script log) \<Longrightarrow> \<not> is_per_record_rejection e \<and> e \<noteq> RequestIdContentConflict"
  by (auto simp: io_failed_def plain_faults_def)

lemma plain_faults_used: "script_used log0 log \<Longrightarrow> plain_faults (sl_script log0) \<Longrightarrow> plain_faults (sl_script log)"
  using script_errors_drop by (fastforce simp: script_used_def plain_faults_def)

text \<open>The state after a round that went well, and the outcome it reports.\<close>

definition round_ok ::
  "log_entry list \<Rightarrow> publish_record \<Rightarrow> stream_log \<Rightarrow> broker_error + offset \<Rightarrow> bool \<Rightarrow> log_entry list \<Rightarrow> stream_log \<Rightarrow> bool" where
  "round_ok es r log0 outcome appended es' log \<longleftrightarrow>
     log_ok es' [] log \<and> script_used log0 log \<and> sl_synced log = sl_synced log0 \<and>
     publish_one r (map content_of es) = (outcome, map content_of es') \<and>
     es' = (if appended then es @ [new_entry (pr_key r) (pr_payload r) (batch_identity r) log0] else es)"

lemma publish_one_known:
  assumes "pr_request_id r = Some request_id" "published_as request_id es = Some off"
  shows "publish_one r (map content_of es) =
    (if same_content (pr_key r) (pr_payload r) (es ! off) then Inr off else Inl RequestIdContentConflict, map content_of es)"
  using assms published_as_less [OF assms(2)]
  by (simp add: publish_one_def batch_identity_def published_as_position [symmetric] same_content_def content_of_def)

lemma publish_one_new:
  assumes "\<And>request_id. pr_request_id r = Some request_id \<Longrightarrow> published_as request_id es = None"
  shows "publish_one r (map content_of es) =
    (case append_refusal (pr_key r) (pr_payload r) (batch_identity r) of
       Some e \<Rightarrow> (Inl e, map content_of es)
     | None \<Rightarrow> (Inr (length es), map content_of (es @ [new_entry (pr_key r) (pr_payload r) (batch_identity r) log])))"
  using assms
  by (cases "pr_request_id r")
    (simp_all add: publish_one_def batch_identity_def published_as_position [symmetric] content_of_def new_entry_def
      split: option.split)

lemma lookup_request_cases:
  assumes ok: "log_ok es [] log" and plain: "plain_faults (sl_script log)" and run: "lookup_request r log = (res, log1)"
  obtains (known) request_id off where "pr_request_id r = Some request_id" "published_as request_id es = Some off"
      "res = (if same_content (pr_key r) (pr_payload r) (es ! off) then Inr (Some off) else Inl RequestIdContentConflict)"
      "reading log log1"
  | (new) "\<And>request_id. pr_request_id r = Some request_id \<Longrightarrow> published_as request_id es = None" "res = Inr None" "reading log log1"
  | (failed) e where "res = Inl e" "io_failed log e" "reading log log1"
proof (cases "pr_request_id r")
  case None
  with run new show ?thesis by (simp add: lookup_request_def return_op_def)
next
  case (Some request_id)
  with run have run': "request_offset_for_content request_id (pr_key r) (pr_payload r) log = (res, log1)"
    by (simp add: lookup_request_def)
  show ?thesis
  proof (cases "\<exists>off. published_as request_id es = Some off \<and> \<not> same_content (pr_key r) (pr_payload r) (es ! off)")
    case True
    then obtain off where off: "published_as request_id es = Some off" "\<not> same_content (pr_key r) (pr_payload r) (es ! off)"
      by blast
    note spec = conflicting_request_offset [OF ok off]
    from hoareD_ok [OF spec reading_refl] run' obtain e where "res = Inl e" by (cases res) auto
    with hoareD_err [OF spec reading_refl] run' off Some known [OF Some off(1)] failed show ?thesis by auto
  next
    case False
    then have spec: "reads_log log (request_offset_for_content request_id (pr_key r) (pr_payload r)) (published_as request_id es)"
      by (intro reads_request_offset [OF ok]) auto
    show ?thesis
    proof (cases res)
      case (Inl e)
      with hoareD_err [OF spec reading_refl] run' failed show ?thesis by blast
    next
      case (Inr x)
      with hoareD_ok [OF spec reading_refl] run' have "x = published_as request_id es" "reading log log1" by auto
      with Inr False Some known [OF Some] new show ?thesis by (cases x) auto
    qed
  qed
qed

lemma append_batch_record_cases:
  assumes ok: "log_ok es [] log" and texts: "record_texts_ok r" and room: "length es < u64_max"
    and plain: "plain_faults (sl_script log)" and run: "append_batch_record r log = (res, log')"
  obtains (round) outcome appended es' where "res = Inr (outcome, appended)" "round_ok es r log outcome appended es' log'"
  | (failed) e torn where "res = Inl e" "io_failed log e" "log_ok es torn log'"
proof -
  obtain res1 log1 where look: "lookup_request r log = (res1, log1)" by fastforce
  from ok plain look show thesis
  proof (cases rule: lookup_request_cases)
    case (known request_id off)
    with run look have "res = Inr (if same_content (pr_key r) (pr_payload r) (es ! off) then Inr off else Inl RequestIdContentConflict, False)"
      "log' = log1"
      by (auto simp: append_batch_record_def split: if_splits)
    with known publish_one_known [OF known(1,2)] reading_log_ok [OF known(4) ok] reading_fields(6) [OF known(4)]
      reading_script_used [OF known(4)]
    show ?thesis
      by (intro round [of "if same_content (pr_key r) (pr_payload r) (es ! off) then Inr off else Inl RequestIdContentConflict"
            False es]) (auto simp: round_ok_def)
  next
    case (failed e)
    with run look io_failed_plain [OF failed(2) plain] have "res = Inl e" "log' = log1"
      by (auto simp: append_batch_record_def)
    with failed reading_log_ok [OF failed(3) ok] show ?thesis by (intro that(2) [of e "[]"]) simp_all
  next
    case new
    obtain res2 log2 where app: "append_record_with_sync (pr_key r) (pr_payload r) (batch_identity r) False log1 = (res2, log2)"
      by fastforce
    note ok1 = reading_log_ok [OF new(3) ok]
    have same: "new_entry (pr_key r) (pr_payload r) (batch_identity r) log1 = new_entry (pr_key r) (pr_payload r) (batch_identity r) log"
      by (simp add: new_entry_def stamp_def reading_fields(7) [OF new(3)])
    have spec: "publish_one r (map content_of es) =
      (case append_refusal (pr_key r) (pr_payload r) (batch_identity r) of
         Some e \<Rightarrow> (Inl e, map content_of es)
       | None \<Rightarrow> (Inr (length es), map content_of (es @ [new_entry (pr_key r) (pr_payload r) (batch_identity r) log])))"
      by (rule publish_one_new) (rule new(1))
    note used = reading_script_used [OF new(3)]
    show ?thesis
    proof (cases "append_refusal (pr_key r) (pr_payload r) (batch_identity r)")
      case (Some e)
      with append_refused [OF Some] app run look new have "res = Inr (Inl e, False)" "log' = log1"
        by (auto simp: append_batch_record_def)
      with ok1 used reading_fields(6) [OF new(3)] spec Some show ?thesis
        by (intro round [of "Inl e" False es]) (auto simp: round_ok_def)
    next
      case None
      then have fits: "record_fits (pr_key r) (pr_payload r) (batch_identity r)" by (simp add: append_refusal_None)
      from ok1 texts [unfolded record_texts_ok_def] room app show ?thesis
      proof (cases rule: append_record_cases)
        case appended
        with app run look new have "res = Inr (Inr (length es), True)" "log' = log2"
          by (auto simp: append_batch_record_def)
        with appended used reading_fields(6) [OF new(3)] spec None same show ?thesis
          by (intro round [of "Inr (length es)" True "es @ [new_entry (pr_key r) (pr_payload r) (batch_identity r) log]"])
            (auto simp: round_ok_def intro: script_used_trans)
      next
        case (failed e)
        have "\<not> is_per_record_rejection e" "io_failed log e"
          using io_failed_used [OF used failed(2)] io_failed_plain [OF _ plain] by auto
        with failed app run look new have "res = Inl e" "log' = log2" by (auto simp: append_batch_record_def)
        with failed(3) \<open>io_failed log e\<close> show ?thesis by (auto simp: torn_append_def intro: that(2))
      qed (use fits in simp)
    qed
  qed
qed

section \<open>The whole batch\<close>

definition batch_done ::
  "log_entry list \<Rightarrow> publish_record list \<Rightarrow> stream_log \<Rightarrow> (broker_error + offset) list \<Rightarrow> log_entry list \<Rightarrow> stream_log \<Rightarrow> bool" where
  "batch_done es rs log0 outcomes fs log \<longleftrightarrow>
     log_ok (es @ fs) [] log \<and> script_used log0 log \<and> sl_synced log = sl_synced log0 \<and>
     publish_all rs (map content_of es) = (outcomes, map content_of (es @ fs))"

definition batch_failed :: "log_entry list \<Rightarrow> stream_log \<Rightarrow> broker_error \<Rightarrow> stream_log \<Rightarrow> bool" where
  "batch_failed es log0 e log \<longleftrightarrow> io_failed log0 e \<and> (\<exists>fs torn. log_ok (es @ fs) torn log)"

lemma batch_done_Cons:
  assumes "round_ok es r log0 outcome appended es1 log1" "batch_done es1 rs log1 outcomes fs log"
  shows "batch_done es (r # rs) log0 (outcome # outcomes) (drop (length es) es1 @ fs) log"
proof -
  from assms(1) have es1: "es1 = es @ drop (length es) es1" by (auto simp: round_ok_def split: if_splits)
  have "es @ drop (length es) es1 @ fs = es1 @ fs" using es1 by (metis append.assoc)
  with assms show ?thesis
    unfolding batch_done_def round_ok_def by (auto intro: script_used_trans simp del: map_append)
qed

lemma append_batch_loop_cases:
  assumes "log_ok es [] log" "list_all record_texts_ok rs" "length es + length rs \<le> u64_max"
    and "plain_faults (sl_script log)" "append_batch_loop rs log = (res, log')"
  obtains (all) outcomes appended fs where "res = Inr (outcomes, appended)" "batch_done es rs log outcomes fs log'"
      "appended \<longleftrightarrow> fs \<noteq> []"
  | (failed) e where "res = Inl e" "batch_failed es log e log'"
  using assms
proof (induction rs arbitrary: es log res log' thesis)
  case Nil
  from Nil.prems(1) [of "[]" False "[]"] Nil.prems show ?case by (simp add: return_op_def batch_done_def)
next
  case (Cons r rs)
  obtain res1 log1 where one: "append_batch_record r log = (res1, log1)" by fastforce
  have texts: "record_texts_ok r" "list_all record_texts_ok rs" and room: "length es < u64_max"
    using Cons.prems(4,5) by simp_all
  from Cons.prems(3) texts(1) room Cons.prems(6) one show ?case
  proof (cases rule: append_batch_record_cases)
    case (failed e torn)
    with Cons.prems(7) one have "res = Inl e" "log' = log1" by (simp_all add: and_then_def)
    with failed show ?thesis by (intro Cons.prems(2) [of e]) (auto simp: batch_failed_def intro!: exI [of _ "[]"] exI [of _ torn])
  next
    case (round outcome appended es1)
    note ok = round(2) [unfolded round_ok_def]
    obtain res2 log2 where rest: "append_batch_loop rs log1 = (res2, log2)" by fastforce
    have room1: "length es1 + length rs \<le> u64_max" using ok Cons.prems(5) by (simp split: if_splits)
    have run: "log2 = log'" using Cons.prems(7) one rest round(1)
      by (auto simp: and_then_def return_op_def split: sum.splits prod.splits)
    show ?thesis
    proof (rule Cons.IH [OF _ _ _ texts(2) room1 _ rest])
      show "log_ok es1 [] log1" using ok by blast
      show "plain_faults (sl_script log1)" using ok plain_faults_used Cons.prems(6) by blast
    next
      fix outcomes appended' fs
      assume *: "res2 = Inr (outcomes, appended')" "batch_done es1 rs log1 outcomes fs log2" "appended' \<longleftrightarrow> fs \<noteq> []"
      then have "res = Inr (outcome # outcomes, appended \<or> appended')"
        using Cons.prems(7) one rest round(1) by (simp add: and_then_def return_op_def)
      then show thesis
        using Cons.prems(1) [OF _ batch_done_Cons [OF round(2) *(2) [unfolded run]]] *(3) ok
        by (auto split: if_splits)
    next
      fix e
      assume *: "res2 = Inl e" "batch_failed es1 log1 e log2"
      then have "res = Inl e" using Cons.prems(7) one rest round(1) by (simp add: and_then_def return_op_def)
      moreover have "batch_failed es log e log2"
        using * ok io_failed_used by (fastforce simp: batch_failed_def split: if_splits)
      ultimately show thesis using Cons.prems(2) run by blast
    qed
  qed
qed

lemma log_sync_cases:
  assumes "log_ok es [] log" "log_sync log = (res, log')"
  obtains (synced) "res = Inr ()" "log_ok es [] log'" "sl_synced log' = length (sl_file log')" "script_used log log'"
  | (failed) e where "res = Inl e" "io_failed log e" "log_ok es [] log'"
proof (cases res)
  case (Inl e)
  with hoareD_err [OF hoare_log_sync [of log True], of log] assms reading_log_ok failed show thesis by fastforce
next
  case (Inr u)
  with hoareD_ok [OF hoare_log_sync [of log True], of log] assms
  have r: "reading (synced_if True log) log'" by simp
  note f = reading_fields [OF r]
  have "log_ok es [] log'"
    using log_okD [OF assms(1)] f by (intro log_okI) (simp_all add: synced_if_def)
  moreover have "script_used log log'"
    using reading_script_used [OF r] by (simp add: script_used_def synced_if_def)
  ultimately show thesis using f Inr by (intro synced) (simp_all add: synced_if_def)
qed

end
