(* ===== verification/Log_Properties.thy ===== *)
theory Log_Properties
  imports Log_Batches
begin

text \<open>
  The properties of the stream log: appends and batches, what survives a crash at any point of a
  write, searches and reads, the identities that make publishing and dead-letter moves
  idempotent, and two ways in which the log does not keep what it was given.
\<close>

section \<open>A sample log\<close>

definition sample_entry :: log_entry where
  "sample_entry = \<lparr>le_key = Some ''k'', le_payload = [7, 8], le_identity = Public ''r'', le_published_at_ms = 5\<rparr>"

definition sample_log :: stream_log where
  "sample_log = indexed [sample_entry] (empty_log (log_bytes [sample_entry] @ []) [] [6])"

lemmas size_limits = MAX_KEY_LEN_def MAX_BODY_LEN_def MAX_REQUEST_ID_LEN_def

lemma sample_entries_ok: "entries_ok [sample_entry]"
  by (simp add: entries_ok_def entry_ok_def sample_entry_def record_fits_def record_typed_def key_text_def
      id_text_def as_bytes_def size_limits Let_def)

lemma sample_log_ok: "log_ok [sample_entry] [] sample_log"
  unfolding sample_log_def by (rule log_ok_opened [OF sample_entries_ok])

lemma sample_texts: "texts_ok None NoIdentity" "texts_ok (Some ''k'') (Public ''r'')"
  by (simp_all add: texts_ok_def key_text_def id_text_def as_bytes_def Let_def)

section \<open>Appends\<close>



section \<open>Recovery\<close>

text \<open>C2: Whatever prefix of the written frames a crash leaves in the file, opening the log
  succeeds, cuts off the incomplete frame, and yields a log that holds exactly the records whose
  frames are complete: all those within the surviving bytes, in order.\<close>

theorem crash_recovery:
  assumes "entries_ok es" "n \<le> length (log_bytes es)"
  shows "\<exists>k log tail log'. inspect (take n (log_bytes es)) [] clock = Inr (log, tail) \<and>
      finish_recovery tail log = (Inr (), log') \<and> log_ok (take k es) [] log' \<and> k \<le> length es \<and>
      (\<forall>i<length es. entry_cursor es (Suc i) \<le> n \<longleftrightarrow> i < k)"
proof -
  from assms obtain k torn where k: "k \<le> length es" "take n (log_bytes es) = log_bytes (take k es) @ torn" "torn_frame torn"
    "n < length (log_bytes es) \<Longrightarrow> k < length es \<and> n < entry_cursor es (Suc k)"
    "n = length (log_bytes es) \<Longrightarrow> k = length es \<and> torn = []"
    by (rule prefix_of_frames) blast
  note ok = entries_ok_take [OF assms(1), of k]
  have le: "entry_cursor es k \<le> n"
    using arg_cong [OF k(2), of length] assms(2) by (simp add: entry_cursor_def)
  have complete: "entry_cursor es (Suc i) \<le> n \<longleftrightarrow> i < k" if "i < length es" for i
  proof
    assume "i < k"
    then have "entry_cursor es (Suc i) \<le> entry_cursor es k"
      by (intro entry_cursor_mono) simp
    with le show "entry_cursor es (Suc i) \<le> n" by simp
  next
    assume less: "entry_cursor es (Suc i) \<le> n"
    show "i < k"
    proof (rule ccontr)
      assume "\<not> i < k"
      then have "k < length es" "entry_cursor es (Suc k) \<le> entry_cursor es (Suc i)"
        using that by (auto intro: entry_cursor_mono)
      with k(4,5) assms(2) less show False by (cases "n = length (log_bytes es)") auto
    qed
  qed
  show ?thesis
    unfolding k(2) inspect_entries [OF ok k(3)]
    using finish_recovery_ok [OF ok k(3), of clock] log_ok_opened [OF ok, of "[]" "[]" clock] k(1) complete
    by (intro exI [of _ k]) auto
qed

theorem crash_recovery_witness:
  "\<exists>k log tail log'. inspect (take 50 (log_bytes [sample_entry])) [] [] = Inr (log, tail) \<and>
      finish_recovery tail log = (Inr (), log') \<and> log_ok (take k [sample_entry]) [] log' \<and> k \<le> length [sample_entry] \<and>
      (\<forall>i<length [sample_entry]. entry_cursor [sample_entry] (Suc i) \<le> 50 \<longleftrightarrow> i < k)"
  by (rule crash_recovery [OF sample_entries_ok])
    (simp add: log_bytes_def entry_bytes_def sample_entry_def length_encoded_record RECORD_HEADER_LEN_def key_text_def id_text_def)



section \<open>Searches and reads\<close>

lemma find_upt_cases:
  "case find p [a..<b] of
     None \<Rightarrow> \<forall>i. a \<le> i \<and> i < b \<longrightarrow> \<not> p i
   | Some i \<Rightarrow> a \<le> i \<and> i < b \<and> p i \<and> (\<forall>j. a \<le> j \<and> j < i \<longrightarrow> \<not> p j)"
proof (cases "find p [a..<b]")
  case None
  then have "\<forall>i. a \<le> i \<and> i < b \<longrightarrow> \<not> p i" by (auto simp: find_None_iff)
  with None show ?thesis by simp
next
  case (Some i)
  then obtain n where n: "n < b - a" "p (a + n)" "i = a + n" "\<forall>j<n. \<not> p (a + j)"
    by (auto simp: find_Some_iff)
  have "\<not> p j" if "a \<le> j" "j < i" for j
    using n(4) [rule_format, of "j - a"] that n(3) by simp
  with Some n show ?thesis by auto
qed

text \<open>C23: The search for the next record to deliver returns the entry with the lowest offset at or
  after the committed offset that is not acknowledged, not in flight, and whose key no delivery in
  flight has; nothing if there is none. This holds whether the search runs over the tail in memory
  or scans the file from a checkpoint, and the search changes nothing.\<close>

theorem candidate_is_lowest_eligible:
  assumes "log_ok es torn log" "torn_frame torn" "sl_script log = []"
  shows "\<exists>found. find_candidate committed acknowledged in_flight log = (Inr (map_option (entry_index es) found), log) \<and>
    (case found of
       None \<Rightarrow> \<forall>i. committed \<le> i \<and> i < length es \<longrightarrow> \<not> eligible acknowledged in_flight es i
     | Some i \<Rightarrow> committed \<le> i \<and> i < length es \<and> eligible acknowledged in_flight es i \<and>
         (\<forall>j. committed \<le> j \<and> j < i \<longrightarrow> \<not> eligible acknowledged in_flight es j))"
proof (intro exI conjI)
  show "find_candidate committed acknowledged in_flight log =
      (Inr (map_option (entry_index es) (first_eligible committed acknowledged in_flight es)), log)"
    by (rule reads_log_returns [OF reads_find_candidate [OF assms(1,2)] assms(3)])
  show "case first_eligible committed acknowledged in_flight es of
       None \<Rightarrow> \<forall>i. committed \<le> i \<and> i < length es \<longrightarrow> \<not> eligible acknowledged in_flight es i
     | Some i \<Rightarrow> committed \<le> i \<and> i < length es \<and> eligible acknowledged in_flight es i \<and>
         (\<forall>j. committed \<le> j \<and> j < i \<longrightarrow> \<not> eligible acknowledged in_flight es j)"
    unfolding first_eligible_def by (rule find_upt_cases)
qed

theorem candidate_is_lowest_eligible_witness:
  "\<exists>found. find_candidate 0 {||} None sample_log = (Inr (map_option (entry_index [sample_entry]) found), sample_log) \<and>
    (case found of
       None \<Rightarrow> \<forall>i. 0 \<le> i \<and> i < length [sample_entry] \<longrightarrow> \<not> eligible {||} None [sample_entry] i
     | Some i \<Rightarrow> 0 \<le> i \<and> i < length [sample_entry] \<and> eligible {||} None [sample_entry] i \<and>
         (\<forall>j. 0 \<le> j \<and> j < i \<longrightarrow> \<not> eligible {||} None [sample_entry] j))"
  by (rule candidate_is_lowest_eligible [OF sample_log_ok torn_frame_Nil])
    (simp add: sample_log_def indexed_def empty_log_def)



section \<open>Identities\<close>

text \<open>C27: A request identity the log knows is answered without another append: with the offset of
  its first record if key and payload are the same, and with a conflict if they are not. The log does
  not change.\<close>

theorem known_request_not_appended:
  assumes "log_ok es torn log" "sl_script log = []" "published_as request_id es = Some off"
  shows "request_offset_for_content request_id key payload log =
    (if same_content key payload (es ! off) then Inr (Some off) else Inl RequestIdContentConflict, log)"
proof (cases "same_content key payload (es ! off)")
  case True
  with assms(3) reads_log_returns [OF reads_request_offset [OF assms(1), of request_id key payload] assms(2)]
  show ?thesis by simp
next
  case False
  obtain r log' where run: "request_offset_for_content request_id key payload log = (r, log')" by fastforce
  note spec = conflicting_request_offset [OF assms(1,3) False]
  from hoareD_ok [OF spec reading_refl] run obtain e where r: "r = Inl e" by (cases r) auto
  from hoareD_err [OF spec reading_refl run [unfolded r]] assms(2)
  have "e = RequestIdContentConflict" "log' = log"
    by (auto simp: io_failed_def script_errors_def reading_def)
  with False run r show ?thesis by simp
qed

theorem known_request_not_appended_witness:
  "request_offset_for_content ''r'' (Some ''k'') [7, 8] sample_log = (Inr (Some 0), sample_log) \<and>
   request_offset_for_content ''r'' (Some ''k'') [9] sample_log = (Inl RequestIdContentConflict, sample_log)"
  using known_request_not_appended [OF sample_log_ok, of "''r''" 0 "Some ''k''" "[7, 8]"]
    known_request_not_appended [OF sample_log_ok, of "''r''" 0 "Some ''k''" "[9]"]
  by (simp add: sample_log_def indexed_def empty_log_def published_as_def sample_entry_def same_content_def)

lemma moved_as_snoc:
  "moved_as move_id es = None \<Longrightarrow> le_identity e = DeadLetterMove move_id \<Longrightarrow> moved_as move_id (es @ [e]) = Some (length es)"
proof -
  assume none: "moved_as move_id es = None" and e: "le_identity e = DeadLetterMove move_id"
  have "find (\<lambda>i. le_identity ((es @ [e]) ! i) = DeadLetterMove move_id) [0..<length es] =
      find (\<lambda>i. le_identity (es ! i) = DeadLetterMove move_id) [0..<length es]"
    by (rule find_cong) (auto simp: nth_append)
  with none e show ?thesis by (simp add: moved_as_def find_append)
qed

lemma append_with_move_id_known:
  assumes ok: "log_ok es torn log" and known: "moved_as move_id es = Some off" and script: "sl_script log = []"
    and same: "le_key (es ! off) = key" "le_payload (es ! off) = payload"
  shows "append_with_move_id key payload move_id log = (Inr off, log)"
proof -
  note less = moved_as_less [OF known]
  have key: "ri_key (entry_index es off) = key"
    using entries_okD [OF log_okD(1) [OF ok] less] same by simp
  have "find_record off log = (Inr (entry_index es off), log)"
    by (rule reads_log_returns [OF reads_find_record [OF ok less] script])
  moreover have "read_payload (entry_index es off) log = (Inr payload, log)"
    using reads_log_returns [OF reads_read_payload [OF ok less] script] same by simp
  ultimately show ?thesis
    by (simp add: append_with_move_id_def and_then_def reads_def identity_offsets(2) [OF ok] known key return_op_def)
qed

text \<open>C26: A dead-letter move that is repeated, after a crash or a failed acknowledgement, finds the
  record it appended before: the copy is in the log once, at the offset the first move returned.\<close>

theorem dead_letter_move_once:
  assumes ok: "log_ok es [] log" and script: "sl_script log = []" and texts: "texts_ok key (DeadLetterMove move_id)"
    and fits: "record_fits key payload (DeadLetterMove move_id)" and room: "length es < u64_max"
    and new: "moved_as move_id es = None"
  shows "\<exists>log'. append_with_move_id key payload move_id log = (Inr (length es), log') \<and>
    log_ok (es @ [new_entry key payload (DeadLetterMove move_id) log]) [] log' \<and>
    append_with_move_id key payload move_id log' = (Inr (length es), log')"
proof -
  obtain r log' where run: "append_record_with_sync key payload (DeadLetterMove move_id) True log = (r, log')" by fastforce
  from ok texts room run have r: "r = Inr (length es)"
    and ok': "log_ok (es @ [new_entry key payload (DeadLetterMove move_id) log]) [] log'" and used: "script_used log log'"
    using script fits by (cases rule: append_record_cases; auto simp: io_failed_def script_errors_def)+
  have first: "append_with_move_id key payload move_id log = (Inr (length es), log')"
    using run r by (simp add: append_with_move_id_def and_then_def reads_def identity_offsets(2) [OF ok] new)
  have "append_with_move_id key payload move_id log' = (Inr (length es), log')"
    by (rule append_with_move_id_known [OF ok' moved_as_snoc [OF new] script_used_Nil [OF used script]])
      (simp_all add: new_entry_def)
  with first ok' show ?thesis by blast
qed

theorem dead_letter_move_once_witness:
  "\<exists>log'. append_with_move_id None [9] ''m'' sample_log = (Inr (length [sample_entry]), log') \<and>
    log_ok ([sample_entry] @ [new_entry None [9] (DeadLetterMove ''m'') sample_log]) [] log' \<and>
    append_with_move_id None [9] ''m'' log' = (Inr (length [sample_entry]), log')"
  by (rule dead_letter_move_once [OF sample_log_ok])
    (simp_all add: sample_log_def indexed_def empty_log_def texts_ok_def record_fits_def key_text_def id_text_def
      as_bytes_def size_limits moved_as_def sample_entry_def Let_def)

section \<open>Batches\<close>

text \<open>C24: A batch has the outcomes and appends the records of publishing its records one by one: known
  identities return their offset or a conflict, records beyond the limits are refused, and the rest
  take the following offsets; one sync at the end makes them durable. An I/O error leaves a log that
  holds the old entries and some of the new ones. (Provided no system call fails with invalid input,
  which the loop takes for a refused record.)\<close>

theorem batch_refines_sequence:
  assumes "log_ok es [] log" "list_all record_texts_ok rs" "length es + length rs \<le> u64_max"
    and "plain_faults (sl_script log)" "append_batch rs log = (r, log')"
  shows "case r of
      Inr outcomes \<Rightarrow> \<exists>fs. log_ok (es @ fs) [] log' \<and>
        publish_all rs (map content_of es) = (outcomes, map content_of (es @ fs)) \<and>
        (fs \<noteq> [] \<longrightarrow> sl_synced log' = length (sl_file log'))
    | Inl e \<Rightarrow> io_failed log e \<and> (\<exists>fs torn. log_ok (es @ fs) torn log')"
proof -
  obtain res1 log1 where loop: "append_batch_loop rs log = (res1, log1)" by fastforce
  from assms(1-4) loop show ?thesis
  proof (cases rule: append_batch_loop_cases)
    case (failed e)
    with loop assms(5) have "r = Inl e" "log' = log1" by (simp_all add: append_batch_def and_then_def)
    with failed show ?thesis by (simp add: batch_failed_def)
  next
    case (all outcomes appended fs)
    note ok = all(2) [unfolded batch_done_def]
    show ?thesis
    proof (cases appended)
      case False
      with loop all ok assms(5) show ?thesis
        by (auto simp: append_batch_def and_then_def return_op_def)
    next
      case True
      obtain res2 log2 where sync: "log_sync log1 = (res2, log2)" by fastforce
      have ok1: "log_ok (es @ fs) [] log1" using ok by blast
      from ok1 sync show ?thesis
      proof (cases rule: log_sync_cases)
        case synced
        with True loop all ok sync assms(5) show ?thesis
          by (auto simp: append_batch_def and_then_def return_op_def)
      next
        case (failed e)
        with True loop all sync assms(5) have "r = Inl e" "log' = log2" by (simp_all add: append_batch_def and_then_def)
        with failed ok io_failed_used show ?thesis by (simp, blast)
      qed
    qed
  qed
qed

theorem batch_refines_sequence_witness:
  "\<exists>outcomes log' fs.
     append_batch [\<lparr>pr_key = Some ''k'', pr_payload = [9], pr_request_id = Some ''r''\<rparr>,
                   \<lparr>pr_key = None, pr_payload = [4], pr_request_id = None\<rparr>] sample_log = (Inr outcomes, log') \<and>
     outcomes = [Inl RequestIdContentConflict, Inr 1] \<and> log_ok ([sample_entry] @ fs) [] log' \<and> fs \<noteq> [] \<and>
     sl_synced log' = length (sl_file log')"
proof -
  let ?rs = "[\<lparr>pr_key = Some ''k'', pr_payload = [9], pr_request_id = Some ''r''\<rparr>,
    \<lparr>pr_key = None, pr_payload = [4], pr_request_id = None\<rparr>]"
  obtain r log' where run: "append_batch ?rs sample_log = (r, log')" by fastforce
  have script: "sl_script sample_log = []" by (simp add: sample_log_def indexed_def empty_log_def)
  have texts: "list_all record_texts_ok ?rs"
    using sample_texts by (simp add: record_texts_ok_def batch_identity_def)
  have spec: "publish_all ?rs (map content_of [sample_entry]) =
      ([Inl RequestIdContentConflict, Inr 1], [(Some ''k'', [7, 8], Public ''r''), (None, [4], NoIdentity)])"
    by (simp add: publish_one_def batch_identity_def content_of_def sample_entry_def append_refusal_def record_lengths_def
        check_request_id_def key_text_def id_text_def size_limits Let_def)
  have plain: "plain_faults (sl_script sample_log)" and fine: "\<not> io_failed sample_log e" for e
    by (simp_all add: script plain_faults_def script_errors_def io_failed_def)
  show ?thesis
    using batch_refines_sequence [OF sample_log_ok texts _ plain run] fine spec run by (cases r) auto
qed

section \<open>What the log does not keep\<close>

lemma inspect_loop_progress:
  assumes "entries_ok es" "i \<le> length es"
  shows "inspect_loop (log_bytes es @ post) 0 (indexed [] log) =
    inspect_loop (log_bytes es @ post) (entry_cursor es i) (indexed (take i es) log)"
  using assms(2)
proof (induction i)
  case (Suc i)
  then have i: "i < length es" by simp
  have n: "checked_add64 i (Suc 0) = Some (Suc i)"
    using assms(1) i by (simp add: checked_add64_def entries_ok_def)
  have o: "sl_next_offset (indexed (take i es) log) = i" using i by (simp add: indexed_def)
  have "inspect_loop (log_bytes es @ post) (entry_cursor es i) (indexed (take i es) log) =
      inspect_loop (log_bytes es @ post) (entry_cursor es (Suc i)) (indexed (take (Suc i) es) log)"
    by (subst inspect_loop.simps) (simp add: read_entry [OF assms(1) i] o n remember_parsed_entry [OF i])
  with Suc show ?case by simp
qed simp

lemma inspect_duplicate_offset:
  assumes "entries_ok es" "entry_ok off e" "off \<noteq> length es"
  shows "inspect (log_bytes es @ entry_bytes off e) [] clock = Inl (invalid_record_data ''record offsets are not contiguous'')"
proof -
  let ?contents = "log_bytes es @ entry_bytes off e"
  let ?log = "empty_log ?contents [] clock"
  have call: "log_call ?log = (Inr (), ?log)" by (simp add: log_call_def log_next_fault_def empty_log_def)
  have read: "read_next_record ?contents (entry_cursor es (length es)) =
      Inr (Some \<lparr>pr_index = disk_index (entry_cursor es (length es)) (le_key e) (le_payload e) (le_identity e) off (le_published_at_ms e),
        pr_next_cursor = entry_cursor es (length es) + length (entry_bytes off e)\<rparr>)"
    unfolding entry_bytes_def using assms(2)
    by (intro read_frame [where post = "[]"]) (simp_all add: entry_ok_def entry_cursor_end)
  have "inspect_loop ?contents 0 (indexed [] ?log) = Inl (invalid_record_data ''record offsets are not contiguous'')"
    unfolding inspect_loop_progress [OF assms(1) order.refl]
    by (subst inspect_loop.simps) (use assms(3) in \<open>simp add: read indexed_def disk_index_def\<close>)
  then show ?thesis by (simp add: inspect_def and_then_def call indexed_Nil)
qed

lemma append_success_file:
  assumes "append_record_with_sync key payload identity sync log = (Inr off, log')"
  shows "record_fits key payload identity" "off = sl_next_offset log"
    "sl_file log' = sl_file log @ encoded_record key payload identity (sl_next_offset log) (stamp log)"
    "ri_key (last (sl_records log')) = key"
proof -
  show fits: "record_fits key payload identity"
    using append_rejected [of key payload identity sync log] assms by auto
  let ?f = "record_frame key payload identity (sl_next_offset log) (stamp log)"
  let ?Q = "\<lambda>log2. sl_file log2 = sl_file log @ frame_bytes ?f"
  have frames: "hoare (reading (stamped log)) (write_frame ?f) (\<lambda>_. ?Q) (\<lambda>_ _. True)"
    by (rule hoare_strengthen_post [OF hoare_write_frame]) (auto dest: reading_fields(1))
  have call: "hoare ?Q log_call (\<lambda>_. ?Q) (\<lambda>_ _. True)"
    by (auto simp: hoare_def log_call_def log_next_fault_def split: list.split io_fault.split)
  have sync_step: "hoare ?Q (if sync then log_sync else return_op ()) (\<lambda>_. ?Q) (\<lambda>_ _. True)"
    unfolding log_sync_def
    by (cases sync) (simp_all add: hoare_and_then [OF call] hoare_def [of _ "modify _"] modify_def
        hoare_def [of _ "return_op _"] return_op_def)
  have finish: "hoare ?Q (and_then (modify (index_appended key payload identity (sl_next_offset log) (stamp log)))
      (\<lambda>_. return_op (sl_next_offset log))) (\<lambda>o1 log2. o1 = sl_next_offset log \<and> ?Q log2 \<and> ri_key (last (sl_records log2)) = key) (\<lambda>_ _. True)"
    by (simp add: hoare_def and_then_def modify_def return_op_def index_appended_def remember_record_def Let_def)
  have "hoare (\<lambda>l. l = log) (append_record_with_sync key payload identity sync)
      (\<lambda>o1 log2. o1 = sl_next_offset log \<and> ?Q log2 \<and> ri_key (last (sl_records log2)) = key) (\<lambda>_ _. True)"
    unfolding append_record_with_sync_def lift_res_bind append_checks(1) [OF fits, THEN conjunct1]
      append_checks(1) [OF fits, THEN conjunct2] sum.case
    using hoare_and_then [OF frames hoare_and_then [OF sync_step hoare_and_then [OF call finish]]]
    unfolding hoare_def and_then_def [of "reads _"] and_then_def [of now_ms] reads_def now_ms_eq
    by (simp add: reading_refl [of "stamped log"])
  from hoareD_ok [OF this refl assms] show "off = sl_next_offset log"
    "sl_file log' = sl_file log @ encoded_record key payload identity (sl_next_offset log) (stamp log)"
    "ri_key (last (sl_records log')) = key" by simp_all
qed

text \<open>C39: After a failed append the log is neither rolled back nor refused: when the frame was written
  and only its sync failed, the next append succeeds, reuses the offset, and leaves a file with two
  frames of that offset, which cannot be opened again.\<close>

theorem failed_sync_then_append_unopenable:
  assumes ok: "log_ok es [] log" and texts: "texts_ok key identity" "texts_ok key2 identity2" and room: "length es < u64_max"
    and failed: "append_record_with_sync key payload identity True log = (Inl err, log1)"
    and written: "sl_file log1 = log_bytes es @ entry_bytes (length es) (new_entry key payload identity log)"
    and again: "append_record_with_sync key2 payload2 identity2 True log1 = (Inr off, log2)"
  shows "off = length es \<and> inspect (sl_file log2) [] clock = Inl (invalid_record_data ''record offsets are not contiguous'')"
proof -
  let ?e = "new_entry key payload identity log" and ?e2 = "new_entry key2 payload2 identity2 log1"
  from ok texts(1) room failed have torn: "torn_append es ?e log log1" and fits: "record_fits key payload identity"
    using length_entry_bytes [of "length es" ?e] written log_okD(2) [OF ok]
    by (cases rule: append_record_cases; auto)+
  then have off1: "sl_next_offset log1 = length es" by (auto simp: torn_append_def dest: log_okD(6))
  note second = append_success_file [OF again]
  have "encoded_record key2 payload2 identity2 (length es) (stamp log1) = entry_bytes (length es) ?e2"
    by (simp add: entry_bytes_def new_entry_def)
  then have "sl_file log2 = log_bytes (es @ [?e]) @ entry_bytes (length es) ?e2"
    by (simp add: second(3) written off1 log_bytes_snoc)
  moreover have "entries_ok (es @ [?e])"
    using log_okD(1) [OF ok] new_entry_ok [OF fits texts(1)] room by (simp add: entries_ok_snoc)
  moreover have "entry_ok (length es) ?e2"
    using new_entry_ok [OF second(1) texts(2)] room by simp
  ultimately show ?thesis using inspect_duplicate_offset [of "es @ [?e]" "length es" ?e2] second(2) off1 by simp
qed

definition failing_log :: stream_log where
  "failing_log = empty_log [] [IoFine, IoFine, IoFail (IoError IoOther ''disk'')] [6]"

theorem failed_sync_then_append_unopenable_witness:
  "\<exists>log1 log2. append_record_with_sync None [9] NoIdentity True failing_log = (Inl (Io (IoError IoOther ''disk'')), log1) \<and>
     append_record_with_sync None [9] NoIdentity True log1 = (Inr 0, log2) \<and>
     inspect (sl_file log2) [] [] = Inl (invalid_record_data ''record offsets are not contiguous'')"
proof -
  have fits: "record_fits None [9] NoIdentity"
    by (simp add: record_fits_def key_text_def id_text_def size_limits)
  have run: "write_frame (record_frame None [9] NoIdentity off ts) l =
      (and_then (log_write (frame_header None [9] NoIdentity off ts)) (\<lambda>_. log_write [9])) l" for off ts l
    by (simp add: write_frame_def record_frame_def frame_header_def Let_def log_write_def and_then_def
        split: prod.split sum.split)
  have header: "frame_header None [9] NoIdentity off ts \<noteq> []" for off ts
    using length_frame_header [of None "[9]" NoIdentity off ts] by (metis list.size(3) zero_neq_numeral)
  note evals = append_record_with_sync_def record_lengths_def check_request_id_def size_limits Let_def op_defs run header log_write_def log_call_def log_sync_def
    log_next_fault_def now_ms_eq stamp_def stamped_def
  let ?log1 = "(stamped failing_log)\<lparr>sl_script := [], sl_file := entry_bytes 0 (new_entry None [9] NoIdentity failing_log)\<rparr>"
  have first: "append_record_with_sync None [9] NoIdentity True failing_log = (Inl (Io (IoError IoOther ''disk'')), ?log1)"
    by (simp add: evals failing_log_def empty_log_def entry_bytes_def new_entry_def encoded_record_eq key_text_def id_text_def)
  obtain log2 where second: "append_record_with_sync None [9] NoIdentity True ?log1 = (Inr 0, log2)"
    by (simp add: evals failing_log_def empty_log_def key_text_def id_text_def)
  from failed_sync_then_append_unopenable [OF log_ok_empty [of "[IoFine, IoFine, IoFail (IoError IoOther ''disk'')]" "[6]", folded failing_log_def]
      sample_texts(1) sample_texts(1) _ first _ second, of "[]"] first second
  show ?thesis by simp
qed

lemma encoded_empty_key: "encoded_record (Some '''') payload identity off ts = encoded_record None payload identity off ts"
  by (simp add: record_frame_def)



end
