(* ===== verification/Broker_State.thy ===== *)
theory Broker_State
  imports Log_Properties Consumer_Durability Delivery_Requests
begin

text \<open>
  The broker (\<open>crates/runnel-core/src/broker.rs\<close>), first part: its state, the streams table, opening
  a data directory, publishing, and the helpers that observe expired deliveries.

  A request on a stream holds the stream's mutex from its first access to its end, so it runs on a
  \<open>session\<close>: the locked stream, the files of the consumer it serves, and the rest of the broker,
  which other streams' requests share. The mutex makes the session a sequential program; a dead-letter
  move takes the lock of a second, different stream.

  The wall clock and the monotonic clock are lists of readings, one per call of the code, and every
  file has its own script of I/O outcomes: a theorem quantified over them holds for every clock, also
  one that jumps, and every fault.
\<close>

section \<open>State\<close>

record stream_state =
  ss_log :: stream_log
  ss_delivery :: delivery_state
  ss_wakes :: nat

record broker_config =
  bc_ack_timeout :: nat
  bc_max_delivery_attempts :: "nat option"

text \<open>
  What the process is given: the consumer files by stream and consumer, the clocks (milliseconds
  since the epoch, and nanoseconds), and the faults and timestamps of the streams it will create.
\<close>

record environment =
  env_files :: "string \<Rightarrow> string \<Rightarrow> consumer_store"
  env_clock :: "int list"
  env_instants :: "instant list"
  env_new_logs :: "string \<Rightarrow> io_fault list \<times> nat list"

record broker =
  br_streams :: "(string, stream_state) fmap"
  br_ack_timeout :: nat
  br_max_delivery_attempts :: "nat option"
  br_redeliveries :: nat
  br_dead_letters :: nat
  br_tokens :: token_generator
  br_env :: environment

record session =
  se_log :: stream_log
  se_delivery :: delivery_state
  se_wakes :: nat
  se_store :: consumer_store
  se_broker :: broker

definition DEFAULT_ACK_TIMEOUT :: nat where
  "DEFAULT_ACK_TIMEOUT = 30 * 1000000000"

definition default_config :: broker_config where
  "default_config = \<lparr>bc_ack_timeout = DEFAULT_ACK_TIMEOUT, bc_max_delivery_attempts = None\<rparr>"

definition new_stream_state :: "stream_log \<Rightarrow> stream_state" where
  "new_stream_state log = \<lparr>ss_log = log, ss_delivery = new_delivery_state, ss_wakes = 0\<rparr>"

section \<open>Clocks, counters and tokens\<close>

definition wall_clock_ms :: "(broker, broker_error, nat) op" where
  "wall_clock_ms b =
     (case env_clock (br_env b) of
        [] \<Rightarrow> (Inr 0, b)
      | t # ts \<Rightarrow> (Inr (min (nat t) u64_max), b\<lparr>br_env := (br_env b)\<lparr>env_clock := ts\<rparr>\<rparr>))"

definition instant_now :: "(broker, broker_error, instant) op" where
  "instant_now b =
     (case env_instants (br_env b) of
        [] \<Rightarrow> (Inr 0, b)
      | t # ts \<Rightarrow> (Inr t, b\<lparr>br_env := (br_env b)\<lparr>env_instants := ts\<rparr>\<rparr>))"

definition take_token :: "(broker, broker_error, string) op" where
  "take_token b = (case next_token (br_tokens b) of (token, g) \<Rightarrow> (Inr token, b\<lparr>br_tokens := g\<rparr>))"

definition count_redelivery :: "broker \<Rightarrow> broker" where
  "count_redelivery b = b\<lparr>br_redeliveries := wrapping_add64 (br_redeliveries b) 1\<rparr>"

definition count_dead_letter :: "broker \<Rightarrow> broker" where
  "count_dead_letter b = b\<lparr>br_dead_letters := wrapping_add64 (br_dead_letters b) 1\<rparr>"

definition from_millis :: "nat \<Rightarrow> nat" where
  "from_millis ms = ms * 1000000"

definition legacy_policy :: "broker \<Rightarrow> consumer_policy" where
  "legacy_policy b = policy_legacy (min (br_ack_timeout b div 1000000) u64_max) (br_max_delivery_attempts b)"

section \<open>The streams table\<close>

definition get_or_create_stream :: "string \<Rightarrow> (broker, broker_error, unit) op" where
  "get_or_create_stream stream b =
     (case fmlookup (br_streams b) stream of
        Some _ \<Rightarrow> (Inr (), b)
      | None \<Rightarrow>
          (case env_new_logs (br_env b) stream of (script, clock) \<Rightarrow>
           case create_log script clock of
             Inl e \<Rightarrow> (Inl e, b)
           | Inr log \<Rightarrow> (Inr (), b\<lparr>br_streams := fmupd stream (new_stream_state log) (br_streams b)\<rparr>)))"

text \<open>A request that only needs the stream itself.\<close>

definition on_stream :: "string \<Rightarrow> (stream_state, broker_error, 'a) op \<Rightarrow> (broker, broker_error, 'a) op" where
  "on_stream stream m b =
     (case fmlookup (br_streams b) stream of
        None \<Rightarrow> (Inl (StreamNotFound stream), b)
      | Some ss \<Rightarrow> (case m ss of (r, ss1) \<Rightarrow> (r, b\<lparr>br_streams := fmupd stream ss1 (br_streams b)\<rparr>)))"

definition on_stream_log :: "(stream_log, broker_error, 'a) op \<Rightarrow> (stream_state, broker_error, 'a) op" where
  "on_stream_log m = zoom ss_log (\<lambda>log ss. ss\<lparr>ss_log := log\<rparr>) m"

definition stream_notify :: "stream_state \<Rightarrow> stream_state" where
  "stream_notify ss = ss\<lparr>ss_wakes := Suc (ss_wakes ss)\<rparr>"

text \<open>A request of one consumer: \<open>get_stream\<close>, then the lock until the end.\<close>

definition open_session :: "string \<Rightarrow> string \<Rightarrow> stream_state \<Rightarrow> broker \<Rightarrow> session" where
  "open_session stream consumer ss b =
     \<lparr>se_log = ss_log ss, se_delivery = ss_delivery ss, se_wakes = ss_wakes ss,
      se_store = env_files (br_env b) stream consumer, se_broker = b\<rparr>"

definition close_session :: "string \<Rightarrow> string \<Rightarrow> session \<Rightarrow> broker" where
  "close_session stream consumer se =
     (let b = se_broker se; files = env_files (br_env b)
      in b\<lparr>br_streams := fmupd stream
             \<lparr>ss_log = se_log se, ss_delivery = se_delivery se, ss_wakes = se_wakes se\<rparr> (br_streams b),
           br_env := (br_env b)\<lparr>env_files := files(stream := (files stream)(consumer := se_store se))\<rparr>\<rparr>)"

definition lock_stream ::
  "string \<Rightarrow> string \<Rightarrow> (session, broker_error, 'a) op \<Rightarrow> (broker, broker_error, 'a) op" where
  "lock_stream stream consumer m b =
     (case fmlookup (br_streams b) stream of
        None \<Rightarrow> (Inl (StreamNotFound stream), b)
      | Some ss \<Rightarrow>
          (case m (open_session stream consumer ss b) of (r, se) \<Rightarrow> (r, close_session stream consumer se)))"

text \<open>The parts of a session.\<close>

definition on_log :: "(stream_log, broker_error, 'a) op \<Rightarrow> (session, broker_error, 'a) op" where
  "on_log m = zoom se_log (\<lambda>log se. se\<lparr>se_log := log\<rparr>) m"

definition on_files :: "(consumer_store, broker_error, 'a) op \<Rightarrow> (session, broker_error, 'a) op" where
  "on_files m = zoom se_store (\<lambda>d se. se\<lparr>se_store := d\<rparr>) m"

definition on_request ::
  "(delivery_state \<times> consumer_store, broker_error, 'a) op \<Rightarrow> (session, broker_error, 'a) op" where
  "on_request m =
     zoom (\<lambda>se. (se_delivery se, se_store se)) (\<lambda>w se. se\<lparr>se_delivery := fst w, se_store := snd w\<rparr>) m"

definition on_broker :: "(broker, broker_error, 'a) op \<Rightarrow> (session, broker_error, 'a) op" where
  "on_broker m = zoom se_broker (\<lambda>b se. se\<lparr>se_broker := b\<rparr>) m"

definition change_delivery :: "(delivery_state \<Rightarrow> delivery_state) \<Rightarrow> (session, broker_error, unit) op" where
  "change_delivery f = modify (\<lambda>se. se\<lparr>se_delivery := f (se_delivery se)\<rparr>)"

definition notify_waiters :: "(session, broker_error, unit) op" where
  "notify_waiters = modify (\<lambda>se. se\<lparr>se_wakes := Suc (se_wakes se)\<rparr>)"

section \<open>Opening a data directory\<close>

text \<open>
  An entry of the streams directory: its name (\<open>None\<close> where it is not UTF-8, which the code skips),
  its contents, and the faults and timestamps of the log that will be made of it.
\<close>

record dir_entry =
  de_name :: "string option"
  de_contents :: bytes
  de_script :: "io_fault list"
  de_clock :: "nat list"

text \<open>\<open>Path::file_stem\<close> and \<open>Path::extension\<close>: split at the last dot, unless that is the first character.\<close>

definition split_extension :: "string \<Rightarrow> string \<times> string option" where
  "split_extension name =
     (case dropWhile (\<lambda>c. c \<noteq> CHR ''.'') (rev name) of
        [] \<Rightarrow> (name, None)
      | [_] \<Rightarrow> (name, None)
      | _ # before \<Rightarrow> (rev before, Some (rev (takeWhile (\<lambda>c. c \<noteq> CHR ''.'') (rev name)))))"

text \<open>A call on the directory consumes one fault of its script.\<close>

definition dir_call :: "(io_fault list, broker_error, unit) op" where
  "dir_call fs =
     (case fs of
        [] \<Rightarrow> (Inr (), [])
      | IoFine # fs1 \<Rightarrow> (Inr (), fs1)
      | IoFail e # fs1 \<Rightarrow> (Inl (Io e), fs1)
      | IoPartial _ e # fs1 \<Rightarrow> (Inl (Io e), fs1))"

primrec inspect_streams ::
  "dir_entry list \<Rightarrow> (io_fault list, broker_error, (string \<times> stream_log \<times> nat option) list) op" where
  "inspect_streams [] = return_op []"
| "inspect_streams (entry # entries) =
     and_then dir_call (\<lambda>_.
     case map_option split_extension (de_name entry) of
       Some (name, Some ext) \<Rightarrow>
         if ext \<noteq> ''log'' then inspect_streams entries
         else and_then (lift_res (validate_name ''stream'' name)) (\<lambda>_.
              and_then (lift_res (inspect (de_contents entry) (de_script entry) (de_clock entry))) (\<lambda>found.
              and_then (inspect_streams entries) (\<lambda>rest.
              return_op ((name, found) # rest))))
     | _ \<Rightarrow> inspect_streams entries)"

primrec finish_streams ::
  "(string \<times> stream_log \<times> nat option) list \<Rightarrow> (string, stream_state) fmap \<Rightarrow>
   broker_error + (string, stream_state) fmap" where
  "finish_streams [] streams = Inr streams"
| "finish_streams (found # rest) streams =
     (case found of (name, log, incomplete_tail) \<Rightarrow>
      case finish_recovery incomplete_tail log of
        (Inl e, _) \<Rightarrow> Inl e
      | (Inr _, log1) \<Rightarrow> finish_streams rest (fmupd name (new_stream_state log1) streams))"

definition open_broker ::
  "broker_config \<Rightarrow> dir_entry list \<Rightarrow> io_fault list \<Rightarrow> nat \<Rightarrow> environment \<Rightarrow> broker_error + broker" where
  "open_broker config entries dir_script epoch env =
     (if bc_max_delivery_attempts config = Some 0
      then Inl (Configuration ''max delivery attempts must be greater than zero'')
      else case and_then dir_call (\<lambda>_. and_then dir_call (\<lambda>_. and_then dir_call (\<lambda>_.
                  inspect_streams entries))) dir_script of
        (Inl e, _) \<Rightarrow> Inl e
      | (Inr recovered, _) \<Rightarrow>
          (case finish_streams recovered fmempty of
             Inl e \<Rightarrow> Inl e
           | Inr streams \<Rightarrow>
               Inr \<lparr>br_streams = streams, br_ack_timeout = bc_ack_timeout config,
                    br_max_delivery_attempts = bc_max_delivery_attempts config,
                    br_redeliveries = 0, br_dead_letters = 0,
                    br_tokens = \<lparr>tg_epoch = epoch, tg_next_id = 0\<rparr>, br_env = env\<rparr>))"

section \<open>Streams and publishing\<close>

definition create_stream :: "string \<Rightarrow> (broker, broker_error, bool) op" where
  "create_stream stream =
     and_then (lift_res (validate_name ''stream'' stream)) (\<lambda>_ b.
     case fmlookup (br_streams b) stream of
       Some _ \<Rightarrow> (Inr False, b)
     | None \<Rightarrow>
         (case env_new_logs (br_env b) stream of (script, clock) \<Rightarrow>
          case create_log script clock of
            Inl e \<Rightarrow> (Inl e, b)
          | Inr log \<Rightarrow> (Inr True, b\<lparr>br_streams := fmupd stream (new_stream_state log) (br_streams b)\<rparr>)))"

definition publish_locked ::
  "string option \<Rightarrow> bytes \<Rightarrow> string option \<Rightarrow> (stream_state, broker_error, offset) op" where
  "publish_locked key payload request_id =
     and_then (case request_id of
                 None \<Rightarrow> return_op None
               | Some rid \<Rightarrow> on_stream_log (request_offset_for_content rid key payload)) (\<lambda>known.
     case known of
       Some off \<Rightarrow> return_op off
     | None \<Rightarrow>
         and_then (on_stream_log (case request_id of
                     Some rid \<Rightarrow> append_with_request_id key payload rid
                   | None \<Rightarrow> append_log key payload)) (\<lambda>off.
         and_then (modify stream_notify) (\<lambda>_.
         return_op off)))"

definition publish_with_request_id ::
  "string \<Rightarrow> string option \<Rightarrow> bytes \<Rightarrow> string option \<Rightarrow> (broker, broker_error, offset) op" where
  "publish_with_request_id stream key payload request_id =
     and_then (lift_res (validate_name ''stream'' stream)) (\<lambda>_.
     and_then (get_or_create_stream stream) (\<lambda>_.
     on_stream stream (publish_locked key payload request_id)))"

definition publish :: "string \<Rightarrow> string option \<Rightarrow> bytes \<Rightarrow> (broker, broker_error, offset) op" where
  "publish stream key payload = publish_with_request_id stream key payload None"

definition publish_batch ::
  "string \<Rightarrow> publish_record list \<Rightarrow> (broker, broker_error, (broker_error + offset) list) op" where
  "publish_batch stream records =
     (if length records > MAX_PUBLISH_BATCH_RECORDS
      then throw (Configuration (''publish batch contains more than '' @
             dec_string MAX_PUBLISH_BATCH_RECORDS @ '' records''))
      else and_then (lift_res (validate_name ''stream'' stream)) (\<lambda>_.
           and_then (get_or_create_stream stream) (\<lambda>_.
           on_stream stream
             (and_then (on_stream_log (append_batch records)) (\<lambda>outcomes.
              and_then (if list_ex (\<lambda>o1. \<not> isl o1) outcomes then modify stream_notify else return_op ()) (\<lambda>_.
              return_op outcomes))))))"

definition replay ::
  "string \<Rightarrow> string \<Rightarrow> offset \<Rightarrow> (broker, broker_error, replay_message) op" where
  "replay stream consumer off =
     and_then (lift_res (validate_name ''stream'' stream)) (\<lambda>_.
     and_then (lift_res (validate_name ''consumer'' consumer)) (\<lambda>_.
     on_stream stream (on_stream_log (read_replay_message stream off))))"

text \<open>The streams are visited in the order the hash table yields them; sizes add up modulo \<open>2\<^sup>6\<^sup>4\<close>.\<close>

primrec health_loop :: "string list \<Rightarrow> nat \<Rightarrow> nat \<Rightarrow> (broker, broker_error, nat \<times> nat) op" where
  "health_loop [] bytes in_flight = return_op (bytes, in_flight)"
| "health_loop (stream # streams) bytes in_flight =
     and_then (on_stream stream (on_stream_log storage_bytes)) (\<lambda>n.
     and_then (on_stream stream (reads (\<lambda>ss. in_flight_count (ss_delivery ss)))) (\<lambda>k.
     health_loop streams (wrapping_add64 bytes n) (wrapping_add64 in_flight k)))"

definition health :: "(string fset \<Rightarrow> string list) \<Rightarrow> (broker, broker_error, health_snapshot) op" where
  "health order =
     and_then (reads (\<lambda>b. hash_keys order (br_streams b))) (\<lambda>streams.
     and_then (health_loop streams 0 0) (\<lambda>(bytes, in_flight).
     and_then (reads br_redeliveries) (\<lambda>redelivered.
     and_then (reads br_dead_letters) (\<lambda>dead.
     return_op \<lparr>hs_streams = length streams, hs_storage_bytes = bytes, hs_in_flight_deliveries = in_flight,
       hs_redeliveries = redelivered, hs_dead_letters = dead\<rparr>))))"

end
