(* ===== verification/Broker_Requests.thy ===== *)
theory Broker_Requests
  imports Broker_State
begin

text \<open>
  The broker (\<open>crates/runnel-core/src/broker.rs\<close>), second part: the requests of a consumer. Each
  runs on the session of its stream; the consumer's state is a value the request reads at its start
  and updates beside every event it persists, as the code does with its local variable.
\<close>

section \<open>Shared steps\<close>

text \<open>Persist an event; on failure the consumer's state must be reloaded before it is trusted again.\<close>

definition persist_event ::
  "codec \<Rightarrow> string \<Rightarrow> string \<Rightarrow> consumer_state \<Rightarrow> consumer_state_event \<Rightarrow> (session, broker_error, unit) op" where
  "persist_event cdc stream consumer cs event =
     on_error (on_files (persist_consumer_event cdc stream consumer cs event))
       (\<lambda>se. se\<lparr>se_delivery := mark_consumer_needs_reconcile consumer (se_delivery se)\<rparr>)"

definition load_for_request ::
  "codec \<Rightarrow> hash_orders \<Rightarrow> string \<Rightarrow> string \<Rightarrow> (session, broker_error, consumer_state) op" where
  "load_for_request cdc ho stream consumer = on_request (load_consumer_state_for_request cdc ho stream consumer)"

definition cache_state :: "hash_orders \<Rightarrow> string \<Rightarrow> consumer_state \<Rightarrow> (session, broker_error, unit) op" where
  "cache_state ho consumer cs = change_delivery (cache_consumer_state (ho_consumers ho) consumer cs)"

definition attempts_of :: "consumer_state \<Rightarrow> offset \<Rightarrow> nat" where
  "attempts_of cs off = (case fmlookup (delivery_attempts cs) off of None \<Rightarrow> 0 | Some n \<Rightarrow> n)"

definition exhausted :: "consumer_policy \<Rightarrow> nat \<Rightarrow> bool" where
  "exhausted policy attempts =
     (case cp_max_delivery_attempts policy of None \<Rightarrow> False | Some maximum \<Rightarrow> attempts \<ge> maximum)"

definition find_candidate_excluding ::
  "string \<Rightarrow> offset \<Rightarrow> offset fset \<Rightarrow> offset fset \<Rightarrow> string fset \<Rightarrow> (session, broker_error, record_index option) op" where
  "find_candidate_excluding consumer committed acknowledged extra_offsets extra_keys =
     and_then (reads (\<lambda>se. in_flight_filter consumer (se_delivery se))) (\<lambda>current.
     on_log (find_candidate committed acknowledged
       (case current of
          None \<Rightarrow>
            if extra_offsets = {||} \<and> extra_keys = {||} then None else Some (extra_offsets, extra_keys)
        | Some (offsets, keys) \<Rightarrow>
            if extra_offsets = {||} \<and> extra_keys = {||} then Some (offsets, keys)
            else Some (offsets |\<union>| extra_offsets, keys |\<union>| extra_keys))))"

definition find_candidate_excluding_released ::
  "string \<Rightarrow> offset \<Rightarrow> offset fset \<Rightarrow> offset fset \<Rightarrow> string fset \<Rightarrow> offset fset \<Rightarrow>
   (session, broker_error, record_index option) op" where
  "find_candidate_excluding_released consumer committed acknowledged extra_offsets extra_keys released =
     and_then (reads (\<lambda>se. in_flight_filter_excluding consumer released (se_delivery se))) (\<lambda>(current_offsets, current_keys).
     let offsets = current_offsets |\<union>| extra_offsets; keys = current_keys |\<union>| extra_keys
     in on_log (find_candidate committed acknowledged
          (if offsets = {||} \<and> keys = {||} then None else Some (offsets, keys))))"

section \<open>Expired deliveries and orphans\<close>

record expired_delivery_plan =
  plan_deliveries :: "in_flight list"
  plan_schedules :: "retry_schedule_event list"

fun expired_schedules ::
  "consumer_state \<Rightarrow> consumer_policy \<Rightarrow> nat \<Rightarrow> in_flight list \<Rightarrow> broker_error + retry_schedule_event list" where
  "expired_schedules cs legacy observed_at_ms [] = Inr []"
| "expired_schedules cs legacy observed_at_ms (d # ds) =
     (let off = if_offset d
      in if off |\<in>| fmdom (retry_not_before cs) then expired_schedules cs legacy observed_at_ms ds
         else case policy_for_offset off legacy cs of
                Inl e \<Rightarrow> Inl e
              | Inr policy \<Rightarrow>
                  if exhausted policy (attempts_of cs off) \<or> cp_retry_delay_ms policy = 0
                  then expired_schedules cs legacy observed_at_ms ds
                  else case expired_schedules cs legacy observed_at_ms ds of
                         Inl e \<Rightarrow> Inl e
                       | Inr rest \<Rightarrow>
                           Inr (\<lparr>rse_offset = off,
                                 rse_not_before_ms = saturating_add64 observed_at_ms (cp_retry_delay_ms policy),
                                 rse_key = if_key d\<rparr> # rest))"

definition plan_expired_deliveries ::
  "string \<Rightarrow> consumer_state \<Rightarrow> consumer_policy \<Rightarrow> instant \<Rightarrow> nat \<Rightarrow> delivery_state \<Rightarrow>
   broker_error + expired_delivery_plan" where
  "plan_expired_deliveries consumer cs legacy now observed_at_ms ds =
     (let deliveries = expired_deliveries consumer now ds
      in case expired_schedules cs legacy observed_at_ms deliveries of
           Inl e \<Rightarrow> Inl e
         | Inr schedules \<Rightarrow> Inr \<lparr>plan_deliveries = deliveries, plan_schedules = schedules\<rparr>)"

definition schedule_of :: "retry_schedule_event \<Rightarrow> retry_schedule" where
  "schedule_of r = \<lparr>rs_not_before_ms = rse_not_before_ms r, rs_key = rse_key r\<rparr>"

text \<open>The loop over the plan's schedules: \<open>entry(offset).or_insert(schedule)\<close>.\<close>

definition insert_schedules :: "retry_schedule_event list \<Rightarrow> consumer_state \<Rightarrow> consumer_state" where
  "insert_schedules schedules cs =
     cs\<lparr>retry_not_before := fold (\<lambda>r. or_insert (rse_offset r) (schedule_of r)) schedules (retry_not_before cs)\<rparr>"

definition apply_expired_delivery_plan ::
  "codec \<Rightarrow> hash_orders \<Rightarrow> string \<Rightarrow> consumer_state \<Rightarrow> expired_delivery_plan \<Rightarrow>
   (session, broker_error, consumer_state) op" where
  "apply_expired_delivery_plan cdc ho consumer cs plan =
     (if plan_deliveries plan = [] then return_op cs
      else and_then
        (if plan_schedules plan = [] then return_op cs
         else and_then (persist_event cdc (cs_stream cs) consumer cs (RetrySchedules (plan_schedules plan))) (\<lambda>_.
              let cs1 = insert_schedules (plan_schedules plan) cs
              in and_then (cache_state ho consumer cs1) (\<lambda>_. return_op cs1))) (\<lambda>cs1.
        and_then (change_delivery (fold (remove_delivery consumer) (map if_offset (plan_deliveries plan)))) (\<lambda>_.
        and_then notify_waiters (\<lambda>_.
        return_op cs1))))"

definition observe_expired_deliveries ::
  "codec \<Rightarrow> hash_orders \<Rightarrow> string \<Rightarrow> consumer_state \<Rightarrow> consumer_policy \<Rightarrow> instant \<Rightarrow>
   (session, broker_error, consumer_state) op" where
  "observe_expired_deliveries cdc ho consumer cs legacy now =
     and_then (on_broker wall_clock_ms) (\<lambda>observed_at_ms.
     and_then (reads se_delivery) (\<lambda>ds.
     and_then (lift_res (plan_expired_deliveries consumer cs legacy now observed_at_ms ds)) (\<lambda>plan.
     apply_expired_delivery_plan cdc ho consumer cs plan)))"

definition orphan_retry_schedule ::
  "consumer_state \<Rightarrow> consumer_policy \<Rightarrow> offset \<Rightarrow> nat \<Rightarrow> (stream_log, broker_error, retry_schedule_event option) op" where
  "orphan_retry_schedule cs legacy off observed_at_ms =
     (if off |\<in>| fmdom (retry_not_before cs) then return_op None
      else if attempts_of cs off = 0 then return_op None
      else and_then (lift_res (policy_for_offset off legacy cs)) (\<lambda>policy.
           if exhausted policy (attempts_of cs off) \<or> cp_retry_delay_ms policy = 0 then return_op None
           else and_then (find_record off) (\<lambda>r.
                return_op (Some \<lparr>rse_offset = off,
                  rse_not_before_ms = saturating_add64 observed_at_ms (cp_retry_delay_ms policy),
                  rse_key = ri_key r\<rparr>))))"

definition schedule_orphan_retry ::
  "codec \<Rightarrow> hash_orders \<Rightarrow> string \<Rightarrow> string \<Rightarrow> consumer_state \<Rightarrow> consumer_policy \<Rightarrow> offset \<Rightarrow>
   (session, broker_error, bool \<times> consumer_state) op" where
  "schedule_orphan_retry cdc ho stream consumer cs legacy off =
     and_then (on_broker wall_clock_ms) (\<lambda>observed_at_ms.
     and_then (on_log (orphan_retry_schedule cs legacy off observed_at_ms)) (\<lambda>found.
     case found of
       None \<Rightarrow> return_op (False, cs)
     | Some schedule \<Rightarrow>
         and_then (persist_event cdc stream consumer cs (RetrySchedules [schedule])) (\<lambda>_.
         let cs1 = cs\<lparr>retry_not_before := fmupd off (schedule_of schedule) (retry_not_before cs)\<rparr>
         in and_then (cache_state ho consumer cs1) (\<lambda>_.
            and_then notify_waiters (\<lambda>_.
            return_op (rse_not_before_ms schedule > observed_at_ms, cs1))))))"

definition next_consumer_wake ::
  "string \<Rightarrow> consumer_state \<Rightarrow> nat \<Rightarrow> (session, broker_error, instant option) op" where
  "next_consumer_wake consumer cs at_ms =
     and_then (reads (\<lambda>se. next_deadline_for_consumer consumer (se_delivery se))) (\<lambda>next_lease.
     let deadlines = ffilter (\<lambda>t. t > at_ms) (rs_not_before_ms |`| fmran (retry_not_before cs))
     in and_then (if deadlines = {||} then return_op None
                  else and_then (on_broker instant_now) (\<lambda>now.
                       return_op (Some (now + from_millis (fMin deadlines - at_ms))))) (\<lambda>next_retry.
        return_op (case (next_lease, next_retry) of
          (None, r) \<Rightarrow> r | (l, None) \<Rightarrow> l | (Some l, Some r) \<Rightarrow> Some (min l r))))"

section \<open>Policies\<close>

definition configure_locked ::
  "codec \<Rightarrow> hash_orders \<Rightarrow> string \<Rightarrow> string \<Rightarrow> nat \<Rightarrow> nat option \<Rightarrow> nat \<Rightarrow>
   (session, broker_error, consumer_policy) op" where
  "configure_locked cdc ho stream consumer timeout_ms max_attempts delay_ms =
     and_then (load_for_request cdc ho stream consumer) (\<lambda>cs.
     let unchanged = (case cs_policy cs of
           Some p \<Rightarrow> cp_ack_timeout_ms p = timeout_ms \<and> cp_max_delivery_attempts p = max_attempts \<and>
                     cp_retry_delay_ms p = delay_ms
         | None \<Rightarrow> False);
       version = (case cs_policy cs of Some p \<Rightarrow> saturating_add64 (cp_version p) 1 | None \<Rightarrow> 1);
       policy = policy_configured version timeout_ms max_attempts delay_ms
     in if unchanged then return_op (the (cs_policy cs))
        else if version = 0 then throw (Configuration ''consumer policy version exhausted'')
        else and_then (persist_event cdc stream consumer cs (PolicyConfigured policy)) (\<lambda>_.
             and_then (cache_state ho consumer
               (cs\<lparr>cs_policy := Some policy, cs_stream := stream, cs_consumer := consumer\<rparr>)) (\<lambda>_.
             and_then notify_waiters (\<lambda>_.
             return_op policy))))"

definition configure_consumer ::
  "codec \<Rightarrow> hash_orders \<Rightarrow> string \<Rightarrow> string \<Rightarrow> nat \<Rightarrow> nat option \<Rightarrow> nat \<Rightarrow>
   (broker, broker_error, consumer_policy) op" where
  "configure_consumer cdc ho stream consumer timeout_ms max_attempts delay_ms =
     and_then (lift_res (validate_name ''stream'' stream)) (\<lambda>_.
     and_then (lift_res (validate_name ''consumer'' consumer)) (\<lambda>_.
     and_then (lift_res (validate_consumer_policy timeout_ms max_attempts delay_ms)) (\<lambda>_.
     lock_stream stream consumer (configure_locked cdc ho stream consumer timeout_ms max_attempts delay_ms))))"

definition inspect_consumer ::
  "codec \<Rightarrow> hash_orders \<Rightarrow> string \<Rightarrow> string \<Rightarrow> (broker, broker_error, consumer_policy) op" where
  "inspect_consumer cdc ho stream consumer =
     and_then (lift_res (validate_name ''stream'' stream)) (\<lambda>_.
     and_then (lift_res (validate_name ''consumer'' consumer)) (\<lambda>_.
     lock_stream stream consumer
       (and_then (load_for_request cdc ho stream consumer) (\<lambda>cs.
        reads (\<lambda>se. case cs_policy cs of Some p \<Rightarrow> p | None \<Rightarrow> legacy_policy (se_broker se))))))"

section \<open>Dead letters\<close>

definition dead_letter_record ::
  "string \<Rightarrow> string \<Rightarrow> record_index \<Rightarrow> (session, broker_error, unit) op" where
  "dead_letter_record stream consumer candidate =
     and_then (lift_res (dead_letter_stream_name stream)) (\<lambda>dead_letter_stream.
     and_then (lift_res (dead_letter_move_id stream consumer (ri_offset candidate))) (\<lambda>move_id.
     and_then (on_log (read_message stream (ri_offset candidate))) (\<lambda>m.
     and_then (on_broker (get_or_create_stream dead_letter_stream)) (\<lambda>_.
     and_then (on_broker (on_stream dead_letter_stream
       (on_stream_log (append_with_move_id (m_key m) (m_payload m) move_id)))) (\<lambda>_.
     return_op ())))))"

text \<open>One candidate: the move, the acknowledgement, and the bookkeeping of both.\<close>

definition persist_dead_letter ::
  "codec \<Rightarrow> hash_orders \<Rightarrow> string \<Rightarrow> string \<Rightarrow> consumer_state \<Rightarrow> record_index \<Rightarrow>
   (session, broker_error, consumer_state) op" where
  "persist_dead_letter cdc ho stream consumer cs candidate =
     and_then (dead_letter_record stream consumer candidate) (\<lambda>_.
     and_then (persist_event cdc stream consumer cs (Acknowledge (ri_offset candidate))) (\<lambda>_.
     let cs1 = acknowledge (ri_offset candidate) cs
     in and_then (cache_state ho consumer cs1) (\<lambda>_.
        and_then notify_waiters (\<lambda>_.
        and_then (on_broker (modify count_dead_letter)) (\<lambda>_.
        return_op cs1)))))"

primrec persist_pending_dead_letters ::
  "codec \<Rightarrow> hash_orders \<Rightarrow> string \<Rightarrow> string \<Rightarrow> record_index list \<Rightarrow> consumer_state \<Rightarrow>
   (session, broker_error, consumer_state) op" where
  "persist_pending_dead_letters cdc ho stream consumer [] cs = return_op cs"
| "persist_pending_dead_letters cdc ho stream consumer (candidate # candidates) cs =
     and_then (persist_dead_letter cdc ho stream consumer cs candidate) (\<lambda>cs1.
     persist_pending_dead_letters cdc ho stream consumer candidates cs1)"

section \<open>Polling\<close>

text \<open>
  The outcome of code with an \<open>expect\<close> or a loop: a value, the panic of the \<open>expect\<close>, or the end of
  the fuel the model gives the loop. The theorems show that only values occur.
\<close>

datatype 'a run = Done 'a | Panicked string | OutOfFuel

text \<open>How the search for a candidate ends, with the consumer's state and the exhausted records met before.\<close>

datatype poll_choice =
    NoCandidate consumer_state "record_index list"
  | Selected consumer_state "record_index list" record_index nat consumer_policy

definition stream_is_dead_letter :: "string \<Rightarrow> (session, broker_error, bool) op" where
  "stream_is_dead_letter stream = reads (\<lambda>se. is_dead_letter_stream (fmdom (br_streams (se_broker se))) stream)"

definition insert_key :: "string option \<Rightarrow> string fset \<Rightarrow> string fset" where
  "insert_key key keys = (case key of None \<Rightarrow> keys | Some k \<Rightarrow> finsert k keys)"

definition schedule_key :: "consumer_state \<Rightarrow> offset \<Rightarrow> string option" where
  "schedule_key cs off = (case fmlookup (retry_not_before cs) off of None \<Rightarrow> None | Some r \<Rightarrow> rs_key r)"

text \<open>Has the offset been attempted, and neither scheduled nor in flight since?\<close>

definition is_orphan :: "string \<Rightarrow> consumer_state \<Rightarrow> offset \<Rightarrow> delivery_state \<Rightarrow> bool" where
  "is_orphan consumer cs off ds \<longleftrightarrow>
     attempts_of cs off > 0 \<and> off |\<notin>| fmdom (retry_not_before cs) \<and> get_in_flight consumer off ds = None"

definition delay_orphan ::
  "codec \<Rightarrow> hash_orders \<Rightarrow> string \<Rightarrow> string \<Rightarrow> consumer_state \<Rightarrow> consumer_policy \<Rightarrow> offset \<Rightarrow>
   (session, broker_error, bool \<times> consumer_state) op" where
  "delay_orphan cdc ho stream consumer cs legacy off =
     and_then (reads (\<lambda>se. is_orphan consumer cs off (se_delivery se))) (\<lambda>orphan.
     if orphan then schedule_orphan_retry cdc ho stream consumer cs legacy off else return_op (False, cs))"

primrec poll_loop ::
  "codec \<Rightarrow> hash_orders \<Rightarrow> string \<Rightarrow> string \<Rightarrow> consumer_policy \<Rightarrow> nat \<Rightarrow> offset fset \<Rightarrow> string fset \<Rightarrow>
   record_index list \<Rightarrow> consumer_state \<Rightarrow> (session, broker_error, poll_choice run) op" where
  "poll_loop cdc ho stream consumer legacy 0 retry_offsets retry_keys terminal cs = return_op OutOfFuel"
| "poll_loop cdc ho stream consumer legacy (Suc fuel) retry_offsets retry_keys terminal cs =
     and_then (find_candidate_excluding consumer (committed_offset cs) (acknowledged_offsets cs)
       retry_offsets retry_keys) (\<lambda>found.
     case found of
       None \<Rightarrow> return_op (Done (NoCandidate cs terminal))
     | Some candidate \<Rightarrow>
         let off = ri_offset candidate; attempts = attempts_of cs off
         in and_then (lift_res (policy_for_offset off legacy cs)) (\<lambda>policy.
            and_then (delay_orphan cdc ho stream consumer cs legacy off) (\<lambda>(delayed, cs1).
            if delayed
            then poll_loop cdc ho stream consumer legacy fuel (finsert off retry_offsets)
                   (insert_key (schedule_key cs1 off) retry_keys) terminal cs1
            else and_then (if exhausted policy attempts then stream_is_dead_letter stream else return_op True) (\<lambda>dead_letter.
                 if \<not> dead_letter
                 then poll_loop cdc ho stream consumer legacy fuel (finsert off retry_offsets) retry_keys
                        (terminal @ [candidate]) cs1
                 else return_op (Done (Selected cs1 terminal candidate attempts policy))))))"

definition with_delivery :: "string \<Rightarrow> nat \<Rightarrow> message \<Rightarrow> message" where
  "with_delivery token attempt m = m\<lparr>m_delivery_token := Some token, m_delivery_attempt := Some attempt\<rparr>"

definition check_response ::
  "nat option \<Rightarrow> string \<Rightarrow> string option \<Rightarrow> message \<Rightarrow> broker_error + unit" where
  "check_response limit consumer response_member m =
     (case limit of
        None \<Rightarrow> Inr ()
      | Some max_response_bytes \<Rightarrow>
          if poll_message_response_upper_bound m consumer response_member (response_member \<noteq> None) > max_response_bytes
          then Inl (ResponseTooLarge max_response_bytes) else Inr ())"

text \<open>The effect of a persisted attempt on the consumer's state, as the two polls write it.\<close>

definition assign_attempt :: "offset \<Rightarrow> nat \<Rightarrow> consumer_policy \<Rightarrow> consumer_state \<Rightarrow> consumer_state" where
  "assign_attempt off attempt policy cs =
     cs\<lparr>delivery_attempts := fmupd off attempt (delivery_attempts cs),
        retry_not_before := fmdrop off (retry_not_before cs),
        delivery_policies := or_insert off policy (delivery_policies cs)\<rparr>"

text \<open>The end of a poll that found its candidate, once its token is known.\<close>

definition deliver_candidate ::
  "codec \<Rightarrow> hash_orders \<Rightarrow> string \<Rightarrow> string \<Rightarrow> string \<Rightarrow> consumer_state \<Rightarrow> record_index list \<Rightarrow>
   record_index \<Rightarrow> nat \<Rightarrow> consumer_policy \<Rightarrow> string \<Rightarrow> (session, broker_error, unit) op" where
  "deliver_candidate cdc ho stream consumer member cs terminal candidate attempt policy token =
     (let off = ri_offset candidate
      in and_then (persist_pending_dead_letters cdc ho stream consumer terminal cs) (\<lambda>cs1.
         and_then (persist_event cdc stream consumer cs1
           (DeliveryAttempt \<lparr>da_offset = off, da_attempt = attempt, da_policy = policy\<rparr>)) (\<lambda>_.
         and_then (if attempt > 1 then on_broker (modify count_redelivery) else return_op ()) (\<lambda>_.
         and_then (on_broker instant_now) (\<lambda>now.
         and_then (change_delivery (insert_in_flight consumer
           \<lparr>if_member = member, if_offset = off, if_key = ri_key candidate, if_delivery_attempt = attempt,
            if_delivery_token = token, if_requires_receipt = False,
            if_deadline = now + from_millis (cp_ack_timeout_ms policy)\<rparr>)) (\<lambda>_.
         and_then (cache_state ho consumer (assign_attempt off attempt policy cs1)) (\<lambda>_.
         notify_waiters)))))))"

primrec poll_finish ::
  "codec \<Rightarrow> hash_orders \<Rightarrow> string \<Rightarrow> string \<Rightarrow> string \<Rightarrow> string option \<Rightarrow> nat option \<Rightarrow>
   (offset \<times> string) option \<Rightarrow> poll_choice \<Rightarrow> (session, broker_error, poll_result run) op" where
  "poll_finish cdc ho stream consumer member response_member limit prepared (NoCandidate cs terminal) =
     and_then (persist_pending_dead_letters cdc ho stream consumer terminal cs) (\<lambda>_.
     return_op (Done PollEmpty))"
| "poll_finish cdc ho stream consumer member response_member limit prepared (Selected cs terminal candidate attempts policy) =
     and_then (on_log (read_message stream (ri_offset candidate))) (\<lambda>m0.
     and_then (if limit = None then and_then (on_broker take_token) (\<lambda>token. return_op (Done token))
               else case prepared of
                      Some (_, token) \<Rightarrow> return_op (Done token)
                    | None \<Rightarrow> return_op (Panicked ''bounded scalar poll preflight prepares its selected delivery'')) (\<lambda>chosen.
     case chosen of
       OutOfFuel \<Rightarrow> return_op OutOfFuel
     | Panicked msg \<Rightarrow> return_op (Panicked msg)
     | Done token \<Rightarrow>
         let attempt = saturating_add32 attempts 1; m = with_delivery token attempt m0
         in and_then (lift_res (check_response limit consumer response_member m)) (\<lambda>_.
            and_then (deliver_candidate cdc ho stream consumer member cs terminal candidate attempt policy token) (\<lambda>_.
            return_op (Done (PollMessage m))))))"

subsection \<open>The preflight of a bounded poll\<close>

primrec preflight_loop ::
  "string \<Rightarrow> string \<Rightarrow> consumer_policy \<Rightarrow> nat \<Rightarrow> bool \<Rightarrow> offset fset \<Rightarrow> nat \<Rightarrow> offset fset \<Rightarrow> string fset \<Rightarrow>
   consumer_state \<Rightarrow> (session, broker_error, (record_index \<times> nat) option run) op" where
  "preflight_loop stream consumer legacy at_ms dead_letter released 0 retry_offsets retry_keys preview = return_op OutOfFuel"
| "preflight_loop stream consumer legacy at_ms dead_letter released (Suc fuel) retry_offsets retry_keys preview =
     and_then (find_candidate_excluding_released consumer (committed_offset preview)
       (acknowledged_offsets preview) retry_offsets retry_keys released) (\<lambda>found.
     case found of
       None \<Rightarrow> return_op (Done None)
     | Some candidate \<Rightarrow>
         let off = ri_offset candidate; attempts = attempts_of preview off
         in and_then (lift_res (policy_for_offset off legacy preview)) (\<lambda>policy.
            and_then (reads (\<lambda>se. is_orphan consumer preview off (se_delivery se))) (\<lambda>orphan.
            and_then (if orphan then on_log (orphan_retry_schedule preview legacy off at_ms) else return_op None) (\<lambda>schedule.
            case (case schedule of Some r \<Rightarrow> if rse_not_before_ms r > at_ms then Some r else None | None \<Rightarrow> None) of
              Some r \<Rightarrow>
                preflight_loop stream consumer legacy at_ms dead_letter released fuel
                  (finsert (rse_offset r) retry_offsets) (insert_key (rse_key r) retry_keys)
                  (preview\<lparr>retry_not_before := fmupd (rse_offset r) (schedule_of r) (retry_not_before preview)\<rparr>)
            | None \<Rightarrow>
                if exhausted policy attempts \<and> \<not> dead_letter
                then preflight_loop stream consumer legacy at_ms dead_letter released fuel
                       (finsert off retry_offsets) retry_keys preview
                else return_op (Done (Some (candidate, attempts)))))))"

definition preflight_poll_response ::
  "string \<Rightarrow> string \<Rightarrow> string \<Rightarrow> string option \<Rightarrow> consumer_state \<Rightarrow> consumer_policy \<Rightarrow> nat \<Rightarrow> nat \<Rightarrow>
   expired_delivery_plan \<Rightarrow> (session, broker_error, (offset \<times> string) option run) op" where
  "preflight_poll_response stream consumer member response_member cs legacy at_ms max_response_bytes plan =
     (let released = fset_of_list (map if_offset (plan_deliveries plan))
      in and_then (reads se_delivery) (\<lambda>ds.
         and_then (lift_res (member_deliveries consumer member ds)) (\<lambda>held.
         case find (\<lambda>d. if_offset d |\<notin>| released) held of
           Some d \<Rightarrow>
             and_then (on_log (read_message stream (if_offset d))) (\<lambda>m.
             and_then (lift_res (check_response (Some max_response_bytes) consumer response_member
               (with_delivery (if_delivery_token d) (if_delivery_attempt d) m))) (\<lambda>_.
             return_op (Done None)))
         | None \<Rightarrow>
             let preview = insert_schedules (plan_schedules plan) cs
             in case retry_filter at_ms preview of (retry_offsets, retry_keys) \<Rightarrow>
                and_then (stream_is_dead_letter stream) (\<lambda>dead_letter.
                and_then (reads (\<lambda>se. Suc (sl_next_offset (se_log se)))) (\<lambda>fuel.
                and_then (preflight_loop stream consumer legacy at_ms dead_letter released fuel
                  retry_offsets retry_keys preview) (\<lambda>choice.
                case choice of
                  OutOfFuel \<Rightarrow> return_op OutOfFuel
                | Panicked msg \<Rightarrow> return_op (Panicked msg)
                | Done None \<Rightarrow> return_op (Done None)
                | Done (Some (candidate, attempts)) \<Rightarrow>
                    and_then (on_log (read_message stream (ri_offset candidate))) (\<lambda>m.
                    and_then (on_broker take_token) (\<lambda>token.
                    and_then (lift_res (check_response (Some max_response_bytes) consumer response_member
                      (with_delivery token (saturating_add32 attempts 1) m))) (\<lambda>_.
                    return_op (Done (Some (ri_offset candidate, token))))))))))))"

text \<open>The search starts with the schedules that are not due yet.\<close>

definition poll_search ::
  "codec \<Rightarrow> hash_orders \<Rightarrow> string \<Rightarrow> string \<Rightarrow> consumer_policy \<Rightarrow> nat \<Rightarrow> consumer_state \<Rightarrow>
   (session, broker_error, poll_choice run) op" where
  "poll_search cdc ho stream consumer legacy at_ms cs =
     (case retry_filter at_ms cs of (retry_offsets, retry_keys) \<Rightarrow>
      and_then (reads (\<lambda>se. Suc (sl_next_offset (se_log se)))) (\<lambda>fuel.
      poll_loop cdc ho stream consumer legacy fuel retry_offsets retry_keys [] cs))"

definition poll_locked ::
  "codec \<Rightarrow> hash_orders \<Rightarrow> string \<Rightarrow> string \<Rightarrow> string \<Rightarrow> string option \<Rightarrow> nat option \<Rightarrow>
   (session, broker_error, poll_result run) op" where
  "poll_locked cdc ho stream consumer member response_member limit =
     and_then (on_broker instant_now) (\<lambda>now.
     and_then (reads (\<lambda>se. legacy_policy (se_broker se))) (\<lambda>legacy.
     and_then (load_for_request cdc ho stream consumer) (\<lambda>cs.
     and_then (on_broker wall_clock_ms) (\<lambda>at_ms.
     and_then (reads se_delivery) (\<lambda>ds.
     and_then (lift_res (plan_expired_deliveries consumer cs legacy now at_ms ds)) (\<lambda>plan.
     and_then (case limit of
                 None \<Rightarrow> return_op (Done None)
               | Some max_response_bytes \<Rightarrow>
                   preflight_poll_response stream consumer member response_member cs legacy at_ms
                     max_response_bytes plan) (\<lambda>preflight.
     case preflight of
       OutOfFuel \<Rightarrow> return_op OutOfFuel
     | Panicked msg \<Rightarrow> return_op (Panicked msg)
     | Done prepared \<Rightarrow>
         and_then (apply_expired_delivery_plan cdc ho consumer cs plan) (\<lambda>cs1.
         and_then (reads se_delivery) (\<lambda>ds1.
         and_then (lift_res (member_delivery consumer member ds1)) (\<lambda>held.
         case held of
           Some d \<Rightarrow>
             and_then (on_log (read_message stream (if_offset d))) (\<lambda>m0.
             let m = with_delivery (if_delivery_token d) (if_delivery_attempt d) m0
             in and_then (lift_res (check_response limit consumer response_member m)) (\<lambda>_.
                return_op (Done (PollMessage m))))
         | None \<Rightarrow>
             and_then (poll_search cdc ho stream consumer legacy at_ms cs1) (\<lambda>choice.
             case choice of
               OutOfFuel \<Rightarrow> return_op OutOfFuel
             | Panicked msg \<Rightarrow> return_op (Panicked msg)
             | Done c \<Rightarrow> poll_finish cdc ho stream consumer member response_member limit prepared c)))))))))))"

definition poll_group_inner ::
  "codec \<Rightarrow> hash_orders \<Rightarrow> string \<Rightarrow> string \<Rightarrow> string \<Rightarrow> string option \<Rightarrow> nat option \<Rightarrow>
   (broker, broker_error, poll_result run) op" where
  "poll_group_inner cdc ho stream consumer member response_member limit =
     and_then (lift_res (validate_name ''stream'' stream)) (\<lambda>_.
     and_then (lift_res (validate_name ''consumer'' consumer)) (\<lambda>_.
     and_then (lift_res (validate_name ''member'' member)) (\<lambda>_.
     and_then (lift_res (case limit of None \<Rightarrow> Inr () | Some max_response_bytes \<Rightarrow>
       validate_poll_response_limit max_response_bytes)) (\<lambda>_.
     lock_stream stream consumer (poll_locked cdc ho stream consumer member response_member limit)))))"

definition poll_group :: "codec \<Rightarrow> hash_orders \<Rightarrow> string \<Rightarrow> string \<Rightarrow> string \<Rightarrow> (broker, broker_error, poll_result run) op" where
  "poll_group cdc ho stream consumer member = poll_group_inner cdc ho stream consumer member (Some member) None"

definition poll :: "codec \<Rightarrow> hash_orders \<Rightarrow> string \<Rightarrow> string \<Rightarrow> (broker, broker_error, poll_result run) op" where
  "poll cdc ho stream consumer = poll_group cdc ho stream consumer consumer"

definition poll_with_response_limit ::
  "codec \<Rightarrow> hash_orders \<Rightarrow> string \<Rightarrow> string \<Rightarrow> nat \<Rightarrow> (broker, broker_error, poll_result run) op" where
  "poll_with_response_limit cdc ho stream consumer max_response_bytes =
     poll_group_inner cdc ho stream consumer consumer None (Some max_response_bytes)"

definition poll_group_with_response_limit ::
  "codec \<Rightarrow> hash_orders \<Rightarrow> string \<Rightarrow> string \<Rightarrow> string \<Rightarrow> nat \<Rightarrow> (broker, broker_error, poll_result run) op" where
  "poll_group_with_response_limit cdc ho stream consumer member max_response_bytes =
     poll_group_inner cdc ho stream consumer member (Some member) (Some max_response_bytes)"

end
