(* ===== verification/Broker_Batches.thy ===== *)
theory Broker_Batches
  imports Broker_Requests
begin

text \<open>
  The broker (\<open>crates/runnel-core/src/broker.rs\<close>), third part: acknowledgements, one and many, and
  the batch poll, whose waiting loop runs one step each time it is woken.
\<close>

section \<open>Acknowledgement\<close>

definition names_set :: "string \<Rightarrow> string \<Rightarrow> consumer_state \<Rightarrow> consumer_state" where
  "names_set stream consumer cs = cs\<lparr>cs_stream := stream, cs_consumer := consumer\<rparr>"

text \<open>An offset that is not in flight: an orphaned attempt gets its retry schedule, then the request fails.\<close>

definition ack_missing ::
  "codec \<Rightarrow> hash_orders \<Rightarrow> string \<Rightarrow> string \<Rightarrow> consumer_state \<Rightarrow> consumer_policy \<Rightarrow> offset \<Rightarrow> string \<Rightarrow>
   (session, broker_error, ack_result) op" where
  "ack_missing cdc ho stream consumer cs legacy off token =
     and_then (if off |\<in>| fmdom (delivery_attempts cs)
               then schedule_orphan_retry cdc ho stream consumer cs legacy off
               else return_op (False, cs)) (\<lambda>_.
     throw (if token \<noteq> [] then StaleDelivery consumer off else AckNotInFlight consumer off))"

text \<open>An offset in flight: the lease has to be the one the request presents.\<close>

definition ack_lease ::
  "codec \<Rightarrow> hash_orders \<Rightarrow> string \<Rightarrow> string \<Rightarrow> string \<Rightarrow> consumer_state \<Rightarrow> offset \<Rightarrow> string \<Rightarrow> in_flight \<Rightarrow>
   (session, broker_error, ack_result) op" where
  "ack_lease cdc ho stream consumer member cs off token d =
     (if if_member d \<noteq> member \<or>
         ((if_requires_receipt d \<or> token \<noteq> []) \<and> if_delivery_token d \<noteq> token)
      then throw (StaleDelivery consumer off)
      else and_then (persist_event cdc stream consumer cs (Acknowledge off)) (\<lambda>_.
           and_then (change_delivery (remove_delivery consumer off)) (\<lambda>_.
           and_then (cache_state ho consumer (names_set stream consumer (acknowledge off cs))) (\<lambda>_.
           and_then notify_waiters (\<lambda>_.
           return_op Acknowledged)))))"

definition ack_locked ::
  "codec \<Rightarrow> hash_orders \<Rightarrow> string \<Rightarrow> string \<Rightarrow> string \<Rightarrow> offset \<Rightarrow> string \<Rightarrow> (session, broker_error, ack_result) op" where
  "ack_locked cdc ho stream consumer member off token =
     and_then (load_for_request cdc ho stream consumer) (\<lambda>cs0.
     and_then (reads (\<lambda>se. legacy_policy (se_broker se))) (\<lambda>legacy.
     and_then (on_broker instant_now) (\<lambda>now.
     and_then (observe_expired_deliveries cdc ho consumer cs0 legacy now) (\<lambda>cs.
     if off < committed_offset cs then return_op AlreadyAcknowledged
     else if off |\<in>| acknowledged_offsets cs then return_op AlreadyAcknowledged
     else and_then (reads (\<lambda>se. get_in_flight consumer off (se_delivery se))) (\<lambda>found.
          case found of
            None \<Rightarrow> ack_missing cdc ho stream consumer cs legacy off token
          | Some d \<Rightarrow> ack_lease cdc ho stream consumer member cs off token d)))))"

definition ack_group ::
  "codec \<Rightarrow> hash_orders \<Rightarrow> string \<Rightarrow> string \<Rightarrow> string \<Rightarrow> offset \<Rightarrow> string \<Rightarrow> (broker, broker_error, ack_result) op" where
  "ack_group cdc ho stream consumer member off token =
     and_then (lift_res (validate_name ''stream'' stream)) (\<lambda>_.
     and_then (lift_res (validate_name ''consumer'' consumer)) (\<lambda>_.
     and_then (lift_res (validate_name ''member'' member)) (\<lambda>_.
     lock_stream stream consumer (ack_locked cdc ho stream consumer member off token))))"

definition ack :: "codec \<Rightarrow> hash_orders \<Rightarrow> string \<Rightarrow> string \<Rightarrow> offset \<Rightarrow> (broker, broker_error, ack_result) op" where
  "ack cdc ho stream consumer off = ack_group cdc ho stream consumer consumer off []"

text \<open>The outcome of one receipt.\<close>

definition receipt_outcome ::
  "string \<Rightarrow> string \<Rightarrow> consumer_state \<Rightarrow> delivery_state \<Rightarrow> delivery_receipt \<Rightarrow> ack_batch_outcome" where
  "receipt_outcome consumer member cs ds r =
     (let off = receipt_offset r
      in if off < committed_offset cs \<or> off |\<in>| acknowledged_offsets cs then AlreadyConfirmed
         else if receipt_token r = [] then Rejected StaleReceipt
         else case get_in_flight consumer off ds of
                Some d \<Rightarrow>
                  if if_member d \<noteq> member \<or> if_delivery_token d \<noteq> receipt_token r
                  then Rejected StaleReceipt else Confirmed
              | None \<Rightarrow>
                  if off |\<in>| fmdom (delivery_attempts cs) then Rejected StaleReceipt else Rejected NotInFlight)"

primrec ack_receipts ::
  "codec \<Rightarrow> hash_orders \<Rightarrow> string \<Rightarrow> string \<Rightarrow> string \<Rightarrow> consumer_policy \<Rightarrow> delivery_receipt list \<Rightarrow>
   consumer_state \<Rightarrow> (session, broker_error, ack_batch_item list \<times> consumer_state) op" where
  "ack_receipts cdc ho stream consumer member legacy [] cs = return_op ([], cs)"
| "ack_receipts cdc ho stream consumer member legacy (r # rs) cs =
     and_then (reads se_delivery) (\<lambda>ds.
     and_then (if receipt_offset r |\<in>| fmdom (delivery_attempts cs) \<and>
                  get_in_flight consumer (receipt_offset r) ds = None
               then schedule_orphan_retry cdc ho stream consumer cs legacy (receipt_offset r)
               else return_op (False, cs)) (\<lambda>(_, cs1).
     and_then (reads (\<lambda>se. receipt_outcome consumer member cs1 (se_delivery se) r)) (\<lambda>outcome.
     and_then (ack_receipts cdc ho stream consumer member legacy rs cs1) (\<lambda>(items, cs2).
     return_op (\<lparr>item_offset = receipt_offset r, item_outcome = outcome\<rparr> # items, cs2)))))"

definition confirmed_offsets :: "ack_batch_item list \<Rightarrow> offset list" where
  "confirmed_offsets items = map item_offset (filter (\<lambda>i. item_outcome i = Confirmed) items)"

text \<open>The confirmed offsets of a batch are settled by one event.\<close>

definition ack_confirmed ::
  "codec \<Rightarrow> hash_orders \<Rightarrow> string \<Rightarrow> string \<Rightarrow> ack_batch_item list \<Rightarrow> consumer_state \<Rightarrow>
   (session, broker_error, ack_batch_item list) op" where
  "ack_confirmed cdc ho stream consumer items cs =
     (let valid_offsets = confirmed_offsets items
      in if valid_offsets = [] then return_op items
         else and_then (persist_event cdc stream consumer cs (AcknowledgeBatch valid_offsets)) (\<lambda>_.
              and_then (change_delivery (fold (remove_delivery consumer) valid_offsets)) (\<lambda>_.
              and_then (cache_state ho consumer (names_set stream consumer (fold acknowledge valid_offsets cs))) (\<lambda>_.
              and_then notify_waiters (\<lambda>_.
              return_op items)))))"

definition ack_batch_locked ::
  "codec \<Rightarrow> hash_orders \<Rightarrow> string \<Rightarrow> string \<Rightarrow> string \<Rightarrow> delivery_receipt list \<Rightarrow>
   (session, broker_error, ack_batch_item list) op" where
  "ack_batch_locked cdc ho stream consumer member receipts =
     and_then (load_for_request cdc ho stream consumer) (\<lambda>cs0.
     and_then (reads (\<lambda>se. legacy_policy (se_broker se))) (\<lambda>legacy.
     and_then (on_broker instant_now) (\<lambda>now.
     and_then (observe_expired_deliveries cdc ho consumer cs0 legacy now) (\<lambda>cs1.
     and_then (ack_receipts cdc ho stream consumer member legacy receipts cs1) (\<lambda>(items, cs).
     ack_confirmed cdc ho stream consumer items cs)))))"

definition ack_batch ::
  "codec \<Rightarrow> hash_orders \<Rightarrow> string \<Rightarrow> string \<Rightarrow> string \<Rightarrow> delivery_receipt list \<Rightarrow>
   (broker, broker_error, ack_batch_item list) op" where
  "ack_batch cdc ho stream consumer member receipts =
     and_then (lift_res (validate_name ''stream'' stream)) (\<lambda>_.
     and_then (lift_res (validate_name ''consumer'' consumer)) (\<lambda>_.
     and_then (lift_res (validate_name ''member'' member)) (\<lambda>_.
     and_then (lift_res (validate_ack_batch_receipts receipts)) (\<lambda>_.
     lock_stream stream consumer (ack_batch_locked cdc ho stream consumer member receipts)))))"

section \<open>Batch polls\<close>

datatype poll_batch_step_result =
    Complete "message list"
  | WaitingFor "instant option"

record pending_delivery =
  pd_message :: message
  pd_key :: "string option"
  pd_attempt :: nat
  pd_policy :: consumer_policy

text \<open>The deliveries the member already holds, sized as they are read.\<close>

primrec existing_messages ::
  "string \<Rightarrow> nat \<Rightarrow> in_flight list \<Rightarrow> poll_batch_response_sizer \<Rightarrow> (session, broker_error, message list) op" where
  "existing_messages stream limit [] z = return_op []"
| "existing_messages stream limit (d # ds) z =
     and_then (on_log (read_message stream (if_offset d))) (\<lambda>m0.
     let m = with_delivery (if_delivery_token d) (if_delivery_attempt d) m0; z1 = sizer_push z m
     in if sz_encoded_len z1 > limit
        then throw (InvalidBatchRequest
          ''the active delivery set exceeds max_bytes; retry with the original or a larger limit'')
        else and_then (existing_messages stream limit ds z1) (\<lambda>ms. return_op (m # ms)))"

record collected =
  co_state :: consumer_state
  co_pending :: "pending_delivery list"
  co_sizer :: poll_batch_response_sizer
  co_stopped :: bool

definition batch_token :: "string \<Rightarrow> offset \<Rightarrow> string" where
  "batch_token seed off = seed @ ''-'' @ hex_string off"

type_synonym collector =
  "offset fset \<Rightarrow> string fset \<Rightarrow> pending_delivery list \<Rightarrow> poll_batch_response_sizer \<Rightarrow> consumer_state \<Rightarrow>
   (session, broker_error, collected run) op"

text \<open>
  One round of the loop, for a candidate: an orphaned attempt is delayed, a record whose attempts are
  used up is moved to the dead-letter stream, any other record joins the batch if it fits. \<open>continue\<close>
  is the loop.
\<close>

definition collect_record ::
  "string \<Rightarrow> consume_batch_limits \<Rightarrow> string \<Rightarrow> collector \<Rightarrow> record_index \<Rightarrow> nat \<Rightarrow> consumer_policy \<Rightarrow> collector" where
  "collect_record stream limits seed continue candidate attempts policy extra_offsets extra_keys pending z cs =
     and_then (on_log (read_message stream (ri_offset candidate))) (\<lambda>m0.
     let off = ri_offset candidate; attempt = saturating_add32 attempts 1;
         m = with_delivery (batch_token seed off) attempt m0
     in if projected_len z m > max_bytes limits
        then (if pending = [] then throw (ConsumeBatchRecordTooLarge (max_bytes limits))
              else return_op (Done \<lparr>co_state = cs, co_pending = pending, co_sizer = z, co_stopped = True\<rparr>))
        else continue (finsert off extra_offsets) (insert_key (m_key m) extra_keys)
               (pending @ [\<lparr>pd_message = m, pd_key = ri_key candidate, pd_attempt = attempt, pd_policy = policy\<rparr>])
               (sizer_push z m) cs)"

definition collect_due ::
  "codec \<Rightarrow> hash_orders \<Rightarrow> string \<Rightarrow> string \<Rightarrow> consume_batch_limits \<Rightarrow> string \<Rightarrow> collector \<Rightarrow> record_index \<Rightarrow> nat \<Rightarrow>
   consumer_policy \<Rightarrow> collector" where
  "collect_due cdc ho stream consumer limits seed continue candidate attempts policy extra_offsets extra_keys pending z cs =
     and_then (if exhausted policy attempts then stream_is_dead_letter stream else return_op True) (\<lambda>dead_letter.
     if \<not> dead_letter
     then and_then (persist_dead_letter cdc ho stream consumer cs candidate) (\<lambda>cs2.
          continue extra_offsets extra_keys pending z cs2)
     else collect_record stream limits seed continue candidate attempts policy extra_offsets extra_keys pending z cs)"

definition collect_candidate ::
  "codec \<Rightarrow> hash_orders \<Rightarrow> string \<Rightarrow> string \<Rightarrow> consumer_policy \<Rightarrow> consume_batch_limits \<Rightarrow> string \<Rightarrow> collector \<Rightarrow>
   record_index \<Rightarrow> collector" where
  "collect_candidate cdc ho stream consumer legacy limits seed continue candidate extra_offsets extra_keys pending z cs =
     (let off = ri_offset candidate; attempts = attempts_of cs off
      in and_then (lift_res (policy_for_offset off legacy cs)) (\<lambda>policy.
         and_then (delay_orphan cdc ho stream consumer cs legacy off) (\<lambda>(delayed, cs1).
         if delayed
         then continue (if off |\<in>| fmdom (retry_not_before cs1) then finsert off extra_offsets else extra_offsets)
                (insert_key (schedule_key cs1 off) extra_keys) pending z cs1
         else collect_due cdc ho stream consumer limits seed continue candidate attempts policy
                extra_offsets extra_keys pending z cs1)))"

primrec collect_loop ::
  "codec \<Rightarrow> hash_orders \<Rightarrow> string \<Rightarrow> string \<Rightarrow> consumer_policy \<Rightarrow> consume_batch_limits \<Rightarrow> string \<Rightarrow> nat \<Rightarrow> collector" where
  "collect_loop cdc ho stream consumer legacy limits seed 0 =
     (\<lambda>extra_offsets extra_keys pending z cs. return_op OutOfFuel)"
| "collect_loop cdc ho stream consumer legacy limits seed (Suc fuel) =
     (\<lambda>extra_offsets extra_keys pending z cs.
      if \<not> (length pending < max_records limits \<and> sz_encoded_len z < max_bytes limits)
      then return_op (Done \<lparr>co_state = cs, co_pending = pending, co_sizer = z, co_stopped = False\<rparr>)
      else and_then (find_candidate_excluding consumer (committed_offset cs) (acknowledged_offsets cs)
             extra_offsets extra_keys) (\<lambda>found.
      case found of
        None \<Rightarrow> return_op (Done \<lparr>co_state = cs, co_pending = pending, co_sizer = z, co_stopped = False\<rparr>)
      | Some candidate \<Rightarrow>
          collect_candidate cdc ho stream consumer legacy limits seed
            (collect_loop cdc ho stream consumer legacy limits seed fuel) candidate extra_offsets extra_keys pending z cs))"

definition assignment_of :: "pending_delivery \<Rightarrow> delivery_attempt" where
  "assignment_of p = \<lparr>da_offset = m_offset (pd_message p), da_attempt = pd_attempt p, da_policy = pd_policy p\<rparr>"

definition assign_pending :: "pending_delivery \<Rightarrow> consumer_state \<Rightarrow> consumer_state" where
  "assign_pending p cs = assign_attempt (m_offset (pd_message p)) (pd_attempt p) (pd_policy p) cs"

text \<open>The token was set when the message was read, so the \<open>expect\<close> on it cannot fail.\<close>

definition insert_pending :: "string \<Rightarrow> string \<Rightarrow> pending_delivery \<Rightarrow> (session, broker_error, unit) op" where
  "insert_pending consumer member p =
     and_then (on_broker instant_now) (\<lambda>now.
     and_then (change_delivery (insert_in_flight consumer
       \<lparr>if_member = member, if_offset = m_offset (pd_message p), if_key = pd_key p,
        if_delivery_attempt = pd_attempt p, if_delivery_token = the (m_delivery_token (pd_message p)),
        if_requires_receipt = True, if_deadline = now + from_millis (cp_ack_timeout_ms (pd_policy p))\<rparr>)) (\<lambda>_.
     if pd_attempt p > 1 then on_broker (modify count_redelivery) else return_op ()))"

definition deliver_batch ::
  "codec \<Rightarrow> hash_orders \<Rightarrow> string \<Rightarrow> string \<Rightarrow> string \<Rightarrow> consumer_state \<Rightarrow> pending_delivery list \<Rightarrow>
   (session, broker_error, message list) op" where
  "deliver_batch cdc ho stream consumer member cs pending =
     and_then (persist_event cdc stream consumer cs (DeliveryAttempts (map assignment_of pending))) (\<lambda>_.
     and_then (each (insert_pending consumer member) pending) (\<lambda>_.
     and_then (cache_state ho consumer (names_set stream consumer (fold assign_pending pending cs))) (\<lambda>_.
     and_then notify_waiters (\<lambda>_.
     return_op (map pd_message pending)))))"

record batch_request =
  bq_member :: string
  bq_response_member :: "string option"
  bq_limits :: consume_batch_limits
  bq_deadline :: "instant option"
  bq_token_seed :: string

definition batch_finish ::
  "codec \<Rightarrow> hash_orders \<Rightarrow> string \<Rightarrow> string \<Rightarrow> batch_request \<Rightarrow> bool \<Rightarrow> nat \<Rightarrow> collected \<Rightarrow>
   (session, broker_error, poll_batch_step_result) op" where
  "batch_finish cdc ho stream consumer req is_waiting at_ms c =
     and_then (on_broker instant_now) (\<lambda>now.
     let limits = bq_limits req;
       deadline_reached = (case bq_deadline req of None \<Rightarrow> False | Some deadline \<Rightarrow> now \<ge> deadline);
       record_limit_reached = length (co_pending c) = max_records limits;
       byte_limit_reached = co_stopped c \<or> sz_encoded_len (co_sizer c) \<ge> max_bytes limits
     in if is_waiting \<and> \<not> deadline_reached \<and> \<not> record_limit_reached \<and> \<not> byte_limit_reached
        then and_then (next_consumer_wake consumer (co_state c) at_ms) (\<lambda>wake. return_op (WaitingFor wake))
        else if co_pending c = [] then return_op (Complete [])
        else and_then (deliver_batch cdc ho stream consumer (bq_member req) (co_state c) (co_pending c)) (\<lambda>ms.
             return_op (Complete ms)))"

text \<open>The member holds deliveries: they are the answer.\<close>

definition batch_existing ::
  "string \<Rightarrow> consume_batch_limits \<Rightarrow> in_flight list \<Rightarrow> poll_batch_response_sizer \<Rightarrow>
   (session, broker_error, poll_batch_step_result run) op" where
  "batch_existing stream limits existing z =
     (if length existing > max_records limits
      then throw (InvalidBatchRequest
        ''the active delivery set exceeds max_records; retry with the original or a larger limit'')
      else and_then (existing_messages stream (max_bytes limits) existing z) (\<lambda>ms.
           return_op (Done (Complete ms))))"

text \<open>The member holds none: records are collected, from the schedules that are not due yet.\<close>

definition batch_collect ::
  "codec \<Rightarrow> hash_orders \<Rightarrow> string \<Rightarrow> string \<Rightarrow> consumer_policy \<Rightarrow> batch_request \<Rightarrow> bool \<Rightarrow> nat \<Rightarrow>
   poll_batch_response_sizer \<Rightarrow> consumer_state \<Rightarrow> (session, broker_error, poll_batch_step_result run) op" where
  "batch_collect cdc ho stream consumer legacy req is_waiting at_ms z cs =
     (case retry_filter at_ms cs of (extra_offsets, extra_keys) \<Rightarrow>
      and_then (reads (\<lambda>se. Suc (sl_next_offset (se_log se)))) (\<lambda>fuel.
      and_then (collect_loop cdc ho stream consumer legacy (bq_limits req) (bq_token_seed req) fuel
        extra_offsets extra_keys [] z cs) (\<lambda>choice.
      case choice of
        OutOfFuel \<Rightarrow> return_op OutOfFuel
      | Panicked msg \<Rightarrow> return_op (Panicked msg)
      | Done c \<Rightarrow>
          and_then (batch_finish cdc ho stream consumer req is_waiting at_ms c) (\<lambda>r.
          return_op (Done r)))))"

definition batch_step_locked ::
  "codec \<Rightarrow> hash_orders \<Rightarrow> string \<Rightarrow> string \<Rightarrow> batch_request \<Rightarrow> (session, broker_error, poll_batch_step_result run) op" where
  "batch_step_locked cdc ho stream consumer req =
     and_then (on_broker instant_now) (\<lambda>now.
     and_then (reads (\<lambda>se. legacy_policy (se_broker se))) (\<lambda>legacy.
     and_then (load_for_request cdc ho stream consumer) (\<lambda>cs0.
     and_then (on_broker wall_clock_ms) (\<lambda>at_ms.
     and_then (observe_expired_deliveries cdc ho consumer cs0 legacy now) (\<lambda>cs.
     and_then (reads se_delivery) (\<lambda>ds.
     and_then (lift_res (member_deliveries consumer (bq_member req) ds)) (\<lambda>existing.
     let limits = bq_limits req; z = sizer_new stream consumer (bq_response_member req)
     in if existing \<noteq> [] then batch_existing stream limits existing z
        else batch_collect cdc ho stream consumer legacy req
               (max_wait_ms limits > 0 \<and> (case bq_deadline req of None \<Rightarrow> True | Some deadline \<Rightarrow> now < deadline)) at_ms z cs)))))))"

definition poll_batch_step ::
  "codec \<Rightarrow> hash_orders \<Rightarrow> string \<Rightarrow> string \<Rightarrow> batch_request \<Rightarrow> (broker, broker_error, poll_batch_step_result run) op" where
  "poll_batch_step cdc ho stream consumer req = lock_stream stream consumer (batch_step_locked cdc ho stream consumer req)"

text \<open>
  The waiting poll: its validation, its deadline and its token seed, then one step each time it is
  woken. What the other requests do to the broker while it waits is the list \<open>meanwhile\<close>; where the
  list ends the poll is still waiting, and the result is the instant its timer wakes it,
  if it has one.
\<close>

definition check_batch_request ::
  "string \<Rightarrow> string \<Rightarrow> string \<Rightarrow> string option \<Rightarrow> consume_batch_limits \<Rightarrow> broker_error + unit" where
  "check_batch_request stream consumer member response_member limits =
     (case validate_name ''stream'' stream of Inl e \<Rightarrow> Inl e | Inr _ \<Rightarrow>
      case validate_name ''consumer'' consumer of Inl e \<Rightarrow> Inl e | Inr _ \<Rightarrow>
      case validate_name ''member'' member of Inl e \<Rightarrow> Inl e | Inr _ \<Rightarrow>
      case validate_consume_batch_limits limits of Inl e \<Rightarrow> Inl e | Inr _ \<Rightarrow>
      if poll_batch_response_len stream consumer response_member [] > max_bytes limits
      then Inl (InvalidBatchRequest ''max_bytes is too small for an empty consume-batch response'')
      else Inr ())"

datatype batch_wait_result = Returned "message list" | StillWaiting "instant option"

primrec batch_wait_loop ::
  "codec \<Rightarrow> hash_orders \<Rightarrow> string \<Rightarrow> string \<Rightarrow> batch_request \<Rightarrow> (broker \<Rightarrow> broker) list \<Rightarrow> instant option \<Rightarrow>
   (broker, broker_error, batch_wait_result run) op" where
  "batch_wait_loop cdc ho stream consumer req [] wake_at = return_op (Done (StillWaiting wake_at))"
| "batch_wait_loop cdc ho stream consumer req (others # meanwhile) wake_at =
     and_then (modify others) (\<lambda>_.
     and_then (poll_batch_step cdc ho stream consumer req) (\<lambda>step.
     case step of
       OutOfFuel \<Rightarrow> return_op OutOfFuel
     | Panicked msg \<Rightarrow> return_op (Panicked msg)
     | Done (Complete ms) \<Rightarrow> return_op (Done (Returned ms))
     | Done (WaitingFor next_expiry) \<Rightarrow>
         batch_wait_loop cdc ho stream consumer req meanwhile
           (case (bq_deadline req, next_expiry) of
              (Some deadline, Some expiry) \<Rightarrow> Some (min deadline expiry)
            | (Some deadline, None) \<Rightarrow> Some deadline
            | (None, expiry) \<Rightarrow> expiry)))"

text \<open>\<open>Instant::checked_add\<close>: an instant is a signed 64-bit number of seconds and the nanoseconds.\<close>

definition instant_checked_add :: "instant \<Rightarrow> nat \<Rightarrow> instant option" where
  "instant_checked_add t d = (if (t + d) div 1000000000 < 2 ^ 63 then Some (t + d) else None)"

definition poll_batch_wait ::
  "codec \<Rightarrow> hash_orders \<Rightarrow> string \<Rightarrow> string \<Rightarrow> string \<Rightarrow> string option \<Rightarrow> consume_batch_limits \<Rightarrow>
   (broker \<Rightarrow> broker) list \<Rightarrow> (broker, broker_error, batch_wait_result run) op" where
  "poll_batch_wait cdc ho stream consumer member response_member limits meanwhile =
     and_then (lift_res (check_batch_request stream consumer member response_member limits)) (\<lambda>_.
     and_then (on_stream stream (return_op ())) (\<lambda>_.
     and_then instant_now (\<lambda>start.
     case instant_checked_add start (from_millis (max_wait_ms limits)) of
       None \<Rightarrow> throw (InvalidBatchRequest ''max_wait_ms is too large'')
     | Some deadline \<Rightarrow>
         and_then take_token (\<lambda>seed.
         let req = \<lparr>bq_member = member, bq_response_member = response_member, bq_limits = limits,
                    bq_deadline = Some deadline, bq_token_seed = seed\<rparr>
         in batch_wait_loop cdc ho stream consumer req (id # meanwhile) (Some deadline)))))"

end
