(* ===== verification/Broker_Sessions.thy ===== *)
theory Broker_Sessions
  imports Broker_Batches
begin

text \<open>
  The invariant of a request. While a request runs, the state it holds in its local variable is the
  state the consumer's files store; between an event and the next access to the cache the two may
  differ from the cached one, and after a failed write the consumer is marked for reconciliation.
  Three assertions on sessions say so, and every step of the broker is verified against them once,
  for every I/O fault, every clock and every codec that satisfies its contract.
\<close>

section \<open>A request's updates are the events it persists\<close>

definition attempts_u32 :: "consumer_state \<Rightarrow> bool" where
  "attempts_u32 s \<longleftrightarrow> (\<forall>off n. fmlookup (delivery_attempts s) off = Some n \<longrightarrow> n \<le> u32_max)"

lemma saturating_max:
  "n \<le> u32_max \<Longrightarrow> max n (saturating_add32 n 1) = saturating_add32 n 1"
  by (auto simp: saturating_add32_def)

lemma assign_attempt_event:
  assumes "attempts_u32 s" "\<not> settled s off" "attempt = saturating_add32 (attempts_of s off) 1"
  shows "record_attempt \<lparr>da_offset = off, da_attempt = attempt, da_policy = policy\<rparr> s = assign_attempt off attempt policy s"
proof -
  have "(case fmlookup (delivery_attempts s) off of None \<Rightarrow> attempt | Some current \<Rightarrow> max current attempt) = attempt"
    using assms saturating_max by (auto simp: attempts_u32_def attempts_of_def split: option.split)
  with assms(2) show ?thesis
    by (cases "fmlookup (delivery_attempts s) off")
      (simp_all add: record_attempt_def assign_attempt_def settled_def not_less)
qed

lemma insert_schedules_event:
  assumes "cs_wf s" "\<And>r. r \<in> set rs \<Longrightarrow> rse_offset r |\<in>| fmdom (delivery_attempts s)"
  shows "fold record_retry rs s = insert_schedules rs s"
  using assms
proof (induction rs arbitrary: s)
  case Nil
  then show ?case by (simp add: insert_schedules_def)
next
  case (Cons r rs)
  have d: "rse_offset r |\<in>| fmdom (delivery_attempts s)" by (rule Cons.prems) simp
  with Cons.prems(1) have "\<not> settled s (rse_offset r)" by (auto simp: cs_wf_def)
  with d have r: "record_retry r s = s\<lparr>retry_not_before := or_insert (rse_offset r) (schedule_of r) (retry_not_before s)\<rparr>"
    by (auto simp: record_retry_def settled_def schedule_of_def)
  have "fold record_retry rs (record_retry r s) = insert_schedules rs (record_retry r s)"
    using Cons.prems by (intro Cons.IH cs_wf_record_retry) auto
  then show ?case by (simp add: r insert_schedules_def)
qed

lemma insert_schedule_event:
  assumes "cs_wf s" "rse_offset r |\<in>| fmdom (delivery_attempts s)" "rse_offset r |\<notin>| fmdom (retry_not_before s)"
  shows "record_retry r s = s\<lparr>retry_not_before := fmupd (rse_offset r) (schedule_of r) (retry_not_before s)\<rparr>"
proof -
  have "fold record_retry [r] s = insert_schedules [r] s"
    by (rule insert_schedules_event [OF assms(1)]) (use assms(2) in auto)
  with assms(3) show ?thesis
    by (simp add: insert_schedules_def or_insert_def fmdom_notD)
qed

lemma insert_schedules_sel [simp]:
  "cs_stream (insert_schedules rs s) = cs_stream s" "cs_consumer (insert_schedules rs s) = cs_consumer s"
  "committed_offset (insert_schedules rs s) = committed_offset s"
  "acknowledged_offsets (insert_schedules rs s) = acknowledged_offsets s"
  "delivery_attempts (insert_schedules rs s) = delivery_attempts s" "cs_policy (insert_schedules rs s) = cs_policy s"
  "delivery_policies (insert_schedules rs s) = delivery_policies s"
  by (simp_all add: insert_schedules_def)

section \<open>Assertions on sessions\<close>

text \<open>What the requests of one consumer leave of the others: their deliveries and marks, and their
  cached states unless evicted.\<close>

definition others_kept :: "string \<Rightarrow> delivery_state \<Rightarrow> delivery_state \<Rightarrow> bool" where
  "others_kept consumer ds0 ds \<longleftrightarrow>
     (\<forall>c. c \<noteq> consumer \<longrightarrow>
        (\<forall>off. get_in_flight c off ds = get_in_flight c off ds0) \<and>
        (\<forall>s. fmlookup (consumer_states ds) c = Some s \<longrightarrow> fmlookup (consumer_states ds0) c = Some s) \<and>
        (c |\<in>| consumers_needing_reconcile ds \<longleftrightarrow> c |\<in>| consumers_needing_reconcile ds0))"

lemma others_kept_refl [simp]: "others_kept consumer ds ds"
  by (simp add: others_kept_def)

lemma others_kept_ops:
  "others_kept consumer ds0 ds \<Longrightarrow> others_kept consumer ds0 (remove_delivery consumer off ds)"
  "others_kept consumer ds0 ds \<Longrightarrow> others_kept consumer ds0 (insert_in_flight consumer d ds)"
  "others_kept consumer ds0 ds \<Longrightarrow> others_kept consumer ds0 (cache_consumer_state order consumer s ds)"
  "others_kept consumer ds0 ds \<Longrightarrow> others_kept consumer ds0 (mark_consumer_needs_reconcile consumer ds)"
proof -
  assume k: "others_kept consumer ds0 ds"
  show "others_kept consumer ds0 (remove_delivery consumer off ds)"
    "others_kept consumer ds0 (insert_in_flight consumer d ds)"
    using k by (auto simp: others_kept_def get_in_flight_remove get_in_flight_insert)
  show "others_kept consumer ds0 (mark_consumer_needs_reconcile consumer ds)"
    using k by (auto simp: others_kept_def) (auto simp: mark_consumer_needs_reconcile_def)
  have "fmlookup (consumer_states ds) c = Some t"
    if "c \<noteq> consumer" "fmlookup (consumer_states (cache_consumer_state order consumer s ds)) c = Some t" for c t
    using cache_lookup [OF that(2)] that(1) by simp
  with k show "others_kept consumer ds0 (cache_consumer_state order consumer s ds)"
    unfolding others_kept_def by simp
qed

lemma others_kept_removes:
  "others_kept consumer ds0 ds \<Longrightarrow> others_kept consumer ds0 (fold (remove_delivery consumer) offs ds)"
  by (induction offs arbitrary: ds) (auto intro: others_kept_ops)

lemma others_kept_reconciled:
  "others_kept consumer ds0 ds \<Longrightarrow> others_kept consumer ds0 (reconciled ho consumer s ds)"
proof -
  assume k: "others_kept consumer ds0 ds"
  let ?d = "(fold (remove_delivery consumer) (stale_offsets ho consumer s ds) ds)
      \<lparr>consumers_needing_reconcile := consumers_needing_reconcile ds |-| {|consumer|}\<rparr>"
  from others_kept_removes [OF k] k have "others_kept consumer ds0 ?d"
    by (auto simp: others_kept_def)
  then show ?thesis unfolding reconciled_def by (rule others_kept_ops)
qed

text \<open>
  \<open>durable\<close>: the files store \<open>t\<close>, and the deliveries in flight lie in \<open>A\<close>. \<open>live\<close>: so does the
  cache where it holds the consumer, and every delivery in flight is an attempt the state knows.
  \<open>resting\<close>: what holds between requests, also after a failed one. The log is only read, the number
  of its records is \<open>n\<close>, and \<open>E\<close> is what the rest of the broker satisfies. In all three the offsets
  of \<open>K\<close> are settled.
\<close>

definition state_kept :: "offset set \<Rightarrow> consumer_state \<Rightarrow> bool" where
  "state_kept K s \<longleftrightarrow> attempts_u32 s \<and> (\<forall>off. off \<in> K \<longrightarrow> settled s off)"

definition durable ::
  "offset set \<Rightarrow> codec \<Rightarrow> string \<Rightarrow> string \<Rightarrow> stream_log \<Rightarrow> delivery_state \<Rightarrow> (broker \<Rightarrow> bool) \<Rightarrow> offset set \<Rightarrow>
   consumer_state \<Rightarrow> session \<Rightarrow> bool" where
  "durable K cdc stream consumer log0 ds0 E A t se \<longleftrightarrow>
     reading log0 (se_log se) \<and> E (se_broker se) \<and> others_kept consumer ds0 (se_delivery se) \<and>
     ds_wf (se_delivery se) \<and> consumer |\<notin>| consumers_needing_reconcile (se_delivery se) \<and>
     stored_clean cdc stream consumer t (se_store se) \<and> state_kept K t \<and>
     (\<forall>off. get_in_flight consumer off (se_delivery se) \<noteq> None \<longrightarrow> off \<in> A)"

definition known_attempts :: "nat \<Rightarrow> consumer_state \<Rightarrow> offset set" where
  "known_attempts n s = {off. off < n \<and> off |\<in>| fmdom (delivery_attempts s)}"

definition live ::
  "offset set \<Rightarrow> codec \<Rightarrow> string \<Rightarrow> string \<Rightarrow> stream_log \<Rightarrow> nat \<Rightarrow> delivery_state \<Rightarrow> (broker \<Rightarrow> bool) \<Rightarrow>
   consumer_state \<Rightarrow> session \<Rightarrow> bool" where
  "live K cdc stream consumer log0 n ds0 E s se \<longleftrightarrow>
     durable K cdc stream consumer log0 ds0 E (known_attempts n s) s se \<and>
     (\<forall>s'. fmlookup (consumer_states (se_delivery se)) consumer = Some s' \<longrightarrow> s' = s)"

definition rest_in ::
  "offset set \<Rightarrow> codec \<Rightarrow> string \<Rightarrow> string \<Rightarrow> nat \<Rightarrow> consumer_state \<Rightarrow> delivery_state \<times> consumer_store \<Rightarrow> bool" where
  "rest_in K cdc stream consumer n s w \<longleftrightarrow>
     request_ok cdc stream consumer s w \<and> state_kept K s \<and>
     (\<forall>off. get_in_flight consumer off (fst w) \<noteq> None \<longrightarrow> off < n \<and> (settled s off \<or> off |\<in>| fmdom (delivery_attempts s)))"

definition at_rest ::
  "offset set \<Rightarrow> codec \<Rightarrow> string \<Rightarrow> string \<Rightarrow> nat \<Rightarrow> delivery_state \<times> consumer_store \<Rightarrow> bool" where
  "at_rest K cdc stream consumer n w \<longleftrightarrow> (\<exists>s. rest_in K cdc stream consumer n s w)"

definition resting ::
  "offset set \<Rightarrow> codec \<Rightarrow> string \<Rightarrow> string \<Rightarrow> stream_log \<Rightarrow> nat \<Rightarrow> delivery_state \<Rightarrow> (broker \<Rightarrow> bool) \<Rightarrow> session \<Rightarrow> bool" where
  "resting K cdc stream consumer log0 n ds0 E se \<longleftrightarrow>
     reading log0 (se_log se) \<and> E (se_broker se) \<and> others_kept consumer ds0 (se_delivery se) \<and>
     at_rest K cdc stream consumer n (se_delivery se, se_store se)"

lemma live_rest_in:
  assumes "live K cdc stream consumer log0 n ds0 E s se"
  shows "rest_in K cdc stream consumer n s (se_delivery se, se_store se)"
proof -
  have st: "stored_clean cdc stream consumer s (se_store se)" and u: "state_kept K s"
    and fl: "\<And>off. get_in_flight consumer off (se_delivery se) \<noteq> None \<Longrightarrow> off < n \<and> off |\<in>| fmdom (delivery_attempts s)"
    using assms by (auto simp: live_def durable_def known_attempts_def)
  from stored_wf [OF st] have "\<not> settled s off" if "off |\<in>| fmdom (delivery_attempts s)" for off
    using that by (auto simp: cs_wf_def)
  with fl have "flights_open consumer s (se_delivery se)" by (auto simp: flights_open_def)
  with assms st have "request_ok cdc stream consumer s (se_delivery se, se_store se)"
    by (auto simp: request_ok_def consumer_view_def live_def durable_def)
  with u fl show ?thesis unfolding rest_in_def by simp
qed

lemma live_resting:
  assumes "live K cdc stream consumer log0 n ds0 E s se"
  shows "resting K cdc stream consumer log0 n ds0 E se"
  using live_rest_in [OF assms] assms unfolding resting_def at_rest_def live_def durable_def by blast

section \<open>The steps of a request\<close>

text \<open>
  What a request needs of the broker around its session: a predicate \<open>E\<close> that the clocks, the
  token generator, the counters and a dead-letter move of the stream preserve. Clock readings lie
  below the largest \<open>u64\<close>; whether the stream is itself a dead-letter stream and the broker's own
  delivery policy do not change during the request.
\<close>

locale request_env =
  fixes E :: "broker \<Rightarrow> bool" and stream :: string
    and cdc :: codec and ho :: hash_orders and consumer :: string
    and log0 :: stream_log and es :: "log_entry list" and junk :: bytes and ds0 :: delivery_state
    and dead_letter :: bool and legacy :: consumer_policy and K :: "offset set"
  assumes env_clock: "E b \<Longrightarrow> wall_clock_ms b = (r, b') \<Longrightarrow> E b' \<and> (\<exists>t < u64_max. r = Inr t)"
    and env_dead_letter: "E b \<Longrightarrow> is_dead_letter_stream (fmdom (br_streams b)) stream = dead_letter"
    and env_legacy: "E b \<Longrightarrow> legacy_policy b = legacy"
    and env_instant: "E b \<Longrightarrow> E (snd (instant_now b))"
    and env_token: "E b \<Longrightarrow> E (snd (take_token b))"
    and env_count: "E b \<Longrightarrow> E (count_redelivery b)" "E b \<Longrightarrow> E (count_dead_letter b)"
    and env_create: "E b \<Longrightarrow> dead_letter_stream_name stream = Inr target \<Longrightarrow> E (snd (get_or_create_stream target b))"
    and env_move: "E b \<Longrightarrow> dead_letter_stream_name stream = Inr target \<Longrightarrow>
      E (snd (on_stream target (on_stream_log (append_with_move_id key payload move_id)) b))"
begin

abbreviation ctx_ok :: bool where
  "ctx_ok \<equiv> codec_ok cdc \<and> hash_order_ok (ho_keys ho) \<and> log_ok es junk log0 \<and> torn_frame junk"

abbreviation rest :: "session \<Rightarrow> bool" where
  "rest \<equiv> resting K cdc stream consumer log0 (length es) ds0 E"

abbreviation alive :: "consumer_state \<Rightarrow> (delivery_state \<Rightarrow> bool) \<Rightarrow> session \<Rightarrow> bool" where
  "alive s F se \<equiv> live K cdc stream consumer log0 (length es) ds0 E s se \<and> F (se_delivery se)"

abbreviation written :: "offset set \<Rightarrow> consumer_state \<Rightarrow> (delivery_state \<Rightarrow> bool) \<Rightarrow> session \<Rightarrow> bool" where
  "written A t F se \<equiv> durable K cdc stream consumer log0 ds0 E A t se \<and> F (se_delivery se)"

lemma alive_rest: "alive s F se \<Longrightarrow> rest se"
  by (blast intro: live_resting)

lemma hoare_log:
  assumes "hoare (reading log0) m (\<lambda>y log. Q y \<and> reading log0 log) (\<lambda>_. reading log0)"
  shows "hoare (alive s F) (on_log m) (\<lambda>y se. Q y \<and> alive s F se) (\<lambda>_. rest)"
proof (rule hoareI)
  fix se y se1
  assume pre: "alive s F se"
  then have r: "reading log0 (se_log se)" by (simp add: live_def durable_def)
  have upd: "alive s F (se\<lparr>se_log := log\<rparr>)" if "reading log0 log" for log
    using pre that by (simp add: live_def durable_def)
  obtain x log where m: "m (se_log se) = (x, log)" by fastforce
  have split: "x = Inr y \<and> se1 = se\<lparr>se_log := log\<rparr>" if "on_log m se = (Inr y, se1)" for y
    using that m by (auto simp: on_log_def zoom_def)
  show "Q y \<and> alive s F se1" if "on_log m se = (Inr y, se1)"
    using split [OF that] hoareD_ok [OF assms r] m upd by auto
  show "rest se1" if "on_log m se = (Inl e, se1)" for e
  proof -
    from that m have "x = Inl e" "se1 = se\<lparr>se_log := log\<rparr>" by (auto simp: on_log_def zoom_def)
    with hoareD_err [OF assms r] m upd show ?thesis by (auto intro: alive_rest)
  qed
qed

lemma hoare_reads_log:
  "reads_log log0 m x \<Longrightarrow> hoare (alive s F) (on_log m) (\<lambda>y se. y = x \<and> alive s F se) (\<lambda>_. rest)"
  by (rule hoare_log, erule hoare_strengthen_post) auto

lemma hoare_broker:
  assumes "\<And>b r b'. E b \<Longrightarrow> m b = (r, b') \<Longrightarrow> E b' \<and> (\<exists>y. r = Inr y \<and> Q y)"
  shows "hoare (alive s F) (on_broker m) (\<lambda>y se. Q y \<and> alive s F se) R"
    and "hoare (written A s F) (on_broker m) (\<lambda>y se. Q y \<and> written A s F se) R"
proof -
  have run: "\<exists>y b'. on_broker m se = (Inr y, se\<lparr>se_broker := b'\<rparr>) \<and> E b' \<and> Q y" if "E (se_broker se)" for se
    using assms [OF that] by (cases "m (se_broker se)") (auto simp: on_broker_def zoom_def)
  show "hoare (alive s F) (on_broker m) (\<lambda>y se. Q y \<and> alive s F se) R"
    unfolding hoare_def
  proof (intro allI impI)
    fix se assume "alive s F se"
    moreover from this run [of se] obtain y b' where "on_broker m se = (Inr y, se\<lparr>se_broker := b'\<rparr>)" "E b'" "Q y"
      by (auto simp: live_def durable_def)
    ultimately show "case on_broker m se of (Inl e, t) \<Rightarrow> R e t | (Inr x, t) \<Rightarrow> Q x \<and> alive s F t"
      by (simp add: live_def durable_def)
  qed
  show "hoare (written A s F) (on_broker m) (\<lambda>y se. Q y \<and> written A s F se) R"
    unfolding hoare_def
  proof (intro allI impI)
    fix se assume "written A s F se"
    moreover from this run [of se] obtain y b' where "on_broker m se = (Inr y, se\<lparr>se_broker := b'\<rparr>)" "E b'" "Q y"
      by (auto simp: durable_def)
    ultimately show "case on_broker m se of (Inl e, t) \<Rightarrow> R e t | (Inr x, t) \<Rightarrow> Q x \<and> written A s F t"
      by (simp add: durable_def)
  qed
qed

lemma clock_step: "E b \<Longrightarrow> wall_clock_ms b = (r, b') \<Longrightarrow> E b' \<and> (\<exists>y. r = Inr y \<and> y < u64_max)"
  using env_clock by blast

lemma instant_step: "E b \<Longrightarrow> instant_now b = (r, b') \<Longrightarrow> E b' \<and> (\<exists>y. r = Inr y \<and> True)"
  using env_instant [of b] by (auto simp: instant_now_def split: list.splits)

lemma token_step: "E b \<Longrightarrow> take_token b = (r, b') \<Longrightarrow> E b' \<and> (\<exists>y. r = Inr y \<and> True)"
  using env_token [of b] by (auto simp: take_token_def split: prod.splits)

lemma count_step:
  "E b \<Longrightarrow> modify count_redelivery b = (r, b') \<Longrightarrow> E b' \<and> (\<exists>y. r = Inr y \<and> True)"
  "E b \<Longrightarrow> modify count_dead_letter b = (r, b') \<Longrightarrow> E b' \<and> (\<exists>y. r = Inr y \<and> True)"
  using env_count by (auto simp: modify_def)

lemma hoare_clock: "hoare (alive s F) (on_broker wall_clock_ms) (\<lambda>t se. t < u64_max \<and> alive s F se) R"
  by (rule hoare_broker(1)) (rule clock_step)

lemma hoare_instant:
  "hoare (alive s F) (on_broker instant_now) (\<lambda>_. alive s F) R"
  "hoare (written A s F) (on_broker instant_now) (\<lambda>_. written A s F) R"
  by (rule hoare_strengthen_post [OF hoare_broker(1)], erule (1) instant_step, simp, simp)
    (rule hoare_strengthen_post [OF hoare_broker(2)], erule (1) instant_step, simp, simp)

lemma hoare_token: "hoare (alive s F) (on_broker take_token) (\<lambda>_. alive s F) R"
  by (rule hoare_strengthen_post [OF hoare_broker(1)], erule (1) token_step, simp, simp)

lemma hoare_count:
  "hoare (written A s F) (on_broker (modify count_redelivery)) (\<lambda>_. written A s F) R"
  "hoare (alive s F) (on_broker (modify count_dead_letter)) (\<lambda>_. alive s F) R"
  by (rule hoare_strengthen_post [OF hoare_broker(2)], erule (1) count_step(1), simp, simp)
    (rule hoare_strengthen_post [OF hoare_broker(1)], erule (1) count_step(2), simp, simp)

lemma hoare_notify: "hoare (alive s F) notify_waiters (\<lambda>_. alive s F) R"
  by (simp add: hoare_def notify_waiters_def modify_def live_def durable_def)

lemma hoare_lift: "hoare (alive s F) (lift_res r) (\<lambda>x se. r = Inr x \<and> alive s F se) (\<lambda>_. rest)"
  by (cases r) (auto simp: hoare_def lift_res_def intro: alive_rest)

text \<open>Removing and inserting deliveries of the consumer, and caching the state the files store.\<close>

lemma hoare_remove:
  "hoare (written A t F) (change_delivery (fold (remove_delivery consumer) offs))
     (\<lambda>_. written (A - set offs) t (\<lambda>ds. \<exists>ds1. F ds1 \<and> ds = fold (remove_delivery consumer) offs ds1)) R"
  by (auto simp: hoare_def change_delivery_def modify_def durable_def others_kept_removes flights.inv_dels flights.lookup_dels
      split: if_splits)

lemma hoare_insert:
  assumes "\<And>ds. F ds \<Longrightarrow> insertable consumer d ds"
  shows "hoare (written A t F) (change_delivery (insert_in_flight consumer d))
     (\<lambda>_. written (insert (if_offset d) A) t (\<lambda>ds. \<exists>ds1. F ds1 \<and> ds = insert_in_flight consumer d ds1)) R"
  using assms
  by (auto simp: hoare_def change_delivery_def modify_def durable_def others_kept_ops ds_wf_insert get_in_flight_insert
      split: if_splits)

lemma hoare_cache:
  assumes "A \<subseteq> known_attempts (length es) t" "\<And>ds. F ds \<Longrightarrow> G (cache_consumer_state (ho_consumers ho) consumer t ds)"
  shows "hoare (written A t F) (cache_state ho consumer t) (\<lambda>_. alive t G) R"
proof -
  have look: "s' = t" if "fmlookup (consumer_states (cache_consumer_state order consumer t ds)) consumer = Some s'" for s' order ds
    using cache_lookup [OF that] by simp
  show ?thesis
    using assms
    by (auto simp: hoare_def cache_state_def change_delivery_def modify_def live_def durable_def others_kept_ops dest: look)
qed

text \<open>An event: after success the files store the new state, after failure the consumer is at rest
  in the old state or the new one.\<close>

lemma rest_marked:
  assumes "live K cdc stream consumer log0 (length es) ds0 E s se" "stored cdc stream consumer s' torn d" "state_kept K s'"
    and "\<And>off. off |\<in>| fmdom (delivery_attempts s) \<Longrightarrow> settled s' off \<or> off |\<in>| fmdom (delivery_attempts s')"
  shows "rest (se\<lparr>se_store := d, se_delivery := mark_consumer_needs_reconcile consumer (se_delivery se)\<rparr>)"
proof -
  let ?ds = "mark_consumer_needs_reconcile consumer (se_delivery se)"
  have "request_ok cdc stream consumer s' (?ds, d)"
    using assms(1,2) unfolding request_ok_def consumer_view_def flights_open_def live_def durable_def
    by auto (auto simp: mark_consumer_needs_reconcile_def)
  moreover have "off < length es \<and> (settled s' off \<or> off |\<in>| fmdom (delivery_attempts s'))"
    if "get_in_flight consumer off ?ds \<noteq> None" for off
    using assms(1,4) that by (auto simp: live_def durable_def known_attempts_def)
  ultimately show ?thesis
    using assms(1,3) by (auto simp: resting_def at_rest_def rest_in_def live_def durable_def others_kept_ops)
qed

lemma hoare_persist_event:
  assumes "event_bounded ev" "apply_event ev s = Inr t" "attempts_u32 t"
    and "\<And>off. off |\<in>| fmdom (delivery_attempts s) \<Longrightarrow> settled t off \<or> off |\<in>| fmdom (delivery_attempts t)"
    and "\<And>off. settled s off \<Longrightarrow> settled t off"
  shows "hoare (alive s F) (persist_event cdc stream consumer s ev)
    (\<lambda>_. written (known_attempts (length es) s) t F) (\<lambda>_. rest)"
proof (rule hoareI)
  fix se x se1
  assume pre: "alive s F se"
  then have st: "stored_clean cdc stream consumer s (se_store se)" and u: "state_kept K s"
    by (auto simp: live_def durable_def)
  with assms(3,5) have kt: "state_kept K t" by (simp add: state_kept_def)
  obtain r d where m: "persist_consumer_event cdc stream consumer s ev (se_store se) = (r, d)" by fastforce
  note h = hoare_persist [OF assms(1,2), of cdc stream consumer]
  show "written (known_attempts (length es) s) t F se1"
    if "persist_event cdc stream consumer s ev se = (Inr x, se1)"
  proof -
    from that m have "r = Inr x" "se1 = se\<lparr>se_store := d\<rparr>"
      by (auto simp: persist_event_def on_files_def op_simps split: sum.splits)
    with hoareD_ok [OF h st] m pre kt show ?thesis by (auto simp: live_def durable_def)
  qed
  show "rest se1" if "persist_event cdc stream consumer s ev se = (Inl e, se1)" for e
  proof -
    from that m have r: "r = Inl e"
      and se1: "se1 = se\<lparr>se_store := d, se_delivery := mark_consumer_needs_reconcile consumer (se_delivery se)\<rparr>"
      by (auto simp: persist_event_def on_files_def op_simps split: sum.splits)
    from hoareD_err [OF h st] m r obtain torn where
      "stored cdc stream consumer s torn d \<or> stored cdc stream consumer t torn d"
      by (auto simp: persist_left_def)
    then show ?thesis
      unfolding se1 using rest_marked [OF conjunct1 [OF pre], of s torn d] rest_marked [OF conjunct1 [OF pre], of t torn d]
        u kt assms(4) by blast
  qed
qed

text \<open>A request's first access to the consumer's state.\<close>

lemma load_delivery:
  assumes "load_consumer_state_for_request cdc ho stream consumer w = (r, w1)"
  shows "fst w1 = fst w \<or> (\<exists>x. fst w1 = reconciled ho consumer x (fst w))"
proof -
  have fst_store: "fst v1 = fst v" if "on_store m v = (r1, v1)" for m :: "(consumer_store, broker_error, 'z) op" and v r1 v1
    using that by (auto simp: on_store_def zoom_def split: prod.splits)
  show ?thesis
    using assms unfolding load_consumer_state_for_request_def
    by (auto simp: op_defs split: if_splits option.splits prod.splits sum.splits dest!: fst_store)
qed

lemma hoare_load_state:
  assumes ctx: ctx_ok
  shows "hoare (\<lambda>se. rest se \<and> rest_in K cdc stream consumer (length es) s (se_delivery se, se_store se))
    (load_for_request cdc ho stream consumer) (\<lambda>cs se. cs = s \<and> alive cs (\<lambda>_. True) se) (\<lambda>_. rest)"
proof (rule hoareI)
  fix se x se1
  assume "rest se \<and> rest_in K cdc stream consumer (length es) s (se_delivery se, se_store se)"
  then have pre: "rest se" and s: "request_ok cdc stream consumer s (se_delivery se, se_store se)" "state_kept K s"
    "\<And>off. get_in_flight consumer off (se_delivery se) \<noteq> None \<Longrightarrow>
       off < length es \<and> (settled s off \<or> off |\<in>| fmdom (delivery_attempts s))"
    by (auto simp: rest_in_def)
  obtain r w where m: "load_consumer_state_for_request cdc ho stream consumer (se_delivery se, se_store se) = (r, w)"
    by (rule prod.exhaust)
  let ?se = "se\<lparr>se_delivery := fst w, se_store := snd w\<rparr>"
  have se: "load_for_request cdc ho stream consumer se = (r, ?se)"
    using m by (simp add: load_for_request_def on_request_def zoom_def)
  have wf: "ds_wf (se_delivery se)" using s(1) by (simp add: request_ok_def)
  from load_delivery [OF m] have others: "others_kept consumer ds0 (fst w)"
    using pre others_kept_reconciled by (auto simp: resting_def)
  from load_delivery [OF m] have fl: "get_in_flight consumer off (fst w) \<noteq> None \<Longrightarrow>
      get_in_flight consumer off (se_delivery se) \<noteq> None" for off
    using reconciled_ok(2) [OF conjunct1 [OF conjunct2 [OF ctx]] wf, of consumer off]
    by (auto split: if_splits)
  note h = hoare_load_for_request [OF conjunct1 [OF ctx] conjunct1 [OF conjunct2 [OF ctx]], of stream consumer s]
  show "x = s \<and> alive x (\<lambda>_. True) se1" if "load_for_request cdc ho stream consumer se = (Inr x, se1)"
  proof -
    from that se have eq: "r = Inr x" "se1 = ?se" by auto
    from hoareD_ok [OF h s(1)] m eq have x: "request_loaded cdc stream consumer s x w" by auto
    then have "\<not> settled s off" if "get_in_flight consumer off (fst w) \<noteq> None" for off
      using that by (auto simp: request_ok_def flights_open_def)
    with fl s(3) have "get_in_flight consumer off (fst w) \<noteq> None \<longrightarrow> off \<in> known_attempts (length es) s" for off
      unfolding known_attempts_def by blast
    with x pre others s(2) eq show ?thesis
      by (auto simp: live_def durable_def resting_def request_ok_def consumer_view_def)
  qed
  show "rest se1" if "load_for_request cdc ho stream consumer se = (Inl e, se1)" for e
  proof -
    from that se have eq: "r = Inl e" "se1 = ?se" by auto
    from hoareD_err [OF h s(1)] m eq have "request_ok cdc stream consumer s w" by auto
    with pre others s(2) fl s(3) eq show ?thesis
      unfolding resting_def at_rest_def rest_in_def by (auto intro!: exI [of _ s])
  qed
qed

end

end
