(* ===== verification/Broker_Steps.thy ===== *)
theory Broker_Steps
  imports Broker_Sessions
begin

text \<open>
  The shared steps of the broker's requests against the invariant of a session: the retry schedule
  of an orphaned attempt, the observation of expired deliveries, the search for a candidate, and
  the move of an exhausted record to its dead-letter stream.
\<close>

section \<open>Orphans\<close>

text \<open>An orphaned attempt is delayed where its policy has a delay and attempts are left.\<close>

definition delays :: "consumer_policy \<Rightarrow> consumer_state \<Rightarrow> offset \<Rightarrow> bool" where
  "delays legacy s off \<longleftrightarrow>
     off |\<notin>| fmdom (retry_not_before s) \<and> attempts_of s off \<noteq> 0 \<and>
     (\<exists>p. policy_for_offset off legacy s = Inr p \<and> \<not> exhausted p (attempts_of s off) \<and> cp_retry_delay_ms p \<noteq> 0)"

definition scheduled :: "offset \<Rightarrow> retry_schedule \<Rightarrow> consumer_state \<Rightarrow> consumer_state" where
  "scheduled off r s = s\<lparr>retry_not_before := fmupd off r (retry_not_before s)\<rparr>"

lemma scheduled_sel [simp]:
  "cs_stream (scheduled off r s) = cs_stream s" "cs_consumer (scheduled off r s) = cs_consumer s"
  "committed_offset (scheduled off r s) = committed_offset s"
  "acknowledged_offsets (scheduled off r s) = acknowledged_offsets s"
  "delivery_attempts (scheduled off r s) = delivery_attempts s" "cs_policy (scheduled off r s) = cs_policy s"
  "delivery_policies (scheduled off r s) = delivery_policies s"
  "retry_not_before (scheduled off r s) = fmupd off r (retry_not_before s)"
  by (simp_all add: scheduled_def)

lemma attempts_of_dom: "attempts_of s off \<noteq> 0 \<Longrightarrow> off |\<in>| fmdom (delivery_attempts s)"
  by (auto simp: attempts_of_def fmlookup_dom_iff split: option.splits)

lemma reading_call: "hoare (reading log0) log_call (\<lambda>_. reading log0) (\<lambda>_. reading log0)"
  by (rule hoare_strengthen_post [OF reads_log_call]) auto

lemma hoare_find_record:
  assumes "log_ok es junk log0"
  shows "hoare (reading log0) (find_record off)
    (\<lambda>r log. (off < length es \<longrightarrow> r = entry_index es off) \<and> reading log0 log) (\<lambda>_. reading log0)"
proof (cases "off < length es")
  case True
  show ?thesis by (rule hoare_strengthen_post [OF reads_find_record [OF assms True]]) auto
next
  case False
  have tail: "hoare (reading log0) (and_then (reads f) lift_res) (\<lambda>_. reading log0) (\<lambda>_. reading log0)"
    for f :: "stream_log \<Rightarrow> broker_error + record_index"
    by (auto simp: hoare_def op_defs split: sum.splits)
  have cold: "hoare (reading log0) (and_then log_call (\<lambda>_. and_then log_call (\<lambda>_. and_then log_call (\<lambda>_.
      and_then (reads f) lift_res)))) (\<lambda>_. reading log0) (\<lambda>_. reading log0)"
    for f :: "stream_log \<Rightarrow> broker_error + record_index"
    by (intro hoare_and_then [OF reading_call] tail)
  have "hoare (reading log0) (find_record off) (\<lambda>_. reading log0) (\<lambda>_. reading log0)"
    unfolding find_record_def
  proof (rule hoare_and_then_reads, rule hoare_weaken_pre)
    show "hoare (reading log0) (case x of Some r \<Rightarrow> return_op r
        | None \<Rightarrow> and_then log_call (\<lambda>_. and_then log_call (\<lambda>_. and_then log_call (\<lambda>_.
          and_then (reads (\<lambda>log. scan_find (sl_file log) (scan_start off log) off)) lift_res))))
        (\<lambda>_. reading log0) (\<lambda>_. reading log0)" for x
      using cold by (cases x) (auto intro: hoare_weaken_pre [OF hoare_return])
  qed simp
  with False show ?thesis by simp
qed

lemma hoare_orphan_schedule:
  assumes "log_ok es junk log0"
  shows "hoare (reading log0) (orphan_retry_schedule s legacy off at_ms)
    (\<lambda>found log. (case found of
        None \<Rightarrow> \<not> delays legacy s off
      | Some r \<Rightarrow> delays legacy s off \<and> rse_offset r = off \<and> (off < length es \<longrightarrow> rse_key r = le_key (es ! off)) \<and>
          (at_ms < u64_max \<longrightarrow> at_ms < rse_not_before_ms r)) \<and> reading log0 log) (\<lambda>_. reading log0)"
    (is "hoare _ _ ?Q _")
proof (cases "off |\<in>| fmdom (retry_not_before s) \<or> attempts_of s off = 0")
  case True
  then show ?thesis
    by (auto simp: orphan_retry_schedule_def delays_def intro!: hoare_weaken_pre [OF hoare_return])
next
  case False
  then have un: "orphan_retry_schedule s legacy off at_ms =
      and_then (lift_res (policy_for_offset off legacy s)) (\<lambda>policy.
           if exhausted policy (attempts_of s off) \<or> cp_retry_delay_ms policy = 0 then return_op None
           else and_then (find_record off) (\<lambda>r.
                return_op (Some \<lparr>rse_offset = off,
                  rse_not_before_ms = saturating_add64 at_ms (cp_retry_delay_ms policy), rse_key = ri_key r\<rparr>)))"
    by (simp add: orphan_retry_schedule_def)
  have key: "ri_key (entry_index es off) = le_key (es ! off)" if "off < length es"
    using entries_okD [OF log_okD(1) [OF assms] that] by simp
  show ?thesis
  proof (cases "policy_for_offset off legacy s")
    case (Inl e)
    then show ?thesis by (simp add: un lift_res_bind hoare_weaken_pre [OF hoare_throw])
  next
    case (Inr p)
    show ?thesis
    proof (cases "exhausted p (attempts_of s off) \<or> cp_retry_delay_ms p = 0")
      case True
      with Inr show ?thesis
        by (auto simp: un lift_res_bind delays_def intro!: hoare_weaken_pre [OF hoare_return])
    next
      case keep: False
      have late: "at_ms < u64_max \<Longrightarrow> at_ms < saturating_add64 at_ms (cp_retry_delay_ms p)"
        using keep by (auto simp: saturating_add64_def)
      have d: "delays legacy s off" using Inr keep False by (auto simp: delays_def)
      have "hoare (\<lambda>log. (off < length es \<longrightarrow> r = entry_index es off) \<and> reading log0 log)
          (return_op (Some \<lparr>rse_offset = off, rse_not_before_ms = saturating_add64 at_ms (cp_retry_delay_ms p),
             rse_key = ri_key r\<rparr>)) ?Q (\<lambda>_. reading log0)" for r
        by (rule hoare_weaken_pre [OF hoare_return]) (use d late key in auto)
      from hoare_and_then [OF hoare_find_record [OF assms] this] Inr keep show ?thesis
        by (simp add: un lift_res_bind)
    qed
  qed
qed

text \<open>A fact in the precondition that does not depend on the state.\<close>

lemma hoare_fact: "(C \<Longrightarrow> hoare P m Q R) \<Longrightarrow> hoare (\<lambda>s. C \<and> P s) m Q R"
  by (simp add: hoare_def)

lemma hoare_reads_known: "(\<And>s. P s \<Longrightarrow> f s = c) \<Longrightarrow> hoare P (g c) S R \<Longrightarrow> hoare P (and_then (reads f) g) S R"
  by (simp add: hoare_def and_then_def reads_def)

lemma hoare_fact_kept: "(C \<Longrightarrow> hoare P m Q R) \<Longrightarrow> hoare (\<lambda>s. C \<and> P s) m (\<lambda>x s. C \<and> Q x s) R"
  by (cases C) (simp_all add: hoare_def)

context request_env
begin

lemma alive_wf:
  assumes "live K cdc stream consumer log0 (length es) ds0 E s se"
  shows "cs_wf s" "cs_stream s = stream" "cs_consumer s = consumer" "attempts_u32 s"
proof -
  have st: "stored_clean cdc stream consumer s (se_store se)" and u: "attempts_u32 s"
    using assms by (auto simp: live_def durable_def state_kept_def)
  from stored_wf [OF st] stored_names [OF st] u show "cs_wf s" "cs_stream s = stream" "cs_consumer s = consumer" "attempts_u32 s"
    by auto
qed

text \<open>A fact about the state that holds whenever a session is alive in it may be assumed.\<close>

lemma hoare_alive:
  assumes "cs_wf s \<Longrightarrow> cs_stream s = stream \<Longrightarrow> cs_consumer s = consumer \<Longrightarrow> attempts_u32 s \<Longrightarrow> hoare (alive s F) m Q R"
  shows "hoare (alive s F) m Q R"
proof (cases "\<exists>se. alive s F se")
  case True
  then obtain se where "live K cdc stream consumer log0 (length es) ds0 E s se" by blast
  from alive_wf [OF this] show ?thesis by (rule assms)
next
  case False
  then show ?thesis by (auto simp: hoare_def)
qed

lemma hoare_schedule_orphan:
  assumes ctx: ctx_ok
    and cached: "\<And>ds t. F ds \<Longrightarrow> F (cache_consumer_state (ho_consumers ho) consumer t ds)"
  shows "hoare (alive s F) (schedule_orphan_retry cdc ho stream consumer s legacy off)
    (\<lambda>(delayed, s1) se. delayed = delays legacy s off \<and>
       (\<exists>r. s1 = (if delayed then scheduled off r s else s) \<and> (off < length es \<longrightarrow> rs_key r = le_key (es ! off))) \<and>
       alive s1 F se) (\<lambda>_. rest)" (is "hoare _ _ ?Q _")
proof (rule hoare_alive)
  assume wf: "cs_wf s" and u: "attempts_u32 s"
  have log: "log_ok es junk log0" using ctx by simp
  have some: "hoare (\<lambda>se. t < u64_max \<and>
      (case found of
        None \<Rightarrow> \<not> delays legacy s off
      | Some r \<Rightarrow> delays legacy s off \<and> rse_offset r = off \<and> (off < length es \<longrightarrow> rse_key r = le_key (es ! off)) \<and>
          (t < u64_max \<longrightarrow> t < rse_not_before_ms r)) \<and> alive s F se)
      (case found of None \<Rightarrow> return_op (False, s)
       | Some schedule \<Rightarrow>
         and_then (persist_event cdc stream consumer s (RetrySchedules [schedule])) (\<lambda>_.
         let cs1 = s\<lparr>retry_not_before := fmupd off (schedule_of schedule) (retry_not_before s)\<rparr>
         in and_then (cache_state ho consumer cs1) (\<lambda>_.
            and_then notify_waiters (\<lambda>_.
            return_op (rse_not_before_ms schedule > t, cs1))))) ?Q (\<lambda>_. rest)" for t found
  proof (cases found)
    case None
    have pick: "\<exists>r :: retry_schedule. off < length es \<longrightarrow> rs_key r = le_key (es ! off)"
      by (rule exI [of _ "\<lparr>rs_not_before_ms = 0, rs_key = le_key (es ! off)\<rparr>"]) simp
    show ?thesis unfolding None
      by (simp, rule hoare_weaken_pre [OF hoare_return]) (use pick in auto)
  next
    case (Some r)
    show ?thesis
    proof (cases "delays legacy s off \<and> rse_offset r = off \<and> t < rse_not_before_ms r \<and>
        (off < length es \<longrightarrow> rse_key r = le_key (es ! off))")
      case True
      let ?s1 = "s\<lparr>retry_not_before := fmupd off (schedule_of r) (retry_not_before s)\<rparr>"
      have dom: "off |\<in>| fmdom (delivery_attempts s)" "off |\<notin>| fmdom (retry_not_before s)"
        using True by (auto simp: delays_def intro: attempts_of_dom)
      have ev: "apply_event (RetrySchedules [r]) s = Inr ?s1"
        using insert_schedule_event [OF wf, of r] dom True by simp
      have eb: "event_bounded (RetrySchedules [r])" by (simp add: event_bounded_def)
      have "hoare (alive s F) (persist_event cdc stream consumer s (RetrySchedules [r]))
          (\<lambda>_. written (known_attempts (length es) s) ?s1 F) (\<lambda>_. rest)"
        by (rule hoare_persist_event [OF eb ev]) (use u in \<open>auto simp: attempts_u32_def settled_def\<close>)
      moreover have "hoare (written (known_attempts (length es) s) ?s1 F) (cache_state ho consumer ?s1) (\<lambda>_. alive ?s1 F) (\<lambda>_. rest)"
        by (rule hoare_cache) (auto simp: known_attempts_def cached)
      moreover have "hoare (alive ?s1 F) (return_op (t < rse_not_before_ms r, ?s1)) ?Q (\<lambda>_. rest)"
        by (rule hoare_weaken_pre [OF hoare_return])
          (use True in \<open>auto simp: scheduled_def schedule_of_def intro!: exI [of _ "schedule_of r"]\<close>)
      ultimately have "hoare (alive s F) (and_then (persist_event cdc stream consumer s (RetrySchedules [r])) (\<lambda>_.
         and_then (cache_state ho consumer ?s1) (\<lambda>_. and_then notify_waiters (\<lambda>_.
            return_op (t < rse_not_before_ms r, ?s1))))) ?Q (\<lambda>_. rest)"
        by (blast intro: hoare_and_then hoare_notify)
      then show ?thesis unfolding Some Let_def option.case by (rule hoare_weaken_pre) simp
    next
      case False
      then show ?thesis unfolding Some hoare_def by auto
    qed
  qed
  have step: "hoare (\<lambda>se. t < u64_max \<and> alive s F se) (on_log (orphan_retry_schedule s legacy off t))
      (\<lambda>found se. t < u64_max \<and>
      (case found of
        None \<Rightarrow> \<not> delays legacy s off
      | Some r \<Rightarrow> delays legacy s off \<and> rse_offset r = off \<and> (off < length es \<longrightarrow> rse_key r = le_key (es ! off)) \<and>
          (t < u64_max \<longrightarrow> t < rse_not_before_ms r)) \<and> alive s F se) (\<lambda>_. rest)" for t
    by (rule hoare_fact_kept, rule hoare_log, rule hoare_orphan_schedule [OF log])
  show "hoare (alive s F) (schedule_orphan_retry cdc ho stream consumer s legacy off) ?Q (\<lambda>_. rest)"
    unfolding schedule_orphan_retry_def
    by (rule hoare_and_then [OF hoare_clock [where s = s and F = F]], rule hoare_and_then [OF step], rule some)
qed

end

section \<open>Expired deliveries\<close>

lemma expired_schedules_offsets:
  "expired_schedules s legacy at_ms ds = Inr rs \<Longrightarrow> r \<in> set rs \<Longrightarrow> rse_offset r \<in> if_offset ` set ds"
  by (induction s legacy at_ms ds arbitrary: rs rule: expired_schedules.induct)
    (force simp: Let_def split: if_splits sum.splits)+

lemma expired_schedules_complete:
  "expired_schedules s legacy at_ms ds = Inr rs \<Longrightarrow> d \<in> set ds \<Longrightarrow> delays legacy s (if_offset d) \<Longrightarrow>
   if_offset d \<in> rse_offset ` set rs"
  by (induction s legacy at_ms ds arbitrary: rs rule: expired_schedules.induct)
    (force simp: Let_def delays_def split: if_splits sum.splits)+

definition same_flights :: "string \<Rightarrow> delivery_state \<Rightarrow> delivery_state \<Rightarrow> bool" where
  "same_flights consumer ds ds' \<longleftrightarrow> (\<forall>off. get_in_flight consumer off ds' = get_in_flight consumer off ds)"

lemma same_flights_cache [simp]:
  "same_flights consumer ds (cache_consumer_state order c s ds') = same_flights consumer ds ds'"
  by (simp add: same_flights_def)

lemma same_flights_filter:
  assumes "ds_wf ds" "ds_wf ds'" "same_flights consumer ds ds'"
  shows "in_flight_filter_excluding consumer X ds' = in_flight_filter_excluding consumer X ds"
  by (rule prod_eqI; rule fset_eqI)
    (use assms in \<open>simp_all add: filter_excluding_offsets filter_excluding_keys same_flights_def\<close>)

context request_env
begin

lemma hoare_remove_alive:
  assumes "\<And>ds. F ds \<Longrightarrow> G (fold (remove_delivery consumer) offs ds)"
  shows "hoare (alive s F) (change_delivery (fold (remove_delivery consumer) offs)) (\<lambda>_. alive s G) R"
  using assms
  by (auto simp: hoare_def change_delivery_def modify_def live_def durable_def others_kept_removes flights.inv_dels
      flights.lookup_dels split: if_splits)

lemma hoare_apply_plan:
  assumes plan: "plan_expired_deliveries consumer s legacy now at_ms ds = Inr plan"
  shows "hoare (alive s (\<lambda>d. d = ds)) (apply_expired_delivery_plan cdc ho consumer s plan)
    (\<lambda>s1 se. s1 = insert_schedules (plan_schedules plan) s \<and>
       alive s1 (same_flights consumer (fold (remove_delivery consumer) (map if_offset (plan_deliveries plan)) ds)) se) (\<lambda>_. rest)"
    (is "hoare _ _ ?Q _")
proof (cases "\<exists>se. alive s (\<lambda>d. d = ds) se")
  case True
  then obtain se where al: "live K cdc stream consumer log0 (length es) ds0 E s se" "se_delivery se = ds" by blast
  note wf = alive_wf [OF al(1)]
  let ?s1 = "insert_schedules (plan_schedules plan) s"
  let ?gone = "same_flights consumer (fold (remove_delivery consumer) (map if_offset (plan_deliveries plan)) ds)"
  have ds: "ds_wf ds" and fl: "\<And>off. get_in_flight consumer off ds \<noteq> None \<Longrightarrow> off |\<in>| fmdom (delivery_attempts s)"
    using al by (auto simp: live_def durable_def known_attempts_def)
  from plan have p: "plan_deliveries plan = expired_deliveries consumer now ds"
    "expired_schedules s legacy at_ms (plan_deliveries plan) = Inr (plan_schedules plan)"
    by (auto simp: plan_expired_deliveries_def Let_def split: sum.splits)
  have dom: "rse_offset r |\<in>| fmdom (delivery_attempts s)" if "r \<in> set (plan_schedules plan)" for r
  proof -
    from expired_schedules_offsets [OF p(2) that] obtain d where d: "d \<in> set (plan_deliveries plan)" "rse_offset r = if_offset d"
      by blast
    then obtain off where "get_in_flight consumer off ds = Some d" using expired_deliveries_iff [OF ds] p(1) by auto
    with ds fl [of off] d(2) show ?thesis by (auto simp: ds_wf_def flights_ok_def)
  qed
  have ev: "apply_event (RetrySchedules (plan_schedules plan)) s = Inr ?s1"
    using insert_schedules_event [OF wf(1) dom] by simp
  have eb: "event_bounded (RetrySchedules (plan_schedules plan))" by (auto simp: event_bounded_def)
  have pers: "hoare (alive s (\<lambda>d. d = ds)) (persist_event cdc (cs_stream s) consumer s (RetrySchedules (plan_schedules plan)))
      (\<lambda>_. written (known_attempts (length es) s) ?s1 (\<lambda>d. d = ds)) (\<lambda>_. rest)"
    unfolding wf(2) by (rule hoare_persist_event [OF eb ev]) (use wf(4) in \<open>auto simp: attempts_u32_def settled_def\<close>)
  have cache: "hoare (written (known_attempts (length es) s) ?s1 (\<lambda>d. d = ds)) (cache_state ho consumer ?s1)
      (\<lambda>_. alive ?s1 (same_flights consumer ds)) (\<lambda>_. rest)"
    by (rule hoare_cache) (auto simp: known_attempts_def same_flights_def)
  have ret: "hoare (alive x G) (return_op x) (\<lambda>s1 se. s1 = x \<and> alive s1 G se) (\<lambda>_. rest)" for x G
    by (rule hoare_weaken_pre [OF hoare_return]) simp
  have sched: "hoare (alive s (\<lambda>d. d = ds))
      (if plan_schedules plan = [] then return_op s
         else and_then (persist_event cdc (cs_stream s) consumer s (RetrySchedules (plan_schedules plan))) (\<lambda>_.
              let cs1 = ?s1 in and_then (cache_state ho consumer cs1) (\<lambda>_. return_op cs1)))
      (\<lambda>s1 se. s1 = ?s1 \<and> alive s1 (same_flights consumer ds) se) (\<lambda>_. rest)"
  proof (cases "plan_schedules plan = []")
    case True
    then have "?s1 = s" by (simp add: insert_schedules_def)
    with True show ?thesis
      by (simp, intro hoare_weaken_pre [OF hoare_return]) (simp add: same_flights_def)
  next
    case False
    then show ?thesis
      by (simp only: if_False Let_def) (rule hoare_and_then [OF pers], rule hoare_and_then [OF cache], rule ret)
  qed
  have gone: "hoare (alive ?s1 (same_flights consumer ds))
      (change_delivery (fold (remove_delivery consumer) (map if_offset (plan_deliveries plan)))) (\<lambda>_. alive ?s1 ?gone) (\<lambda>_. rest)"
    by (rule hoare_remove_alive) (simp add: same_flights_def flights.lookup_dels)
  have rest_of: "hoare (\<lambda>se. x = ?s1 \<and> alive x (same_flights consumer ds) se)
      (and_then (change_delivery (fold (remove_delivery consumer) (map if_offset (plan_deliveries plan)))) (\<lambda>_.
        and_then notify_waiters (\<lambda>_. return_op x))) ?Q (\<lambda>_. rest)" for x
    by (rule hoare_fact, simp only:)
      (rule hoare_and_then [OF gone], rule hoare_and_then [OF hoare_notify [where s = ?s1 and F = ?gone]], rule ret)
  show ?thesis
  proof (cases "plan_deliveries plan = []")
    case True
    with p(2) have "?s1 = s" by (simp add: insert_schedules_def)
    with True show ?thesis
      by (simp add: apply_expired_delivery_plan_def, intro hoare_weaken_pre [OF hoare_return]) (auto simp: same_flights_def)
  next
    case False
    then show ?thesis
      unfolding apply_expired_delivery_plan_def by (simp only: if_False) (rule hoare_and_then [OF sched rest_of])
  qed
qed (auto simp: hoare_def)

end

text \<open>The deliveries that have not expired.\<close>

definition unexpired :: "string \<Rightarrow> instant \<Rightarrow> delivery_state \<Rightarrow> delivery_state" where
  "unexpired consumer now ds = fold (remove_delivery consumer) (map if_offset (expired_deliveries consumer now ds)) ds"

lemma get_unexpired:
  assumes "ds_wf ds"
  shows "get_in_flight consumer off (unexpired consumer now ds) =
    (case get_in_flight consumer off ds of Some d \<Rightarrow> if if_deadline d \<le> now then None else Some d | None \<Rightarrow> None)"
proof -
  have own: "if_offset d = o'" if "get_in_flight consumer o' ds = Some d" for o' d
    using assms that by (auto simp: ds_wf_def flights_ok_def)
  have "off \<in> if_offset ` set (expired_deliveries consumer now ds) \<longleftrightarrow>
      (\<exists>d. get_in_flight consumer off ds = Some d \<and> if_deadline d \<le> now)"
  proof
    assume "off \<in> if_offset ` set (expired_deliveries consumer now ds)"
    then show "\<exists>d. get_in_flight consumer off ds = Some d \<and> if_deadline d \<le> now"
      using own by (auto simp: expired_deliveries_iff [OF assms])
  next
    assume "\<exists>d. get_in_flight consumer off ds = Some d \<and> if_deadline d \<le> now"
    then obtain d where d: "get_in_flight consumer off ds = Some d" "if_deadline d \<le> now" by blast
    then have "d \<in> set (expired_deliveries consumer now ds)" by (auto simp: expired_deliveries_iff [OF assms])
    with own [OF d(1)] show "off \<in> if_offset ` set (expired_deliveries consumer now ds)" by blast
  qed
  then show ?thesis
    by (auto simp: unexpired_def flights.lookup_dels split: option.split)
qed

context request_env
begin

lemma hoare_observe:
  "hoare (alive s (\<lambda>d. d = ds)) (observe_expired_deliveries cdc ho consumer s legacy now)
    (\<lambda>s1 se. (\<exists>rs. s1 = insert_schedules rs s) \<and> alive s1 (same_flights consumer (unexpired consumer now ds)) se) (\<lambda>_. rest)"
    (is "hoare _ _ ?Q _")
proof -
  have step: "hoare (\<lambda>se. plan_expired_deliveries consumer s legacy now t ds = Inr plan \<and> alive s (\<lambda>d. d = ds) se)
      (apply_expired_delivery_plan cdc ho consumer s plan) ?Q (\<lambda>_. rest)" for t plan
  proof (rule hoare_fact)
    assume p: "plan_expired_deliveries consumer s legacy now t ds = Inr plan"
    then have "plan_deliveries plan = expired_deliveries consumer now ds"
      by (auto simp: plan_expired_deliveries_def Let_def split: sum.splits)
    then show "hoare (alive s (\<lambda>d. d = ds)) (apply_expired_delivery_plan cdc ho consumer s plan) ?Q (\<lambda>_. rest)"
      by (intro hoare_strengthen_post [OF hoare_apply_plan [OF p]]) (auto simp: unexpired_def)
  qed
  have planned: "hoare (\<lambda>se. t < u64_max \<and> alive s (\<lambda>d. d = ds) se)
      (and_then (reads se_delivery) (\<lambda>d.
       and_then (lift_res (plan_expired_deliveries consumer s legacy now t d)) (\<lambda>plan.
       apply_expired_delivery_plan cdc ho consumer s plan))) ?Q (\<lambda>_. rest)" for t
    by (rule hoare_fact, rule hoare_reads_known [where c = ds], simp,
        rule hoare_and_then [OF hoare_lift [where s = s and F = "\<lambda>d. d = ds"] step])
  show ?thesis
    unfolding observe_expired_deliveries_def
    by (rule hoare_and_then [OF hoare_clock [where s = s and F = "\<lambda>d. d = ds"]], rule planned)
qed

end

section \<open>Candidates\<close>

text \<open>The lowest record that is unsettled, not in flight and not blocked by its key, with further
  offsets and keys to pass over.\<close>

definition next_candidate ::
  "string \<Rightarrow> log_entry list \<Rightarrow> consumer_state \<Rightarrow> delivery_state \<Rightarrow> offset fset \<Rightarrow> string fset \<Rightarrow> offset option" where
  "next_candidate consumer es s ds offsets keys =
     first_eligible (committed_offset s) (acknowledged_offsets s)
       (Some (fst (in_flight_filter_excluding consumer {||} ds) |\<union>| offsets,
              snd (in_flight_filter_excluding consumer {||} ds) |\<union>| keys)) es"

lemma first_eligible_nothing:
  "first_eligible committed acknowledged None es = first_eligible committed acknowledged (Some ({||}, {||})) es"
proof -
  have "eligible acknowledged None es = eligible acknowledged (Some ({||}, {||})) es"
    by (rule ext) (simp add: eligible_def split: option.split)
  then show ?thesis by (simp add: first_eligible_def)
qed

lemma next_candidate_Some:
  assumes "ds_wf ds" "next_candidate consumer es s ds offsets keys = Some off"
  shows "off < length es" "\<not> settled s off" "get_in_flight consumer off ds = None" "off |\<notin>| offsets"
    and "le_key (es ! off) = Some k \<Longrightarrow> k |\<notin>| keys \<and> (\<forall>o' d. get_in_flight consumer o' ds = Some d \<longrightarrow> if_key d \<noteq> Some k)"
proof -
  note F = filter_excluding_offsets [OF assms(1), of _ consumer "{||}"] filter_excluding_keys [OF assms(1), of _ consumer "{||}"]
  from assms(2) have *: "off \<in> set [committed_offset s..<length es]"
    "eligible (acknowledged_offsets s)
       (Some (fst (in_flight_filter_excluding consumer {||} ds) |\<union>| offsets,
              snd (in_flight_filter_excluding consumer {||} ds) |\<union>| keys)) es off"
    unfolding next_candidate_def first_eligible_def by (auto dest!: find_SomeD)
  then show "off < length es" "\<not> settled s off" "get_in_flight consumer off ds = None" "off |\<notin>| offsets"
    using F by (auto simp: eligible_def settled_def)
  show "k |\<notin>| keys \<and> (\<forall>o' d. get_in_flight consumer o' ds = Some d \<longrightarrow> if_key d \<noteq> Some k)" if "le_key (es ! off) = Some k"
    using * F that by (auto simp: eligible_def)
qed

lemma same_flights_candidate:
  assumes "ds_wf ds" "ds_wf ds'" "same_flights consumer ds ds'"
  shows "next_candidate consumer es s ds' offsets keys = next_candidate consumer es s ds offsets keys"
  by (simp add: next_candidate_def same_flights_filter [OF assms])

context request_env
begin

lemma hoare_candidate:
  assumes ctx: ctx_ok and wf: "\<And>d. F d \<Longrightarrow> ds_wf d \<Longrightarrow> same_flights consumer ds d" "ds_wf ds"
  shows "hoare (alive s F) (find_candidate_excluding consumer (committed_offset s) (acknowledged_offsets s) offsets keys)
    (\<lambda>found se. found = map_option (entry_index es) (next_candidate consumer es s ds offsets keys) \<and> alive s F se) (\<lambda>_. rest)"
    (is "hoare _ _ ?Q _")
  unfolding find_candidate_excluding_def
proof (rule hoare_and_then_reads)
  fix current
  let ?filter = "case current of
          None \<Rightarrow> if offsets = {||} \<and> keys = {||} then None else Some (offsets, keys)
        | Some (o1, k1) \<Rightarrow> if offsets = {||} \<and> keys = {||} then Some (o1, k1) else Some (o1 |\<union>| offsets, k1 |\<union>| keys)"
  have log: "log_ok es junk log0" and torn: "torn_frame junk" using ctx by auto
  have eq: "first_eligible (committed_offset s) (acknowledged_offsets s) ?filter es = next_candidate consumer es s ds offsets keys"
    if "alive s F se" "current = in_flight_filter consumer (se_delivery se)" for se
  proof -
    have "ds_wf (se_delivery se)" using that(1) by (simp add: live_def durable_def)
    then have same: "in_flight_filter_excluding consumer {||} (se_delivery se) = in_flight_filter_excluding consumer {||} ds"
      using wf that(1) by (intro same_flights_filter) auto
    have "in_flight_filter_excluding consumer {||} (se_delivery se) = (case current of None \<Rightarrow> ({||}, {||}) | Some f \<Rightarrow> f)"
      using that(2) by (simp add: in_flight_filter_excluding_def)
    then show ?thesis
      using same by (auto simp: next_candidate_def first_eligible_nothing split: option.splits)
  qed
  show "hoare (\<lambda>se. alive s F se \<and> current = in_flight_filter consumer (se_delivery se))
      (on_log (find_candidate (committed_offset s) (acknowledged_offsets s) ?filter)) ?Q (\<lambda>_. rest)"
  proof (cases "\<exists>se. alive s F se \<and> current = in_flight_filter consumer (se_delivery se)")
    case True
    with eq have next_eq: "first_eligible (committed_offset s) (acknowledged_offsets s) ?filter es =
        next_candidate consumer es s ds offsets keys"
      by blast
    have "hoare (alive s F) (on_log (find_candidate (committed_offset s) (acknowledged_offsets s) ?filter)) ?Q (\<lambda>_. rest)"
      unfolding next_eq [symmetric]
      by (rule hoare_reads_log [where s = s and F = F, OF reads_find_candidate [OF log torn]])
    then show ?thesis by (rule hoare_weaken_pre) simp
  qed (auto simp: hoare_def)
qed

lemma hoare_candidate_released:
  assumes ctx: ctx_ok and released: "released = fset_of_list offs"
  shows "hoare (alive s (\<lambda>d. d = ds))
    (find_candidate_excluding_released consumer (committed_offset p) (acknowledged_offsets p) offsets keys released)
    (\<lambda>found se. found = map_option (entry_index es)
         (next_candidate consumer es p (fold (remove_delivery consumer) offs ds) offsets keys) \<and> alive s (\<lambda>d. d = ds) se) (\<lambda>_. rest)"
    (is "hoare _ _ ?Q _")
  unfolding find_candidate_excluding_released_def
proof (rule hoare_and_then_reads)
  fix current :: "offset fset \<times> string fset"
  have log: "log_ok es junk log0" and torn: "torn_frame junk" using ctx by auto
  obtain o1 k1 where current: "current = (o1, k1)" by fastforce
  let ?filter = "if o1 |\<union>| offsets = {||} \<and> k1 |\<union>| keys = {||} then None else Some (o1 |\<union>| offsets, k1 |\<union>| keys)"
  have "hoare (\<lambda>se. alive s (\<lambda>d. d = ds) se \<and> current = in_flight_filter_excluding consumer released (se_delivery se))
      (on_log (find_candidate (committed_offset p) (acknowledged_offsets p) ?filter)) ?Q (\<lambda>_. rest)"
  proof (cases "ds_wf ds \<and> current = in_flight_filter_excluding consumer released ds")
    case True
    then have "in_flight_filter_excluding consumer {||} (fold (remove_delivery consumer) offs ds) = (o1, k1)"
      using filter_excluding_removed [of ds consumer offs] released current by simp
    then have next_eq: "first_eligible (committed_offset p) (acknowledged_offsets p) ?filter es =
        next_candidate consumer es p (fold (remove_delivery consumer) offs ds) offsets keys"
      by (auto simp: next_candidate_def first_eligible_nothing)
    have "hoare (alive s (\<lambda>d. d = ds)) (on_log (find_candidate (committed_offset p) (acknowledged_offsets p) ?filter)) ?Q (\<lambda>_. rest)"
      unfolding next_eq [symmetric]
      by (rule hoare_reads_log [where s = s and F = "\<lambda>d. d = ds", OF reads_find_candidate [OF log torn]])
    then show ?thesis by (rule hoare_weaken_pre) simp
  qed (auto simp: hoare_def live_def durable_def)
  then show "hoare (\<lambda>se. alive s (\<lambda>d. d = ds) se \<and> current = in_flight_filter_excluding consumer released (se_delivery se))
      (case current of (current_offsets, current_keys) \<Rightarrow>
         let offsets = current_offsets |\<union>| offsets; keys = current_keys |\<union>| keys
         in on_log (find_candidate (committed_offset p) (acknowledged_offsets p)
              (if offsets = {||} \<and> keys = {||} then None else Some (offsets, keys)))) ?Q (\<lambda>_. rest)"
    unfolding current prod.case Let_def .
qed

end

section \<open>Dead letters and delays\<close>

context request_env
begin

lemma hoare_broker_fallible:
  assumes "\<And>b. E b \<Longrightarrow> E (snd (m b))"
  shows "hoare (alive s F) (on_broker m) (\<lambda>_. alive s F) (\<lambda>_. rest)"
proof (rule hoareI)
  fix se x se1
  assume pre: "alive s F se"
  then have "E (snd (m (se_broker se)))" using assms by (simp add: live_def durable_def)
  then have upd: "alive s F (se\<lparr>se_broker := snd (m (se_broker se))\<rparr>)" using pre by (simp add: live_def durable_def)
  have run: "se1 = se\<lparr>se_broker := snd (m (se_broker se))\<rparr>" if "on_broker m se = (r, se1)" for r
    using that by (auto simp: on_broker_def zoom_def split: prod.splits)
  show "alive s F se1" if "on_broker m se = (Inr x, se1)" using upd run [OF that] by simp
  show "rest se1" if "on_broker m se = (Inl e, se1)" for e
    using upd alive_rest run [OF that] by blast
qed

lemma hoare_dead_letter_record:
  assumes ctx: ctx_ok and off: "ri_offset candidate < length es"
  shows "hoare (alive s F) (dead_letter_record stream consumer candidate) (\<lambda>_. alive s F) (\<lambda>_. rest)"
proof -
  have log: "log_ok es junk log0" using ctx by auto
  have move: "hoare (alive s F) (and_then (on_broker (get_or_create_stream target)) (\<lambda>_.
      and_then (on_broker (on_stream target (on_stream_log (append_with_move_id (m_key m) (m_payload m) move_id)))) (\<lambda>_.
      return_op ()))) (\<lambda>_. alive s F) (\<lambda>_. rest)"
    if "dead_letter_stream_name stream = Inr target" for target m move_id
    by (rule hoare_and_then [OF hoare_broker_fallible [where s = s and F = F]], erule env_create [OF _ that],
        rule hoare_and_then [OF hoare_broker_fallible [where s = s and F = F]], erule env_move [OF _ that],
        rule hoare_return)
  have read: "hoare (alive s F) (on_log (read_message stream (ri_offset candidate))) (\<lambda>_. alive s F) (\<lambda>_. rest)"
    by (rule hoare_strengthen_post [OF hoare_reads_log [where s = s and F = F, OF reads_read_message [OF log off]]]) auto
  have body: "hoare (alive s F)
      (and_then (lift_res (dead_letter_move_id stream consumer (ri_offset candidate))) (\<lambda>move_id.
       and_then (on_log (read_message stream (ri_offset candidate))) (\<lambda>m.
       and_then (on_broker (get_or_create_stream target)) (\<lambda>_.
       and_then (on_broker (on_stream target (on_stream_log (append_with_move_id (m_key m) (m_payload m) move_id)))) (\<lambda>_.
       return_op ()))))) (\<lambda>_. alive s F) (\<lambda>_. rest)"
    if "dead_letter_stream_name stream = Inr target" for target
    by (rule hoare_and_then [OF hoare_lift [where s = s and F = F]], rule hoare_fact,
        rule hoare_and_then [OF read], rule move [OF that])
  show ?thesis
    unfolding dead_letter_record_def
    by (rule hoare_and_then [OF hoare_lift [where s = s and F = F]], rule hoare_fact, rule body)
qed

lemma entries_below: "ctx_ok \<Longrightarrow> off < length es \<Longrightarrow> off < u64_max"
  using log_okD(1) [of es junk log0] by (auto simp: entries_ok_def)

lemma hoare_persist_dead_letter:
  assumes ctx: ctx_ok and off: "ri_offset candidate < length es"
    and F: "\<And>ds t. F ds \<Longrightarrow> F (cache_consumer_state (ho_consumers ho) consumer t ds)"
    and free: "\<And>ds. F ds \<Longrightarrow> get_in_flight consumer (ri_offset candidate) ds = None"
  shows "hoare (alive s F) (persist_dead_letter cdc ho stream consumer s candidate)
    (\<lambda>s1 se. s1 = acknowledge (ri_offset candidate) s \<and> alive s1 F se) (\<lambda>_. rest)"
proof (rule hoare_alive)
  assume wf: "cs_wf s" and u: "attempts_u32 s"
  let ?off = "ri_offset candidate" and ?s1 = "acknowledge (ri_offset candidate) s"
  note lt = entries_below [OF ctx off]
  have ev: "apply_event (Acknowledge ?off) s = Inr ?s1" and eb: "event_bounded (Acknowledge ?off)"
    using lt by (simp_all add: event_bounded_def)
  have pers: "hoare (alive s F) (persist_event cdc stream consumer s (Acknowledge ?off))
      (\<lambda>_. written (known_attempts (length es) s) ?s1 F) (\<lambda>_. rest)"
    by (rule hoare_persist_event [OF eb ev]) (use u wf lt in \<open>auto simp: attempts_u32_def\<close>)
  have drop: "written (known_attempts (length es) s) ?s1 F se \<Longrightarrow> written (known_attempts (length es) s - {?off}) ?s1 F se" for se
    using free by (auto simp: durable_def)
  have cache: "hoare (written (known_attempts (length es) s) ?s1 F) (cache_state ho consumer ?s1) (\<lambda>_. alive ?s1 F) (\<lambda>_. rest)"
    by (rule hoare_weaken_pre [OF hoare_cache [where A = "known_attempts (length es) s - {?off}" and F = F and G = F]])
      (use wf lt F drop in \<open>auto simp: known_attempts_def\<close>)
  have ret: "hoare (alive ?s1 F) (return_op ?s1) (\<lambda>s1 se. s1 = ?s1 \<and> alive s1 F se) (\<lambda>_. rest)"
    by (rule hoare_weaken_pre [OF hoare_return]) simp
  show "hoare (alive s F) (persist_dead_letter cdc ho stream consumer s candidate)
    (\<lambda>s1 se. s1 = ?s1 \<and> alive s1 F se) (\<lambda>_. rest)"
    unfolding persist_dead_letter_def Let_def
    by (rule hoare_and_then [OF hoare_dead_letter_record [OF ctx off, where s = s and F = F]], rule hoare_and_then [OF pers],
        rule hoare_and_then [OF cache], rule hoare_and_then [OF hoare_notify [where s = ?s1 and F = F]],
        rule hoare_and_then [OF hoare_count(2) [where s = ?s1 and F = F]], rule ret)
qed

lemma hoare_pending_dead_letters:
  assumes ctx: ctx_ok
    and F: "\<And>ds t. F ds \<Longrightarrow> F (cache_consumer_state (ho_consumers ho) consumer t ds)"
    and cands: "\<And>c. c \<in> set cands \<Longrightarrow> ri_offset c < length es"
    and free: "\<And>c ds. c \<in> set cands \<Longrightarrow> F ds \<Longrightarrow> get_in_flight consumer (ri_offset c) ds = None"
  shows "hoare (alive s F) (persist_pending_dead_letters cdc ho stream consumer cands s)
    (\<lambda>s1 se. s1 = fold acknowledge (map ri_offset cands) s \<and> alive s1 F se) (\<lambda>_. rest)"
  using cands free
proof (induction cands arbitrary: s)
  case Nil
  show ?case by (simp, rule hoare_weaken_pre [OF hoare_return]) simp
next
  case (Cons c cands)
  have one: "hoare (alive s F) (persist_dead_letter cdc ho stream consumer s c)
      (\<lambda>s1 se. s1 = acknowledge (ri_offset c) s \<and> alive s1 F se) (\<lambda>_. rest)"
    by (rule hoare_persist_dead_letter [where F = F, OF ctx]) (use Cons.prems F in auto)
  have more: "hoare (alive t F) (persist_pending_dead_letters cdc ho stream consumer cands t)
      (\<lambda>s1 se. s1 = fold acknowledge (map ri_offset cands) t \<and> alive s1 F se) (\<lambda>_. rest)" for t
    by (rule Cons.IH) (use Cons.prems in auto)
  show ?case
    by (simp, rule hoare_and_then [OF one], rule hoare_fact) (use more in simp)
qed

lemma hoare_delay_orphan:
  assumes ctx: ctx_ok
  shows "hoare (alive s (same_flights consumer ds)) (delay_orphan cdc ho stream consumer s legacy off)
    (\<lambda>(delayed, s1) se. delayed = (get_in_flight consumer off ds = None \<and> delays legacy s off) \<and>
       (\<exists>r. s1 = (if delayed then scheduled off r s else s) \<and> (off < length es \<longrightarrow> rs_key r = le_key (es ! off))) \<and>
       alive s1 (same_flights consumer ds) se) (\<lambda>_. rest)" (is "hoare ?P _ ?Q _")
proof -
  have orphan: "is_orphan consumer s off d \<longleftrightarrow>
      attempts_of s off > 0 \<and> off |\<notin>| fmdom (retry_not_before s) \<and> get_in_flight consumer off ds = None"
    if "same_flights consumer ds d" for d
    using that by (simp add: is_orphan_def same_flights_def)
  show ?thesis
    unfolding delay_orphan_def
  proof (rule hoare_reads_known [where c = "is_orphan consumer s off ds"])
    show "is_orphan consumer s off (se_delivery se) = is_orphan consumer s off ds" if "?P se" for se
      using that orphan [of "se_delivery se"] by (simp add: is_orphan_def)
    show "hoare ?P (if is_orphan consumer s off ds then schedule_orphan_retry cdc ho stream consumer s legacy off
        else return_op (False, s)) ?Q (\<lambda>_. rest)"
    proof (cases "is_orphan consumer s off ds")
      case True
      then have "get_in_flight consumer off ds = None" by (simp add: is_orphan_def)
      with True show ?thesis
        by (simp only: if_True) (rule hoare_strengthen_post [OF hoare_schedule_orphan [OF ctx, where F = "same_flights consumer ds"]], auto)
    next
      case False
      then have no: "\<not> (get_in_flight consumer off ds = None \<and> delays legacy s off)"
        by (auto simp: is_orphan_def delays_def)
      have pick: "\<exists>r :: retry_schedule. off < length es \<longrightarrow> rs_key r = le_key (es ! off)"
        by (rule exI [of _ "\<lparr>rs_not_before_ms = 0, rs_key = le_key (es ! off)\<rparr>"]) simp
      from False show ?thesis
        by (simp only: if_False) (rule hoare_weaken_pre [OF hoare_return], use no pick in auto)
    qed
  qed
qed

end

end
