(* ===== verification/Broker_Polls.thy ===== *)
theory Broker_Polls
  imports Broker_Steps
begin

text \<open>
  Scalar polls. The search of a poll and the search of its preflight are two loops over different
  states; both refine one reference function, \<open>pick\<close>, so they select the same record. From this
  follow that the preflight's token is always there when the poll needs it, that the loops end, and
  what a delivered message, or an empty answer, says about the stream.
\<close>

section \<open>The reference search\<close>

text \<open>
  Take candidates in order; pass over a delayed one (with its key) and over an exhausted one; stop
  at the first other one, or when there is none. What was passed over is remembered.
\<close>

primrec pick ::
  "nat \<Rightarrow> (offset fset \<Rightarrow> string fset \<Rightarrow> offset option) \<Rightarrow> (offset \<Rightarrow> string option) \<Rightarrow> (offset \<Rightarrow> bool) \<Rightarrow>
   (offset \<Rightarrow> bool) \<Rightarrow> offset fset \<Rightarrow> string fset \<Rightarrow> offset list \<Rightarrow> offset list \<Rightarrow>
   (offset option \<times> offset list \<times> offset list) option" where
  "pick 0 cand key delayed terminal offsets keys passed late = None"
| "pick (Suc fuel) cand key delayed terminal offsets keys passed late =
     (case cand offsets keys of
        None \<Rightarrow> Some (None, passed, late)
      | Some off \<Rightarrow>
          if delayed off
          then pick fuel cand key delayed terminal (finsert off offsets) (insert_key (key off) keys) passed (late @ [off])
          else if terminal off
          then pick fuel cand key delayed terminal (finsert off offsets) keys (passed @ [off]) late
          else Some (Some off, passed, late))"

lemma pick_returns:
  assumes "\<And>offs ks off. cand offs ks = Some off \<Longrightarrow> off < n \<and> off |\<notin>| offs"
    and "card ({..<n} - fset offsets) < fuel"
  shows "pick fuel cand key delayed terminal offsets keys passed late \<noteq> None"
  using assms(2)
proof (induction fuel arbitrary: offsets keys passed late)
  case (Suc fuel)
  have "card ({..<n} - fset (finsert off offsets)) < fuel" if "cand offsets keys = Some off" for off
  proof -
    have "{..<n} - fset (finsert off offsets) \<subset> {..<n} - fset offsets"
      using assms(1) [OF that] by auto
    then have "card ({..<n} - fset (finsert off offsets)) < card ({..<n} - fset offsets)"
      by (intro psubset_card_mono) auto
    with Suc.prems show ?thesis by simp
  qed
  with Suc.IH show ?case by (auto split: option.split)
qed simp

text \<open>What was passed over, and what is selected, were candidates, and the answer is the candidate
  that remains when they are left out.\<close>

lemma insert_key_iff: "k |\<in>| insert_key key keys \<longleftrightarrow> key = Some k \<or> k |\<in>| keys"
  by (auto simp: insert_key_def split: option.split)

lemma pick_answer:
  assumes "pick fuel cand key delayed terminal offsets keys passed late = Some (r, passed', late')"
    and "\<forall>offs ks off. cand offs ks = Some off \<longrightarrow> good off \<and> off |\<notin>| offs"
    and "set passed \<subseteq> fset offsets" "set late \<subseteq> fset offsets" "distinct passed"
  shows "\<exists>offs ks. cand offs ks = r \<and> fset offs = fset offsets \<union> set passed' \<union> set late' \<and>
    (\<forall>k. k |\<in>| ks \<longrightarrow> k |\<in>| keys \<or> (\<exists>off \<in> set late'. key off = Some k)) \<and>
    (\<forall>off \<in> set passed' - set passed. good off \<and> terminal off \<and> \<not> delayed off \<and> off |\<notin>| offsets) \<and>
    (\<forall>off \<in> set late' - set late. delayed off) \<and>
    set passed \<subseteq> set passed' \<and> set late \<subseteq> set late' \<and> distinct passed' \<and>
    (\<forall>off. r = Some off \<longrightarrow> \<not> delayed off \<and> \<not> terminal off)"
  using assms(1,3-)
proof (induction fuel arbitrary: offsets keys passed late)
  case (Suc fuel)
  show ?case
  proof (cases "cand offsets keys")
    case None
    with Suc.prems show ?thesis by (intro exI [of _ offsets] exI [of _ keys]) auto
  next
    case (Some off)
    note g = assms(2) [rule_format, OF Some]
    consider "delayed off" | "\<not> delayed off" "terminal off" | "\<not> delayed off" "\<not> terminal off" by blast
    then show ?thesis
    proof cases
      case 1
      with Suc.prems Some have run: "pick fuel cand key delayed terminal (finsert off offsets) (insert_key (key off) keys) passed (late @ [off]) = Some (r, passed', late')"
        by simp
      have "set passed \<subseteq> fset (finsert off offsets)" "set (late @ [off]) \<subseteq> fset (finsert off offsets)"
        using Suc.prems by auto
      from Suc.IH [OF run this Suc.prems(4)] obtain offs ks where
        "cand offs ks = r" "fset offs = fset (finsert off offsets) \<union> set passed' \<union> set late'"
        "\<forall>k. k |\<in>| ks \<longrightarrow> k |\<in>| insert_key (key off) keys \<or> (\<exists>off \<in> set late'. key off = Some k)"
        "\<forall>o' \<in> set passed' - set passed. good o' \<and> terminal o' \<and> \<not> delayed o' \<and> o' |\<notin>| finsert off offsets"
        "\<forall>o' \<in> set late' - set (late @ [off]). delayed o'"
        "set passed \<subseteq> set passed'" "set (late @ [off]) \<subseteq> set late'" "distinct passed'"
        "\<forall>off. r = Some off \<longrightarrow> \<not> delayed off \<and> \<not> terminal off"
        by (elim exE conjE)
      then show ?thesis
        using 1 by (intro exI [of _ offs] exI [of _ ks]) (auto simp: insert_key_iff)
    next
      case 2
      with Suc.prems Some have run: "pick fuel cand key delayed terminal (finsert off offsets) keys (passed @ [off]) late = Some (r, passed', late')"
        by simp
      have "set (passed @ [off]) \<subseteq> fset (finsert off offsets)" "set late \<subseteq> fset (finsert off offsets)" "distinct (passed @ [off])"
        using Suc.prems g by auto
      from Suc.IH [OF run this] obtain offs ks where
        "cand offs ks = r" "fset offs = fset (finsert off offsets) \<union> set passed' \<union> set late'"
        "\<forall>k. k |\<in>| ks \<longrightarrow> k |\<in>| keys \<or> (\<exists>off \<in> set late'. key off = Some k)"
        "\<forall>o' \<in> set passed' - set (passed @ [off]). good o' \<and> terminal o' \<and> \<not> delayed o' \<and> o' |\<notin>| finsert off offsets"
        "\<forall>o' \<in> set late' - set late. delayed o'"
        "set (passed @ [off]) \<subseteq> set passed'" "set late \<subseteq> set late'" "distinct passed'"
        "\<forall>off. r = Some off \<longrightarrow> \<not> delayed off \<and> \<not> terminal off"
        by (elim exE conjE)
      then show ?thesis
        using 2 g by (intro exI [of _ offs] exI [of _ ks]) auto
    next
      case 3
      with Suc.prems Some have "r = Some off" "passed' = passed" "late' = late" by auto
      with 3 Suc.prems Some show ?thesis by (intro exI [of _ offsets] exI [of _ keys]) auto
    qed
  qed
qed simp

section \<open>The searches refine it\<close>

text \<open>The states a search passes through differ in their retry schedules only.\<close>

definition retries_added :: "log_entry list \<Rightarrow> consumer_state \<Rightarrow> offset list \<Rightarrow> consumer_state \<Rightarrow> bool" where
  "retries_added es s D s1 \<longleftrightarrow>
     s1 = s\<lparr>retry_not_before := retry_not_before s1\<rparr> \<and>
     (\<forall>off. if off \<in> set D
            then \<exists>r. fmlookup (retry_not_before s1) off = Some r \<and> rs_key r = le_key (es ! off)
            else fmlookup (retry_not_before s1) off = fmlookup (retry_not_before s) off)"

lemma retries_added_refl [simp]: "retries_added es s [] s"
  by (simp add: retries_added_def)

lemma retries_added_scheduled:
  "retries_added es s D s1 \<Longrightarrow> rs_key r = le_key (es ! off) \<Longrightarrow> retries_added es s (D @ [off]) (scheduled off r s1)"
proof -
  assume a: "retries_added es s D s1" and k: "rs_key r = le_key (es ! off)"
  from a have "s1 = s\<lparr>retry_not_before := retry_not_before s1\<rparr>" by (simp add: retries_added_def)
  then have "scheduled off r s1 = s\<lparr>retry_not_before := retry_not_before (scheduled off r s1)\<rparr>"
    unfolding scheduled_def by (cases s; cases s1) simp
  moreover have "fmlookup (retry_not_before s1) o' = fmlookup (retry_not_before s) o'" if "o' \<notin> set D" for o'
    using a that by (auto simp: retries_added_def split: if_splits)
  moreover have "\<exists>q. fmlookup (retry_not_before s1) o' = Some q \<and> rs_key q = le_key (es ! o')" if "o' \<in> set D" for o'
    using a that by (auto simp: retries_added_def split: if_splits)
  ultimately show "retries_added es s (D @ [off]) (scheduled off r s1)"
    using k unfolding retries_added_def by auto
qed

lemma retries_added_sel:
  assumes "retries_added es s D s1"
  shows "committed_offset s1 = committed_offset s" "acknowledged_offsets s1 = acknowledged_offsets s"
    "delivery_attempts s1 = delivery_attempts s" "cs_policy s1 = cs_policy s" "delivery_policies s1 = delivery_policies s"
    "attempts_of s1 off = attempts_of s off" "policy_for_offset off legacy s1 = policy_for_offset off legacy s"
    "settled s1 off = settled s off" "cs_stream s1 = cs_stream s" "cs_consumer s1 = cs_consumer s"
proof -
  have s1: "s1 = s\<lparr>retry_not_before := retry_not_before s1\<rparr>" using assms by (simp add: retries_added_def)
  show "committed_offset s1 = committed_offset s" "acknowledged_offsets s1 = acknowledged_offsets s"
    "delivery_attempts s1 = delivery_attempts s" "cs_policy s1 = cs_policy s" "delivery_policies s1 = delivery_policies s"
    "attempts_of s1 off = attempts_of s off" "policy_for_offset off legacy s1 = policy_for_offset off legacy s"
    "settled s1 off = settled s off" "cs_stream s1 = cs_stream s" "cs_consumer s1 = cs_consumer s"
    by (subst s1, simp add: attempts_of_def policy_for_offset_def settled_def split: option.split)+
qed

lemma retries_added_delays:
  assumes "retries_added es s D s1" "off \<notin> set D"
  shows "delays legacy s1 off = delays legacy s off"
  using assms(2) assms(1) [unfolded retries_added_def] retries_added_sel [OF assms(1)] by (auto simp: delays_def fmlookup_dom_iff)

lemma retries_added_candidate:
  "retries_added es s D s1 \<Longrightarrow> next_candidate consumer es s1 ds offsets keys = next_candidate consumer es s ds offsets keys"
  by (simp add: next_candidate_def retries_added_sel)

text \<open>The reference search for a consumer's state and the deliveries in flight.\<close>

definition is_terminal :: "consumer_policy \<Rightarrow> bool \<Rightarrow> consumer_state \<Rightarrow> offset \<Rightarrow> bool" where
  "is_terminal legacy dead_letter s off \<longleftrightarrow>
     \<not> dead_letter \<and> (\<exists>p. policy_for_offset off legacy s = Inr p \<and> exhausted p (attempts_of s off))"

definition selection ::
  "nat \<Rightarrow> consumer_policy \<Rightarrow> bool \<Rightarrow> string \<Rightarrow> log_entry list \<Rightarrow> consumer_state \<Rightarrow> delivery_state \<Rightarrow>
   offset fset \<Rightarrow> string fset \<Rightarrow> offset list \<Rightarrow> offset list \<Rightarrow> (offset option \<times> offset list \<times> offset list) option" where
  "selection fuel legacy dead_letter consumer es s ds offsets keys passed late =
     pick fuel (next_candidate consumer es s ds) (\<lambda>off. le_key (es ! off))
       (\<lambda>off. get_in_flight consumer off ds = None \<and> delays legacy s off) (is_terminal legacy dead_letter s)
       offsets keys passed late"

lemma selection_Suc:
  "selection (Suc fuel) legacy dead_letter consumer es s ds offsets keys passed late =
     (case next_candidate consumer es s ds offsets keys of
        None \<Rightarrow> Some (None, passed, late)
      | Some off \<Rightarrow>
          if get_in_flight consumer off ds = None \<and> delays legacy s off
          then selection fuel legacy dead_letter consumer es s ds (finsert off offsets) (insert_key (le_key (es ! off)) keys) passed (late @ [off])
          else if is_terminal legacy dead_letter s off
          then selection fuel legacy dead_letter consumer es s ds (finsert off offsets) keys (passed @ [off]) late
          else Some (Some off, passed, late))"
  by (simp add: selection_def split: option.split)

text \<open>What a search returns for the reference's answer, in the state it leaves.\<close>

definition choice_for ::
  "consumer_policy \<Rightarrow> log_entry list \<Rightarrow> consumer_state \<Rightarrow> consumer_state \<Rightarrow>
   (offset option \<times> offset list \<times> offset list) option \<Rightarrow> poll_choice run \<Rightarrow> bool" where
  "choice_for legacy es s0 s sel r \<longleftrightarrow>
     (case sel of
        None \<Rightarrow> r = OutOfFuel
      | Some (None, passed, late) \<Rightarrow>
          retries_added es s0 late s \<and> r = Done (NoCandidate s (map (entry_index es) passed))
      | Some (Some off, passed, late) \<Rightarrow>
          retries_added es s0 late s \<and>
          (\<exists>p. policy_for_offset off legacy s = Inr p \<and>
             r = Done (Selected s (map (entry_index es) passed) (entry_index es off) (attempts_of s off) p)))"

context request_env
begin

lemma hoare_is_dead_letter:
  "hoare (alive s F) (stream_is_dead_letter stream) (\<lambda>b se. b = dead_letter \<and> alive s F se) R"
  using env_dead_letter by (auto simp: hoare_def stream_is_dead_letter_def reads_def live_def durable_def)

lemma hoare_poll_loop:
  assumes ctx: ctx_ok and ds: "ds_wf ds"
    and added: "retries_added es s0 late s" "set late \<subseteq> fset offsets"
  shows "hoare (alive s (same_flights consumer ds))
    (poll_loop cdc ho stream consumer legacy fuel offsets keys (map (entry_index es) passed) s)
    (\<lambda>r se. \<exists>s1. choice_for legacy es s0 s1 (selection fuel legacy dead_letter consumer es s0 ds offsets keys passed late) r \<and>
       alive s1 (same_flights consumer ds) se) (\<lambda>_. rest)"
  using added
proof (induction fuel arbitrary: offsets keys passed late s)
  case 0
  then show ?case
    by (auto simp: selection_def choice_for_def intro!: hoare_weaken_pre [OF hoare_return])
next
  case (Suc fuel)
  let ?F = "same_flights consumer ds"
  let ?Q = "\<lambda>r se. \<exists>s1. choice_for legacy es s0 s1 (selection (Suc fuel) legacy dead_letter consumer es s0 ds offsets keys passed late) r \<and> alive s1 ?F se"
  have cand: "hoare (alive s ?F) (find_candidate_excluding consumer (committed_offset s) (acknowledged_offsets s) offsets keys)
      (\<lambda>found se. found = map_option (entry_index es) (next_candidate consumer es s0 ds offsets keys) \<and> alive s ?F se) (\<lambda>_. rest)"
    unfolding retries_added_candidate [OF Suc.prems(1), symmetric]
    by (rule hoare_candidate [OF ctx]) (use ds in auto)
  show ?case
  proof (cases "next_candidate consumer es s0 ds offsets keys")
    case None
    then have "choice_for legacy es s0 s (selection (Suc fuel) legacy dead_letter consumer es s0 ds offsets keys passed late)
        (Done (NoCandidate s (map (entry_index es) passed)))"
      using Suc.prems(1) by (simp add: selection_Suc choice_for_def)
    then have "hoare (alive s ?F) (return_op (Done (NoCandidate s (map (entry_index es) passed)))) ?Q (\<lambda>_. rest)"
      by (intro hoare_weaken_pre [OF hoare_return]) blast
    with None show ?thesis
      by (simp, intro hoare_and_then [OF cand] hoare_fact) simp
  next
    case (Some off)
    note facts = next_candidate_Some [OF ds Some]
    have idx: "ri_offset (entry_index es off) = off"
      using ctx entries_okD [OF log_okD(1) facts(1)] by auto
    have fresh: "off \<notin> set late" using facts(4) Suc.prems(2) by auto
    note same = retries_added_sel [OF Suc.prems(1)] retries_added_delays [OF Suc.prems(1) fresh]
    have sel: "selection (Suc fuel) legacy dead_letter consumer es s0 ds offsets keys passed late =
        (if delays legacy s off
         then selection fuel legacy dead_letter consumer es s0 ds (finsert off offsets) (insert_key (le_key (es ! off)) keys) passed (late @ [off])
         else if is_terminal legacy dead_letter s off
         then selection fuel legacy dead_letter consumer es s0 ds (finsert off offsets) keys (passed @ [off]) late
         else Some (Some off, passed, late))"
      using facts(3) by (simp add: selection_Suc Some same is_terminal_def)
    let ?tail = "\<lambda>p (delayed, cs1).
            if delayed
            then poll_loop cdc ho stream consumer legacy fuel (finsert off offsets)
                   (insert_key (schedule_key cs1 off) keys) (map (entry_index es) passed) cs1
            else and_then (if exhausted p (attempts_of s off) then stream_is_dead_letter stream else return_op True) (\<lambda>dead_letter.
                 if \<not> dead_letter
                 then poll_loop cdc ho stream consumer legacy fuel (finsert off offsets) keys
                        (map (entry_index es) passed @ [entry_index es off]) cs1
                 else return_op (Done (Selected cs1 (map (entry_index es) passed) (entry_index es off) (attempts_of s off) p)))"
    have later: "hoare (alive (scheduled off r s) ?F) (?tail p (True, scheduled off r s)) ?Q (\<lambda>_. rest)"
      if "delays legacy s off" "rs_key r = le_key (es ! off)" for p r
    proof -
      have "schedule_key (scheduled off r s) off = le_key (es ! off)" using that(2) by (simp add: schedule_key_def)
      moreover have "set (late @ [off]) \<subseteq> fset (finsert off offsets)" using Suc.prems(2) by auto
      ultimately show ?thesis
        using Suc.IH [OF retries_added_scheduled [OF Suc.prems(1) that(2)], of "finsert off offsets"] that(1) by (simp add: sel)
    qed
    have now: "hoare (alive s ?F) (?tail p (False, s)) ?Q (\<lambda>_. rest)"
      if p: "policy_for_offset off legacy s = Inr p" and d: "\<not> delays legacy s off" for p
    proof -
      have stop: "hoare (alive s ?F)
          (return_op (Done (Selected s (map (entry_index es) passed) (entry_index es off) (attempts_of s off) p))) ?Q (\<lambda>_. rest)"
        if "\<not> is_terminal legacy dead_letter s off"
        by (rule hoare_weaken_pre [OF hoare_return])
          (use that p d Suc.prems(1) in \<open>auto simp: sel choice_for_def intro!: exI [of _ s]\<close>)
      have pass: "hoare (alive s ?F)
          (poll_loop cdc ho stream consumer legacy fuel (finsert off offsets) keys
             (map (entry_index es) passed @ [entry_index es off]) s) ?Q (\<lambda>_. rest)"
        if "is_terminal legacy dead_letter s off"
        using Suc.IH [OF Suc.prems(1), of "finsert off offsets" keys "passed @ [off]"] Suc.prems(2) that d
        by (simp add: sel subset_insertI2)
      show ?thesis
      proof (cases "exhausted p (attempts_of s off)")
        case True
        with p have "is_terminal legacy dead_letter s off = (\<not> dead_letter)" by (simp add: is_terminal_def)
        with True stop pass show ?thesis
          by (simp only: prod.case if_True if_False)
            (intro hoare_and_then [OF hoare_is_dead_letter [where s = s and F = ?F]] hoare_fact, auto)
      next
        case False
        with p stop show ?thesis by (simp add: is_terminal_def)
      qed
    qed
    have branch: "hoare (\<lambda>se. policy_for_offset off legacy s = Inr p \<and> alive s ?F se)
        (and_then (delay_orphan cdc ho stream consumer s legacy off) (?tail p)) ?Q (\<lambda>_. rest)" for p
    proof (rule hoare_fact, rule hoare_and_then [OF hoare_delay_orphan [OF ctx]])
      fix x :: "bool \<times> consumer_state"
      assume p: "policy_for_offset off legacy s = Inr p"
      obtain delayed s1 where x: "x = (delayed, s1)" by fastforce
      have go: "hoare (alive s1 ?F) (?tail p (delayed, s1)) ?Q (\<lambda>_. rest)"
        if d: "delayed = (get_in_flight consumer off ds = None \<and> delays legacy s off)"
          and ex: "\<exists>r. s1 = (if delayed then scheduled off r s else s) \<and> (off < length es \<longrightarrow> rs_key r = le_key (es ! off))"
      proof -
        from ex obtain r where r: "s1 = (if delayed then scheduled off r s else s)" "rs_key r = le_key (es ! off)"
          using facts(1) by blast
        show ?thesis
        proof (cases delayed)
          case True
          with r d later [of r p] show ?thesis by simp
        next
          case False
          with r d now [OF p] facts(3) show ?thesis by simp
        qed
      qed
      show "hoare (case x of (delayed, s1) \<Rightarrow> \<lambda>se. delayed = (get_in_flight consumer off ds = None \<and> delays legacy s off) \<and>
          (\<exists>r. s1 = (if delayed then scheduled off r s else s) \<and> (off < length es \<longrightarrow> rs_key r = le_key (es ! off))) \<and>
          alive s1 ?F se) (?tail p x) ?Q (\<lambda>_. rest)"
        unfolding x prod.case by (rule hoare_fact, rule hoare_fact) (rule go [unfolded prod.case])
    qed
    have "hoare (alive s ?F) (and_then (lift_res (policy_for_offset off legacy s)) (\<lambda>p.
        and_then (delay_orphan cdc ho stream consumer s legacy off) (?tail p))) ?Q (\<lambda>_. rest)"
      by (rule hoare_and_then [OF hoare_lift [where s = s and F = ?F] branch])
    then show ?thesis
      by (simp only: poll_loop.simps)
        (rule hoare_and_then [OF cand], rule hoare_fact, simp only: Some option.map option.case Let_def idx)
  qed
qed

end

text \<open>The preflight searches without changing anything: the schedules it would write live in a
  copy of the state, and the expired deliveries are passed over instead of removed.\<close>

definition previewed ::
  "log_entry list \<Rightarrow> consumer_state \<Rightarrow> (offset option \<times> offset list \<times> offset list) option \<Rightarrow> (record_index \<times> nat) option run" where
  "previewed es s sel =
     (case sel of
        None \<Rightarrow> OutOfFuel
      | Some (None, _, _) \<Rightarrow> Done None
      | Some (Some off, _, _) \<Rightarrow> Done (Some (entry_index es off, attempts_of s off)))"

context request_env
begin

lemma hoare_preview_orphan:
  assumes ctx: ctx_ok and ds: "ds_wf ds" and at: "at_ms < u64_max"
    and off: "off < length es" "get_in_flight consumer off (fold (remove_delivery consumer) offs ds) = None"
    and released: "off \<in> set offs \<Longrightarrow> \<not> delays legacy p off"
  shows "hoare (alive s (\<lambda>d. d = ds))
    (and_then (reads (\<lambda>se. is_orphan consumer p off (se_delivery se))) (\<lambda>orphan.
      if orphan then on_log (orphan_retry_schedule p legacy off at_ms) else return_op None))
    (\<lambda>found se. (case found of
        None \<Rightarrow> \<not> delays legacy p off
      | Some r \<Rightarrow> delays legacy p off \<and> rse_offset r = off \<and> rse_key r = le_key (es ! off) \<and> at_ms < rse_not_before_ms r) \<and>
      alive s (\<lambda>d. d = ds) se) (\<lambda>_. rest)" (is "hoare ?P _ ?Q _")
proof (rule hoare_reads_known [where c = "is_orphan consumer p off ds"])
  show "hoare ?P (if is_orphan consumer p off ds then on_log (orphan_retry_schedule p legacy off at_ms) else return_op None)
      ?Q (\<lambda>_. rest)"
  proof (cases "is_orphan consumer p off ds")
    case True
    have log: "log_ok es junk log0" using ctx by simp
    have "hoare ?P (on_log (orphan_retry_schedule p legacy off at_ms)) ?Q (\<lambda>_. rest)"
      by (rule hoare_strengthen_post [OF hoare_log [where s = s and F = "\<lambda>d. d = ds", OF hoare_orphan_schedule [OF log]]])
        (use off at in \<open>auto split: option.splits\<close>)
    with True show ?thesis by simp
  next
    case False
    have "\<not> delays legacy p off"
    proof (cases "off \<in> set offs")
      case True
      then show ?thesis by (rule released)
    next
      case out: False
      with off(2) have "get_in_flight consumer off ds = None" by (simp add: flights.lookup_dels)
      with False show ?thesis by (auto simp: is_orphan_def delays_def)
    qed
    with False show ?thesis by (simp, intro hoare_weaken_pre [OF hoare_return]) simp
  qed
qed simp

lemma hoare_preflight_loop:
  assumes ctx: ctx_ok and ds: "ds_wf ds" and at: "at_ms < u64_max"
    and released: "\<And>off. off \<in> set offs \<Longrightarrow> \<not> delays legacy p0 off"
    and added: "retries_added es p0 late p" "set late \<subseteq> fset offsets"
  shows "hoare (alive s (\<lambda>d. d = ds))
    (preflight_loop stream consumer legacy at_ms dead_letter (fset_of_list offs) fuel offsets keys p)
    (\<lambda>r se. r = previewed es p0 (selection fuel legacy dead_letter consumer es p0
         (fold (remove_delivery consumer) offs ds) offsets keys passed late) \<and>
       alive s (\<lambda>d. d = ds) se) (\<lambda>_. rest)"
  using added
proof (induction fuel arbitrary: offsets keys passed late p)
  case 0
  then show ?case
    by (auto simp: selection_def previewed_def intro!: hoare_weaken_pre [OF hoare_return])
next
  case (Suc fuel)
  let ?ds = "fold (remove_delivery consumer) offs ds" and ?P = "alive s (\<lambda>d. d = ds)"
  let ?Q = "\<lambda>r se. r = previewed es p0 (selection (Suc fuel) legacy dead_letter consumer es p0 ?ds offsets keys passed late) \<and> ?P se"
  have ds1: "ds_wf ?ds" using ds by (rule flights.inv_dels)
  note cand = hoare_candidate_released [OF ctx refl, where p = p and offs = offs and s = s and ds = ds,
      unfolded retries_added_candidate [OF Suc.prems(1)], of offsets keys]
  show ?case
  proof (cases "next_candidate consumer es p0 ?ds offsets keys")
    case None
    then show ?thesis
      by (simp, intro hoare_and_then [OF cand] hoare_fact)
        (auto simp: selection_Suc previewed_def intro!: hoare_weaken_pre [OF hoare_return])
  next
    case (Some off)
    note facts = next_candidate_Some [OF ds1 Some]
    have idx: "ri_offset (entry_index es off) = off"
      using ctx entries_okD [OF log_okD(1) facts(1)] by auto
    have fresh: "off \<notin> set late" using facts(4) Suc.prems(2) by auto
    note same = retries_added_sel [OF Suc.prems(1)] retries_added_delays [OF Suc.prems(1) fresh]
    have sel: "selection (Suc fuel) legacy dead_letter consumer es p0 ?ds offsets keys passed late =
        (if delays legacy p off
         then selection fuel legacy dead_letter consumer es p0 ?ds (finsert off offsets) (insert_key (le_key (es ! off)) keys) passed (late @ [off])
         else if is_terminal legacy dead_letter p off
         then selection fuel legacy dead_letter consumer es p0 ?ds (finsert off offsets) keys (passed @ [off]) late
         else Some (Some off, passed, late))"
      using facts(3) by (simp add: selection_Suc Some same is_terminal_def)
    let ?tail = "\<lambda>policy schedule.
            case (case schedule of Some r \<Rightarrow> if rse_not_before_ms r > at_ms then Some r else None | None \<Rightarrow> None) of
              Some r \<Rightarrow>
                preflight_loop stream consumer legacy at_ms dead_letter (fset_of_list offs) fuel
                  (finsert (rse_offset r) offsets) (insert_key (rse_key r) keys)
                  (p\<lparr>retry_not_before := fmupd (rse_offset r) (schedule_of r) (retry_not_before p)\<rparr>)
            | None \<Rightarrow>
                if exhausted policy (attempts_of p off) \<and> \<not> dead_letter
                then preflight_loop stream consumer legacy at_ms dead_letter (fset_of_list offs) fuel
                       (finsert off offsets) keys p
                else return_op (Done (Some (entry_index es off, attempts_of p off)))"
    have go: "hoare ?P (?tail policy schedule) ?Q (\<lambda>_. rest)"
      if policy: "policy_for_offset off legacy p = Inr policy"
        and found: "case schedule of
        None \<Rightarrow> \<not> delays legacy p off
      | Some r \<Rightarrow> delays legacy p off \<and> rse_offset r = off \<and> rse_key r = le_key (es ! off) \<and> at_ms < rse_not_before_ms r"
      for policy schedule
    proof (cases schedule)
      case (Some r)
      have "set (late @ [off]) \<subseteq> fset (finsert off offsets)" using Suc.prems(2) by auto
      then show ?thesis
        using Suc.IH [OF retries_added_scheduled [OF Suc.prems(1), of "schedule_of r" off], of "finsert off offsets"] found
        by (simp add: Some sel scheduled_def schedule_of_def)
    next
      case None
      have final: "is_terminal legacy dead_letter p off \<longleftrightarrow> exhausted policy (attempts_of p off) \<and> \<not> dead_letter"
        using policy by (auto simp: is_terminal_def)
      have sub: "set late \<subseteq> fset (finsert off offsets)" using Suc.prems(2) by auto
      show ?thesis
      proof (cases "exhausted policy (attempts_of p off) \<and> \<not> dead_letter")
        case True
        with sel found final None have "selection (Suc fuel) legacy dead_letter consumer es p0 ?ds offsets keys passed late =
            selection fuel legacy dead_letter consumer es p0 ?ds (finsert off offsets) keys (passed @ [off]) late"
          by simp
        with Suc.IH [OF Suc.prems(1) sub, of keys "passed @ [off]"] True None show ?thesis by simp
      next
        case False
        then have "hoare ?P (return_op (Done (Some (entry_index es off, attempts_of p off)))) ?Q (\<lambda>_. rest)"
          by (intro hoare_weaken_pre [OF hoare_return]) (use found final None in \<open>auto simp: sel previewed_def same\<close>)
        with False show ?thesis by (simp only: None option.case if_False)
      qed
    qed
    have orphan: "hoare ?P (and_then (reads (\<lambda>se. is_orphan consumer p off (se_delivery se))) (\<lambda>orphan.
        and_then (if orphan then on_log (orphan_retry_schedule p legacy off at_ms) else return_op None) (?tail policy))) ?Q (\<lambda>_. rest)"
      if "policy_for_offset off legacy p = Inr policy" for policy
      unfolding and_then_assoc [symmetric]
      by (rule hoare_and_then [OF hoare_preview_orphan [OF ctx ds at facts(1,3)]])
        (use released same in simp, rule hoare_fact, rule go [OF that])
    have "hoare ?P (and_then (lift_res (policy_for_offset off legacy p)) (\<lambda>policy.
        and_then (reads (\<lambda>se. is_orphan consumer p off (se_delivery se))) (\<lambda>orphan.
        and_then (if orphan then on_log (orphan_retry_schedule p legacy off at_ms) else return_op None) (?tail policy)))) ?Q (\<lambda>_. rest)"
      by (rule hoare_and_then [OF hoare_lift [where s = s and F = "\<lambda>d. d = ds"]], rule hoare_fact, rule orphan)
    then show ?thesis
      by (simp only: preflight_loop.simps)
        (rule hoare_and_then [OF cand], rule hoare_fact, simp only: Some option.map option.case Let_def idx)
  qed
qed

end

end
