(* ===== verification/Broker_Deliveries.thy ===== *)
theory Broker_Deliveries
  imports Broker_Polls
begin

text \<open>
  What a scalar poll answers. A message is the record its lease names: either a lease the member
  already held, or the lowest record that nothing withholds, leased and with its attempt durable.
  An empty answer means that every record is withheld: settled, in flight, waiting for its retry, or
  behind an unfinished record with its key.
\<close>

section \<open>Withheld records\<close>

definition withheld :: "string \<Rightarrow> log_entry list \<Rightarrow> consumer_state \<Rightarrow> delivery_state \<Rightarrow> offset \<Rightarrow> bool" where
  "withheld consumer es s ds off \<longleftrightarrow>
     settled s off \<or> get_in_flight consumer off ds \<noteq> None \<or> off |\<in>| fmdom (retry_not_before s) \<or>
     (\<exists>k other. le_key (es ! off) = Some k \<and>
        ((\<exists>d. get_in_flight consumer other ds = Some d \<and> if_key d = Some k) \<or>
         (\<exists>r. fmlookup (retry_not_before s) other = Some r \<and> rs_key r = Some k)))"

lemma find_upt_least:
  assumes "find P [c..<n] = r" "c \<le> i" "i < n" "\<And>off. r = Some off \<Longrightarrow> i < off"
  shows "\<not> P i"
proof (cases r)
  case None
  with assms show ?thesis by (auto simp: find_None_iff)
next
  case (Some off)
  with assms(1) obtain j where j: "j < length [c..<n]" "off = [c..<n] ! j" "\<And>k. k < j \<Longrightarrow> \<not> P ([c..<n] ! k)"
    by (auto simp: find_Some_iff)
  with assms(2,4) Some have "i - c < j" by auto
  from j(3) [OF this] this j(1) assms(2) show ?thesis by simp
qed

lemma no_lower_candidate:
  assumes ds: "ds_wf ds" and r: "next_candidate consumer es s ds offs ks = r"
    and i: "i < length es" "\<And>off. r = Some off \<Longrightarrow> i < off"
  shows "settled s i \<or> get_in_flight consumer i ds \<noteq> None \<or> i |\<in>| offs \<or>
    (\<exists>k. le_key (es ! i) = Some k \<and> (k |\<in>| ks \<or> (\<exists>o' d. get_in_flight consumer o' ds = Some d \<and> if_key d = Some k)))"
proof (cases "committed_offset s \<le> i")
  case True
  note F = filter_excluding_offsets [OF ds, of _ consumer "{||}"] filter_excluding_keys [OF ds, of _ consumer "{||}"]
  from find_upt_least [OF r [unfolded next_candidate_def first_eligible_def] True i] F show ?thesis
    by (auto simp: eligible_def settled_def split: option.splits)
qed (simp add: settled_def)

text \<open>After acknowledging what the search passed as exhausted, everything below its answer is withheld.\<close>

lemma fold_acknowledge_sel:
  assumes "cs_wf s" "list_all (\<lambda>off. off < u64_max) offs" "off \<notin> set offs"
  shows "fmlookup (retry_not_before (fold acknowledge offs s)) off = fmlookup (retry_not_before s) off"
    and "fmlookup (delivery_attempts (fold acknowledge offs s)) off = fmlookup (delivery_attempts s) off"
    and "fmlookup (delivery_policies (fold acknowledge offs s)) off = fmlookup (delivery_policies s) off"
    and "cs_policy (fold acknowledge offs s) = cs_policy s"
  using assms by (induction offs arbitrary: s) auto

lemma search_passed:
  assumes sel: "selection fuel legacy dead_letter consumer es s ds (fst (retry_filter at_ms s)) (snd (retry_filter at_ms s)) [] [] =
      Some (r, passed, late)" and ds: "ds_wf ds"
  shows "\<forall>off \<in> set passed. off < length es \<and> \<not> settled s off \<and> get_in_flight consumer off ds = None \<and> off \<notin> set late \<and>
      off |\<notin>| fst (retry_filter at_ms s) \<and> is_terminal legacy dead_letter s off \<and> r \<noteq> Some off"
    and "\<And>off. r = Some off \<Longrightarrow> off < length es \<and> \<not> settled s off \<and> get_in_flight consumer off ds = None \<and> off \<notin> set late \<and>
      off |\<notin>| fst (retry_filter at_ms s) \<and> \<not> is_terminal legacy dead_letter s off \<and>
      (\<forall>k o' d. le_key (es ! off) = Some k \<longrightarrow> get_in_flight consumer o' ds = Some d \<longrightarrow> if_key d \<noteq> Some k)"
    and "distinct passed" "\<forall>off \<in> set late. delays legacy s off"
    and "\<exists>offs ks. next_candidate consumer es s ds offs ks = r \<and>
      fset offs = fset (fst (retry_filter at_ms s)) \<union> set passed \<union> set late \<and>
      (\<forall>k. k |\<in>| ks \<longrightarrow> k |\<in>| snd (retry_filter at_ms s) \<or> (\<exists>off \<in> set late. le_key (es ! off) = Some k))"
proof -
  have all: "\<forall>offs ks off. next_candidate consumer es s ds offs ks = Some off \<longrightarrow>
      (off < length es \<and> \<not> settled s off \<and> get_in_flight consumer off ds = None) \<and> off |\<notin>| offs"
    using next_candidate_Some [OF ds] by simp
  note good = all [rule_format]
  obtain offs ks where a: "next_candidate consumer es s ds offs ks = r"
    "fset offs = fset (fst (retry_filter at_ms s)) \<union> set passed \<union> set late"
    "\<forall>k. k |\<in>| ks \<longrightarrow> k |\<in>| snd (retry_filter at_ms s) \<or> (\<exists>off \<in> set late. le_key (es ! off) = Some k)"
    "\<forall>off \<in> set passed. (off < length es \<and> \<not> settled s off \<and> get_in_flight consumer off ds = None) \<and>
       is_terminal legacy dead_letter s off \<and> \<not> (get_in_flight consumer off ds = None \<and> delays legacy s off) \<and>
       off |\<notin>| fst (retry_filter at_ms s)"
    "\<forall>off \<in> set late. get_in_flight consumer off ds = None \<and> delays legacy s off"
    "distinct passed" "\<forall>off. r = Some off \<longrightarrow> \<not> is_terminal legacy dead_letter s off"
  proof -
    have "set [] \<subseteq> fset (fst (retry_filter at_ms s))" "distinct ([] :: offset list)" by simp_all
    note p = pick_answer [where good = "\<lambda>off. off < length es \<and> \<not> settled s off \<and> get_in_flight consumer off ds = None",
        OF sel [unfolded selection_def] all this(1) this]
    from p [unfolded list.set Diff_empty] show thesis
      by (elim exE conjE, intro that) (assumption | blast)+
  qed
  have out: "off |\<notin>| offs" if "r = Some off" for off using good a(1) that by blast
  have mem: "off |\<in>| offs \<longleftrightarrow> off |\<in>| fst (retry_filter at_ms s) \<or> off \<in> set passed \<or> off \<in> set late" for off
    using a(2) by (metis Un_iff)
  from a out mem show "\<forall>off \<in> set passed. off < length es \<and> \<not> settled s off \<and> get_in_flight consumer off ds = None \<and> off \<notin> set late \<and>
      off |\<notin>| fst (retry_filter at_ms s) \<and> is_terminal legacy dead_letter s off \<and> r \<noteq> Some off"
    by blast
  show "off < length es \<and> \<not> settled s off \<and> get_in_flight consumer off ds = None \<and> off \<notin> set late \<and>
      off |\<notin>| fst (retry_filter at_ms s) \<and> \<not> is_terminal legacy dead_letter s off \<and>
      (\<forall>k o' d. le_key (es ! off) = Some k \<longrightarrow> get_in_flight consumer o' ds = Some d \<longrightarrow> if_key d \<noteq> Some k)"
    if r: "r = Some off" for off
    using good [OF a(1) [unfolded r]] next_candidate_Some(5) [OF ds a(1) [unfolded r]] out [OF r] mem a(7) r by blast
  show "distinct passed" "\<forall>off \<in> set late. delays legacy s off" using a(5,6) by blast+
  show "\<exists>offs ks. next_candidate consumer es s ds offs ks = r \<and>
      fset offs = fset (fst (retry_filter at_ms s)) \<union> set passed \<union> set late \<and>
      (\<forall>k. k |\<in>| ks \<longrightarrow> k |\<in>| snd (retry_filter at_ms s) \<or> (\<exists>off \<in> set late. le_key (es ! off) = Some k))"
    using a(1-3) by blast
qed

lemma retries_added_lookup:
  assumes "retries_added es s D s1"
  shows "off \<notin> set D \<Longrightarrow> fmlookup (retry_not_before s1) off = fmlookup (retry_not_before s) off"
    and "off \<in> set D \<Longrightarrow> \<exists>q. fmlookup (retry_not_before s1) off = Some q \<and> rs_key q = le_key (es ! off)"
proof -
  have "if off \<in> set D then \<exists>q. fmlookup (retry_not_before s1) off = Some q \<and> rs_key q = le_key (es ! off)
      else fmlookup (retry_not_before s1) off = fmlookup (retry_not_before s) off"
    using assms by (simp add: retries_added_def)
  then show "off \<notin> set D \<Longrightarrow> fmlookup (retry_not_before s1) off = fmlookup (retry_not_before s) off"
    "off \<in> set D \<Longrightarrow> \<exists>q. fmlookup (retry_not_before s1) off = Some q \<and> rs_key q = le_key (es ! off)"
    by (auto split: if_splits)
qed

lemma search_withheld:
  assumes sel: "selection fuel legacy dead_letter consumer es s ds (fst (retry_filter at_ms s)) (snd (retry_filter at_ms s)) [] [] =
      Some (r, passed, late)" and ds: "ds_wf ds"
    and added: "retries_added es s late s1" and wf: "cs_wf s1" and below: "length es \<le> u64_max"
    and i: "i < length es" "\<And>off. r = Some off \<Longrightarrow> i < off"
    and t: "t = fold acknowledge passed s1"
  shows "settled t i \<or> get_in_flight consumer i ds \<noteq> None \<or> i |\<in>| fmdom (retry_not_before t) \<or>
    (\<exists>k other. le_key (es ! i) = Some k \<and>
       ((\<exists>d. get_in_flight consumer other ds = Some d \<and> if_key d = Some k) \<or>
        (\<exists>q. r \<noteq> Some other \<and> fmlookup (retry_not_before t) other = Some q \<and> rs_key q = Some k)))"
proof -
  note P = search_passed [OF sel ds]
  have u: "list_all (\<lambda>off. off < u64_max) passed" using P(1) below by (fastforce simp: list_all_iff)
  have set_t: "settled t o' \<longleftrightarrow> settled s o' \<or> o' \<in> set passed" for o'
    using cs_progress.acks_done [OF wf u] retries_added_sel(8) [OF added] by (simp add: t)
  have look: "fmlookup (retry_not_before t) o' = fmlookup (retry_not_before s1) o'" if "o' \<notin> set passed" for o'
    unfolding t by (rule fold_acknowledge_sel [OF wf u that])
  have early: "fmlookup (retry_not_before t) o' = Some q"
    if "fmlookup (retry_not_before s) o' = Some q" "at_ms < rs_not_before_ms q" for o' q
  proof -
    have "o' |\<in>| fst (retry_filter at_ms s)" using that by (auto simp: retry_filter_offsets)
    moreover from this that P(1) have "o' \<notin> set passed" by blast
    moreover have "o' \<notin> set late"
      using P(4) that by (auto simp: delays_def fmlookup_dom_iff)
    ultimately show ?thesis using look retries_added_lookup(1) [OF added] that(1) by simp
  qed
  have lates: "\<exists>q. fmlookup (retry_not_before t) o' = Some q \<and> rs_key q = le_key (es ! o')" if "o' \<in> set late" for o'
    using look retries_added_lookup(2) [OF added that] P(1) that by metis
  obtain offs ks where ans: "next_candidate consumer es s ds offs ks = r"
    "fset offs = fset (fst (retry_filter at_ms s)) \<union> set passed \<union> set late"
    "\<forall>k. k |\<in>| ks \<longrightarrow> k |\<in>| snd (retry_filter at_ms s) \<or> (\<exists>off \<in> set late. le_key (es ! off) = Some k)"
    using P(5) by blast
  have offs: "settled t i \<or> i |\<in>| fmdom (retry_not_before t)" if "i |\<in>| offs"
  proof -
    from that ans(2) have "i |\<in>| fst (retry_filter at_ms s) \<or> i \<in> set passed \<or> i \<in> set late" by (metis Un_iff)
    then show ?thesis
      using set_t early lates [of i] by (force simp: retry_filter_offsets fmlookup_dom_iff)
  qed
  have keys: "\<exists>other q. r \<noteq> Some other \<and> fmlookup (retry_not_before t) other = Some q \<and> rs_key q = Some k" if "k |\<in>| ks" for k
  proof -
    from that ans(3) consider "k |\<in>| snd (retry_filter at_ms s)" | off where "off \<in> set late" "le_key (es ! off) = Some k" by blast
    then show ?thesis
    proof cases
      case 1
      then obtain other q where "fmlookup (retry_not_before s) other = Some q" "at_ms < rs_not_before_ms q" "rs_key q = Some k"
        by (auto simp: retry_filter_keys)
      moreover from this have "r \<noteq> Some other" using P(2) by (auto simp: retry_filter_offsets)
      ultimately show ?thesis using early by blast
    next
      case 2
      with lates P(2) show ?thesis by metis
    qed
  qed
  from no_lower_candidate [OF ds ans(1) i] set_t offs keys show ?thesis by blast
qed

section \<open>A lease\<close>

definition new_lease :: "string \<Rightarrow> offset \<Rightarrow> string option \<Rightarrow> nat \<Rightarrow> string \<Rightarrow> instant \<Rightarrow> in_flight" where
  "new_lease member off key attempt token deadline =
     \<lparr>if_member = member, if_offset = off, if_key = key, if_delivery_attempt = attempt,
      if_delivery_token = token, if_requires_receipt = False, if_deadline = deadline\<rparr>"

lemma insertable_iff:
  assumes "ds_wf ds"
  shows "insertable consumer d ds \<longleftrightarrow> get_in_flight consumer (if_offset d) ds = None \<and>
    (\<forall>k o' d'. if_key d = Some k \<longrightarrow> get_in_flight consumer o' ds = Some d' \<longrightarrow> if_key d' \<noteq> Some k)"
  using assms by (auto simp: insertable_def ds_wf_defs)

context request_env
begin

lemma hoare_fix: "(\<And>v. hoare (\<lambda>s. P s \<and> f s = v) m Q R) \<Longrightarrow> hoare P m Q R"
  by (simp add: hoare_def)

lemma hoare_lease:
  assumes off: "off < length es" "\<not> settled s off" "get_in_flight consumer off ds = None"
    and keys: "\<forall>k o' d. le_key (es ! off) = Some k \<longrightarrow> get_in_flight consumer o' ds = Some d \<longrightarrow> if_key d \<noteq> Some k"
    and attempt: "attempt = saturating_add32 (attempts_of s off) 1"
    and t: "t = assign_attempt off attempt policy s"
  shows "hoare (alive s (same_flights consumer ds))
    (and_then (persist_event cdc stream consumer s (DeliveryAttempt \<lparr>da_offset = off, da_attempt = attempt, da_policy = policy\<rparr>)) (\<lambda>_.
     and_then (if attempt > 1 then on_broker (modify count_redelivery) else return_op ()) (\<lambda>_.
     and_then (on_broker instant_now) (\<lambda>now.
     and_then (change_delivery (insert_in_flight consumer (new_lease member off (le_key (es ! off)) attempt token (now + wait)))) (\<lambda>_.
     and_then (cache_state ho consumer t) (\<lambda>_.
     notify_waiters))))))
    (\<lambda>_. alive t (\<lambda>ds'. \<exists>deadline. same_flights consumer
        (insert_in_flight consumer (new_lease member off (le_key (es ! off)) attempt token deadline) ds) ds')) (\<lambda>_. rest)"
proof (rule hoare_alive)
  assume wf: "cs_wf s" and u: "attempts_u32 s"
  let ?A = "known_attempts (length es) s" and ?F = "same_flights consumer ds"
  let ?d = "new_lease member off (le_key (es ! off)) attempt token"
  let ?G = "\<lambda>ds'. \<exists>deadline. same_flights consumer (insert_in_flight consumer (?d deadline) ds) ds'"
  let ?ev = "DeliveryAttempt \<lparr>da_offset = off, da_attempt = attempt, da_policy = policy\<rparr>"
  have pos: "attempt \<noteq> 0" "attempt \<le> u32_max" using attempt by (auto simp: saturating_add32_def)
  have ev: "apply_event ?ev s = Inr t" and eb: "event_bounded ?ev"
    using assign_attempt_event [OF u off(2) attempt] pos t by (simp_all add: event_bounded_def)
  have pers: "hoare (alive s ?F) (persist_event cdc stream consumer s ?ev) (\<lambda>_. written ?A t ?F) (\<lambda>_. rest)"
    by (rule hoare_persist_event [OF eb ev])
      (use u pos in \<open>auto simp: attempts_u32_def settled_def t assign_attempt_def\<close>)
  have count: "hoare (written ?A t ?F) (if attempt > 1 then on_broker (modify count_redelivery) else return_op ())
      (\<lambda>_. written ?A t ?F) (\<lambda>_. rest)"
  proof (cases "attempt > 1")
    case True
    then show ?thesis by (simp only: if_True) (rule hoare_count(1) [where s = t and F = ?F])
  next
    case False
    then show ?thesis by (simp only: if_False) (rule hoare_weaken_pre [OF hoare_return])
  qed
  have ins: "hoare (written ?A t ?F) (change_delivery (insert_in_flight consumer (?d deadline)))
      (\<lambda>_. written (insert off ?A) t ?G) (\<lambda>_. rest)" for deadline
  proof -
    have free: "insertable consumer (?d deadline) ds'" if "?F ds' \<and> ds_wf ds'" for ds'
      using that off(3) keys by (auto simp: insertable_iff new_lease_def same_flights_def)
    have "hoare (written ?A t (\<lambda>ds'. ?F ds' \<and> ds_wf ds')) (change_delivery (insert_in_flight consumer (?d deadline)))
        (\<lambda>_. written (insert (if_offset (?d deadline)) ?A) t (\<lambda>ds'. \<exists>ds1. (?F ds1 \<and> ds_wf ds1) \<and>
           ds' = insert_in_flight consumer (?d deadline) ds1)) (\<lambda>_. rest)"
      by (rule hoare_insert) (rule free)
    then show ?thesis
      by (rule hoare_weaken_pre [OF hoare_strengthen_post])
        (auto simp: durable_def new_lease_def same_flights_def get_in_flight_insert)
  qed
  have cache: "hoare (written (insert off ?A) t ?G) (cache_state ho consumer t) (\<lambda>_. alive t ?G) (\<lambda>_. rest)"
    by (rule hoare_cache) (use off in \<open>auto simp: known_attempts_def t assign_attempt_def\<close>)
  show ?thesis
    by (rule hoare_and_then [OF pers], rule hoare_and_then [OF count],
        rule hoare_and_then [OF hoare_instant(2) [where A = ?A and s = t and F = ?F]],
        rule hoare_and_then [OF ins], rule hoare_and_then [OF cache],
        rule hoare_notify [where s = t and F = ?G])
qed

lemma hoare_deliver_candidate:
  assumes ctx: ctx_ok and off: "off < length es" "\<not> settled s off" "get_in_flight consumer off ds = None"
    and keys: "\<forall>k o' d. le_key (es ! off) = Some k \<longrightarrow> get_in_flight consumer o' ds = Some d \<longrightarrow> if_key d \<noteq> Some k"
    and passed: "\<forall>o' \<in> set passed. o' < length es \<and> get_in_flight consumer o' ds = None \<and> o' \<noteq> off"
    and attempt: "attempt = saturating_add32 (attempts_of s off) 1"
    and t: "t = assign_attempt off attempt policy (fold acknowledge passed s)"
  shows "hoare (alive s (same_flights consumer ds))
    (deliver_candidate cdc ho stream consumer member s (map (entry_index es) passed) (entry_index es off) attempt policy token)
    (\<lambda>_. alive t (\<lambda>ds'. \<exists>deadline. same_flights consumer
        (insert_in_flight consumer (new_lease member off (le_key (es ! off)) attempt token deadline) ds) ds')) (\<lambda>_. rest)"
proof (rule hoare_alive)
  assume wf: "cs_wf s" and u: "attempts_u32 s"
  let ?s1 = "fold acknowledge passed s" and ?F = "same_flights consumer ds"
  let ?d = "new_lease member off (le_key (es ! off)) attempt token"
  let ?G = "\<lambda>ds'. \<exists>deadline. same_flights consumer (insert_in_flight consumer (?d deadline) ds) ds'"
  have idx: "ri_offset (entry_index es o') = o'" "ri_key (entry_index es o') = le_key (es ! o')" if "o' < length es" for o'
    using ctx entries_okD [OF log_okD(1) that] by auto
  have pidx: "map ri_offset (map (entry_index es) passed) = passed"
    using passed idx(1) by (auto intro: map_idI)
  have pu: "list_all (\<lambda>off. off < u64_max) passed" using passed entries_below [OF ctx] by (auto simp: list_all_iff)
  have out: "off \<notin> set passed" using passed by auto
  note kept = fold_acknowledge_sel [OF wf pu out]
  have wf1: "cs_wf ?s1" by (rule cs_progress.acks_wf [OF wf pu])
  have un1: "\<not> settled ?s1 off" using cs_progress.acks_done [OF wf pu] off(2) out by simp
  have at1: "attempts_of ?s1 off = attempts_of s off" using kept by (simp add: attempts_of_def)
  have pend: "hoare (alive s ?F) (persist_pending_dead_letters cdc ho stream consumer (map (entry_index es) passed) s)
      (\<lambda>s1 se. s1 = fold acknowledge (map ri_offset (map (entry_index es) passed)) s \<and> alive s1 ?F se) (\<lambda>_. rest)"
    by (rule hoare_pending_dead_letters [OF ctx])
      (use passed idx(1) in \<open>auto simp: same_flights_def\<close>)
  show ?thesis
    unfolding deliver_candidate_def Let_def
    by (rule hoare_and_then [OF pend], rule hoare_fact)
      (simp only: pidx idx [OF off(1)] new_lease_def [symmetric] t,
       rule hoare_lease [OF off(1) un1 off(3) keys _ refl], simp only: at1 attempt)
qed

end

section \<open>The answer of a poll\<close>

definition delivered_ok ::
  "string \<Rightarrow> string \<Rightarrow> string \<Rightarrow> log_entry list \<Rightarrow> bool \<Rightarrow> consumer_policy \<Rightarrow> delivery_state \<Rightarrow>
   consumer_state \<Rightarrow> delivery_state \<Rightarrow> message \<Rightarrow> bool" where
  "delivered_ok stream consumer member es dead_letter legacy ds0 s ds m \<longleftrightarrow>
     (\<exists>off d. off < length es \<and> get_in_flight consumer off ds = Some d \<and> if_member d = member \<and>
        m = with_delivery (if_delivery_token d) (if_delivery_attempt d) (entry_message stream es off) \<and>
        (get_in_flight consumer off ds0 = Some d \<or>
         attempts_of s off = if_delivery_attempt d \<and> (\<forall>o' < off. withheld consumer es s ds o') \<and>
         (dead_letter \<or> (\<exists>p. policy_for_offset off legacy s = Inr p \<and>
            (\<forall>maximum. cp_max_delivery_attempts p = Some maximum \<longrightarrow> if_delivery_attempt d \<le> maximum)))))"

primrec answered ::
  "string \<Rightarrow> string \<Rightarrow> string \<Rightarrow> log_entry list \<Rightarrow> bool \<Rightarrow> consumer_policy \<Rightarrow> delivery_state \<Rightarrow>
   consumer_state \<Rightarrow> delivery_state \<Rightarrow> poll_result \<Rightarrow> bool" where
  "answered stream consumer member es dead_letter legacy ds0 s ds (PollMessage m) =
     delivered_ok stream consumer member es dead_letter legacy ds0 s ds m"
| "answered stream consumer member es dead_letter legacy ds0 s ds PollEmpty =
     (\<forall>off < length es. withheld consumer es s ds off)"

text \<open>The reference search of a poll, with the fuel that the loops are given.\<close>

definition selected ::
  "consumer_policy \<Rightarrow> bool \<Rightarrow> string \<Rightarrow> log_entry list \<Rightarrow> consumer_state \<Rightarrow> delivery_state \<Rightarrow> nat \<Rightarrow>
   (offset option \<times> offset list \<times> offset list) option" where
  "selected legacy dead_letter consumer es s ds at_ms =
     selection (Suc (length es)) legacy dead_letter consumer es s ds
       (fst (retry_filter at_ms s)) (snd (retry_filter at_ms s)) [] []"

lemma selected_returns:
  assumes "ds_wf ds"
  shows "selected legacy dead_letter consumer es s ds at_ms \<noteq> None"
proof -
  have "card ({..<length es} - fset (fst (retry_filter at_ms s))) \<le> card {..<length es}"
    by (intro card_mono) auto
  then have "card ({..<length es} - fset (fst (retry_filter at_ms s))) < Suc (length es)" by simp
  then show ?thesis
    unfolding selected_def selection_def
    using next_candidate_Some [OF assms] by (intro pick_returns [where n = "length es"]) auto
qed

text \<open>A new lease: the message is the lowest record that is not withheld, within its attempts.\<close>

lemma delivered_new:
  assumes sel: "selected legacy dead_letter consumer es s ds at_ms = Some (Some off, passed, late)" and ds: "ds_wf ds"
    and added: "retries_added es s late s1" and wf: "cs_wf s1" and below: "length es \<le> u64_max"
    and policy: "policy_for_offset off legacy s1 = Inr p"
    and attempt: "attempt = saturating_add32 (attempts_of s1 off) 1"
    and t: "t = assign_attempt off attempt p (fold acknowledge passed s1)"
    and flights: "same_flights consumer (insert_in_flight consumer (new_lease member off key attempt token deadline) ds) ds'"
  shows "delivered_ok stream consumer member es dead_letter legacy ds0 t ds' (with_delivery token attempt (entry_message stream es off))"
proof -
  note P = search_passed [OF sel [unfolded selected_def] ds]
  note A = P(2) [OF refl]
  let ?d = "new_lease member off key attempt token deadline" and ?t1 = "fold acknowledge passed s1"
  have got: "get_in_flight consumer o' ds' = (if o' = off then Some ?d else get_in_flight consumer o' ds)" for o'
    using flights by (auto simp: same_flights_def get_in_flight_insert new_lease_def)
  have t_sel: "settled t o' = settled ?t1 o'" "retry_not_before t = fmdrop off (retry_not_before ?t1)" for o'
    by (simp_all add: t assign_attempt_def settled_def)
  have held: "withheld consumer es t ds' o'" if "o' < off" for o'
  proof -
    have w: "settled ?t1 o' \<or> get_in_flight consumer o' ds \<noteq> None \<or> o' |\<in>| fmdom (retry_not_before ?t1) \<or>
      (\<exists>k other. le_key (es ! o') = Some k \<and>
         ((\<exists>d. get_in_flight consumer other ds = Some d \<and> if_key d = Some k) \<or>
          (\<exists>q. Some off \<noteq> Some other \<and> fmlookup (retry_not_before ?t1) other = Some q \<and> rs_key q = Some k)))"
      by (rule search_withheld [OF sel [unfolded selected_def] ds added wf below _ _ refl]) (use A that in auto)
    have fl: "\<exists>d. get_in_flight consumer o2 ds' = Some d \<and> if_key d = Some k"
      if "get_in_flight consumer o2 ds = Some d" "if_key d = Some k" for o2 d k
      using that got A by (cases "o2 = off") auto
    from w consider "settled ?t1 o'" | "get_in_flight consumer o' ds \<noteq> None" | "o' |\<in>| fmdom (retry_not_before ?t1)"
      | k other d where "le_key (es ! o') = Some k" "get_in_flight consumer other ds = Some d" "if_key d = Some k"
      | k other q where "le_key (es ! o') = Some k" "Some off \<noteq> Some other" "fmlookup (retry_not_before ?t1) other = Some q" "rs_key q = Some k"
      by blast
    then show ?thesis
    proof cases
      case 4
      with fl show ?thesis unfolding withheld_def by blast
    next
      case 5
      then have "fmlookup (retry_not_before t) other = Some q" by (simp add: t_sel)
      with 5 show ?thesis unfolding withheld_def by blast
    qed (use that got in \<open>auto simp: withheld_def t_sel\<close>)
  qed
  have pu: "list_all (\<lambda>off. off < u64_max) passed" using P(1) below by (fastforce simp: list_all_iff)
  have out: "off \<notin> set passed" using P(1) by blast
  note kept = fold_acknowledge_sel [OF wf pu out]
  have pol: "policy_for_offset off legacy t = Inr p" "attempts_of t off = attempt"
    using policy kept
    by (auto simp: t assign_attempt_def policy_for_offset_def attempts_of_def or_insert_def split: option.splits if_splits)
  have "dead_letter \<or> (\<forall>maximum. cp_max_delivery_attempts p = Some maximum \<longrightarrow> attempt \<le> maximum)"
    using A retries_added_sel(6,7) [OF added] policy attempt
    by (auto simp: is_terminal_def exhausted_def saturating_add32_def)
  with got [of off] held A pol show ?thesis
    unfolding delivered_ok_def by (intro exI [of _ off] exI [of _ ?d]) (auto simp: new_lease_def)
qed

text \<open>A poll settles a record only by moving it to its dead-letter stream, when its attempts are used up.\<close>

definition progressed :: "consumer_policy \<Rightarrow> bool \<Rightarrow> consumer_state \<Rightarrow> consumer_state \<Rightarrow> bool" where
  "progressed legacy dead_letter s t \<longleftrightarrow>
     (\<forall>off. settled s off \<longrightarrow> settled t off) \<and>
     (\<forall>off. settled t off \<longrightarrow> settled s off \<or> is_terminal legacy dead_letter s off)"

lemma progressed_search:
  assumes sel: "selected legacy dead_letter consumer es s ds at_ms = Some (r, passed, late)" and ds: "ds_wf ds"
    and added: "retries_added es s late s1" and wf: "cs_wf s1" and below: "length es \<le> u64_max"
  shows "progressed legacy dead_letter s (fold acknowledge passed s1)"
    and "progressed legacy dead_letter s (assign_attempt off attempt p (fold acknowledge passed s1))"
proof -
  note P = search_passed(1) [OF sel [unfolded selected_def] ds]
  have u: "list_all (\<lambda>off. off < u64_max) passed" using P below by (fastforce simp: list_all_iff)
  have eq: "settled (fold acknowledge passed s1) x \<longleftrightarrow> settled s x \<or> x \<in> set passed" for x
    using cs_progress.acks_done [OF wf u] retries_added_sel(8) [OF added] by simp
  have assigned: "settled (assign_attempt off attempt p t) x = settled t x" for t x
    by (simp add: assign_attempt_def settled_def)
  show "progressed legacy dead_letter s (fold acknowledge passed s1)"
    "progressed legacy dead_letter s (assign_attempt off attempt p (fold acknowledge passed s1))"
    unfolding progressed_def assigned eq using P by blast+
qed

section \<open>The poll\<close>

lemma released_members:
  assumes ds: "ds_wf ds" and held: "member_deliveries consumer member ds = Inr held"
  shows "find (\<lambda>d. if_offset d |\<notin>| fset_of_list offs) held = None \<longleftrightarrow>
    \<not> (\<exists>off d. get_in_flight consumer off (fold (remove_delivery consumer) offs ds) = Some d \<and> if_member d = member)"
proof -
  obtain fs where fs: "member_deliveries consumer member ds = Inr fs"
    "\<And>d. d \<in> set fs \<longleftrightarrow> (\<exists>off. get_in_flight consumer off ds = Some d) \<and> if_member d = member"
    using member_deliveries_exact [OF ds] by metis
  have own: "if_offset d = off" if "get_in_flight consumer off ds = Some d" for off d
    using ds that by (auto simp: ds_wf_def flights_ok_def)
  show ?thesis
    using fs held own by (auto simp: find_None_iff flights.lookup_dels fset_of_list_elem)
qed

lemma member_delivery_sound:
  assumes ds: "ds_wf ds" and held: "member_delivery consumer member ds = Inr r"
  shows "r = Some d \<Longrightarrow> get_in_flight consumer (if_offset d) ds = Some d \<and> if_member d = member"
    and "r = None \<Longrightarrow> get_in_flight consumer off ds = Some d \<Longrightarrow> if_member d \<noteq> member"
proof -
  obtain fs where fs: "member_deliveries consumer member ds = Inr fs"
    "\<And>d. d \<in> set fs \<longleftrightarrow> (\<exists>off. get_in_flight consumer off ds = Some d) \<and> if_member d = member"
    using member_deliveries_exact [OF ds] by metis
  have own: "if_offset d = off" if "get_in_flight consumer off ds = Some d" for off d
    using ds that by (auto simp: ds_wf_def flights_ok_def)
  from held have r: "r = (case fs of [] \<Rightarrow> None | d # _ \<Rightarrow> Some d)"
    using member_delivery_first [OF ds, of consumer member] fs(1) by (cases fs) auto
  show "get_in_flight consumer (if_offset d) ds = Some d \<and> if_member d = member" if "r = Some d"
  proof -
    from r that have "d \<in> set fs" by (cases fs) auto
    with fs(2) own show ?thesis by auto
  qed
  show "if_member d \<noteq> member" if "r = None" "get_in_flight consumer off ds = Some d"
  proof -
    from r that(1) have "fs = []" by (cases fs) auto
    with fs(2) [of d] that(2) show ?thesis by auto
  qed
qed

context request_env
begin

abbreviation answers :: "consumer_state \<Rightarrow> string \<Rightarrow> poll_result run \<Rightarrow> session \<Rightarrow> bool" where
  "answers s member r se \<equiv> (\<exists>a t. r = Done a \<and> live K cdc stream consumer log0 (length es) ds0 E t se \<and>
     answered stream consumer member es dead_letter legacy ds0 t (se_delivery se) a \<and> progressed legacy dead_letter s t)"

lemma hoare_read_entry:
  assumes ctx: ctx_ok and off: "off < length es"
  shows "hoare (alive s F) (on_log (read_message stream off)) (\<lambda>m se. m = entry_message stream es off \<and> alive s F se) (\<lambda>_. rest)"
  by (rule hoare_reads_log [where s = s and F = F, OF reads_read_message [where junk = junk, OF _ off]]) (use ctx in simp)

lemma length_below: "ctx_ok \<Longrightarrow> length es \<le> u64_max"
  using log_okD(1) [of es junk log0] by (auto simp: entries_ok_def)

lemma hoare_poll_search:
  assumes ctx: ctx_ok and ds: "ds_wf ds"
  shows "hoare (alive s (same_flights consumer ds)) (poll_search cdc ho stream consumer legacy at_ms s)
    (\<lambda>r se. \<exists>s1 ans. selected legacy dead_letter consumer es s ds at_ms = Some ans \<and> choice_for legacy es s s1 (Some ans) r \<and>
       alive s1 (same_flights consumer ds) se) (\<lambda>_. rest)" (is "hoare _ _ ?Q _")
proof -
  have fuel: "Suc (sl_next_offset (se_log se)) = Suc (length es)" if "alive s (same_flights consumer ds) se" for se
    using that ctx log_okD(6) [of es junk log0] by (auto simp: live_def durable_def reading_def)
  obtain ans where ans: "selected legacy dead_letter consumer es s ds at_ms = Some ans"
    using selected_returns [OF ds] by blast
  have "hoare (alive s (same_flights consumer ds)) (poll_loop cdc ho stream consumer legacy (Suc (length es))
      (fst (retry_filter at_ms s)) (snd (retry_filter at_ms s)) (map (entry_index es) []) s) ?Q (\<lambda>_. rest)"
    by (rule hoare_strengthen_post [OF hoare_poll_loop [OF ctx ds retries_added_refl]])
      (use ans in \<open>auto simp: selected_def\<close>)
  then show ?thesis
    unfolding poll_search_def case_prod_beta
    by (intro hoare_reads_known [where c = "Suc (length es)", OF fuel]) simp_all
qed

lemma hoare_poll_empty:
  assumes ctx: ctx_ok and ds: "ds_wf ds"
    and sel: "selected legacy dead_letter consumer es s ds at_ms = Some (None, passed, late)"
    and added: "retries_added es s late s1"
  shows "hoare (alive s1 (same_flights consumer ds))
    (poll_finish cdc ho stream consumer member response_member limit prepared (NoCandidate s1 (map (entry_index es) passed)))
    (answers s member) (\<lambda>_. rest)"
proof (rule hoare_alive)
  assume wf: "cs_wf s1"
  let ?F = "same_flights consumer ds"
  note P = search_passed [OF sel [unfolded selected_def] ds]
  have idx: "ri_offset (entry_index es o') = o'" if "o' < length es" for o'
    using ctx entries_okD [OF log_okD(1) that] by auto
  have pidx: "map ri_offset (map (entry_index es) passed) = passed"
    using P(1) idx by (auto intro: map_idI)
  have pend: "hoare (alive s1 ?F) (persist_pending_dead_letters cdc ho stream consumer (map (entry_index es) passed) s1)
      (\<lambda>t se. t = fold acknowledge passed s1 \<and> alive t ?F se) (\<lambda>_. rest)"
    by (rule hoare_strengthen_post [OF hoare_pending_dead_letters [OF ctx, where F = ?F]])
      (use P(1) idx pidx in \<open>auto simp: same_flights_def\<close>)
  have w: "withheld consumer es (fold acknowledge passed s1) ds' i" if "?F ds'" "i < length es" for ds' i
    using search_withheld [OF sel [unfolded selected_def] ds added wf length_below [OF ctx] that(2) _ refl] that(1)
    unfolding withheld_def same_flights_def by simp
  show "hoare (alive s1 ?F)
    (poll_finish cdc ho stream consumer member response_member limit prepared (NoCandidate s1 (map (entry_index es) passed)))
    (answers s member) (\<lambda>_. rest)"
    unfolding poll_finish.simps
    by (rule hoare_and_then [OF pend], rule hoare_fact, rule hoare_weaken_pre [OF hoare_return])
      (use w progressed_search(1) [OF sel ds added wf length_below [OF ctx]] in auto)
qed

lemma hoare_poll_selected:
  assumes ctx: ctx_ok and ds: "ds_wf ds"
    and sel: "selected legacy dead_letter consumer es s ds at_ms = Some (Some off, passed, late)"
    and added: "retries_added es s late s1" and policy: "policy_for_offset off legacy s1 = Inr p"
    and prepared: "limit \<noteq> None \<Longrightarrow> prepared \<noteq> None"
  shows "hoare (alive s1 (same_flights consumer ds))
    (poll_finish cdc ho stream consumer member response_member limit prepared
      (Selected s1 (map (entry_index es) passed) (entry_index es off) (attempts_of s1 off) p))
    (answers s member) (\<lambda>_. rest)"
proof (rule hoare_alive)
  assume wf: "cs_wf s1"
  let ?F = "same_flights consumer ds" and ?attempt = "saturating_add32 (attempts_of s1 off) 1"
  let ?t = "assign_attempt off ?attempt p (fold acknowledge passed s1)"
  note P = search_passed [OF sel [unfolded selected_def] ds]
  note A = P(2) [OF refl]
  have idx: "ri_offset (entry_index es off) = off"
    using ctx A entries_okD [OF log_okD(1)] by auto
  have un: "\<not> settled s1 off" using A retries_added_sel(8) [OF added] by simp
  have choose: "hoare (alive s1 ?F)
      (if limit = None then and_then (on_broker take_token) (\<lambda>token. return_op (Done token))
       else case prepared of Some (_, token) \<Rightarrow> return_op (Done token)
         | None \<Rightarrow> return_op (Panicked ''bounded scalar poll preflight prepares its selected delivery''))
      (\<lambda>chosen se. (\<exists>token. chosen = Done token) \<and> alive s1 ?F se) (\<lambda>_. rest)"
  proof (cases "limit = None")
    case True
    then show ?thesis
      by (simp only: if_True refl)
        (rule hoare_and_then [OF hoare_token [where s = s1 and F = ?F]], rule hoare_weaken_pre [OF hoare_return], blast)
  next
    case False
    with prepared obtain o' token where "prepared = Some (o', token)" by fastforce
    moreover have "hoare (alive s1 ?F) (return_op (Done token))
        (\<lambda>chosen se. (\<exists>token. chosen = Done token) \<and> alive s1 ?F se) (\<lambda>_. rest)"
      by (rule hoare_weaken_pre [OF hoare_return]) blast
    ultimately show ?thesis using False by (simp only: if_False option.case prod.case)
  qed
  have deliver: "hoare (alive s1 ?F)
      (and_then (lift_res (check_response limit consumer response_member m)) (\<lambda>_.
       and_then (deliver_candidate cdc ho stream consumer member s1 (map (entry_index es) passed) (entry_index es off) ?attempt p token) (\<lambda>_.
       return_op (Done (PollMessage m))))) (answers s member) (\<lambda>_. rest)"
    if m: "m = with_delivery token ?attempt (entry_message stream es off)" for m token
  proof -
    let ?G = "\<lambda>ds'. \<exists>deadline. same_flights consumer
        (insert_in_flight consumer (new_lease member off (le_key (es ! off)) ?attempt token deadline) ds) ds'"
    have lease: "hoare (alive s1 ?F)
        (deliver_candidate cdc ho stream consumer member s1 (map (entry_index es) passed) (entry_index es off) ?attempt p token)
        (\<lambda>_. alive ?t ?G) (\<lambda>_. rest)"
      by (rule hoare_deliver_candidate [OF ctx _ un _ _ _ refl refl]) (use A P(1) in auto)
    have new: "delivered_ok stream consumer member es dead_letter legacy ds0 ?t ds' m" if "?G ds'" for ds'
      using that delivered_new [OF sel ds added wf length_below [OF ctx] policy refl refl] m by blast
    have ret: "hoare (alive ?t ?G) (return_op (Done (PollMessage m))) (answers s member) (\<lambda>_. rest)"
      by (rule hoare_weaken_pre [OF hoare_return], elim conjE, drule new, rule exI [of _ "PollMessage m"], rule exI [of _ ?t])
        (use progressed_search(2) [OF sel ds added wf length_below [OF ctx]] in simp)
    show ?thesis
      by (rule hoare_and_then [OF hoare_lift [where s = s1 and F = ?F]], rule hoare_fact,
          rule hoare_and_then [OF lease ret])
  qed
  have tail: "hoare (alive s1 ?F)
      (and_then (if limit = None then and_then (on_broker take_token) (\<lambda>token. return_op (Done token))
       else case prepared of Some (_, token) \<Rightarrow> return_op (Done token)
         | None \<Rightarrow> return_op (Panicked ''bounded scalar poll preflight prepares its selected delivery'')) (\<lambda>chosen.
     case chosen of
       OutOfFuel \<Rightarrow> return_op OutOfFuel
     | Panicked msg \<Rightarrow> return_op (Panicked msg)
     | Done token \<Rightarrow>
         let attempt = ?attempt; m = with_delivery token attempt (entry_message stream es off)
         in and_then (lift_res (check_response limit consumer response_member m)) (\<lambda>_.
            and_then (deliver_candidate cdc ho stream consumer member s1 (map (entry_index es) passed) (entry_index es off) attempt p token) (\<lambda>_.
            return_op (Done (PollMessage m)))))) (answers s member) (\<lambda>_. rest)"
    by (rule hoare_and_then [OF choose], rule hoare_fact, elim exE) (simp only: run.case Let_def, rule deliver [OF refl])
  have off: "off < length es" using A by simp
  show "hoare (alive s1 ?F)
    (poll_finish cdc ho stream consumer member response_member limit prepared
      (Selected s1 (map (entry_index es) passed) (entry_index es off) (attempts_of s1 off) p))
    (answers s member) (\<lambda>_. rest)"
    unfolding poll_finish.simps idx
    by (rule hoare_and_then [OF hoare_read_entry [where s = s1 and F = ?F, OF ctx off]], rule hoare_fact)
      (simp only:, rule tail)
qed

end

text \<open>An expired delivery of the plan is scheduled where its record has to wait, so that the record is
  not delayed again once it is released.\<close>

lemma insert_schedules_dom:
  "fmdom (retry_not_before (insert_schedules rs s)) = fmdom (retry_not_before s) |\<union>| fset_of_list (map rse_offset rs)"
proof -
  have "fmdom (fold (\<lambda>r. or_insert (rse_offset r) (schedule_of r)) rs m) = fmdom m |\<union>| fset_of_list (map rse_offset rs)" for m
    by (induction rs arbitrary: m) auto
  then show ?thesis by (simp add: insert_schedules_def)
qed

lemma insert_schedules_policy:
  "policy_for_offset off legacy (insert_schedules rs s) = policy_for_offset off legacy s"
  "attempts_of (insert_schedules rs s) off = attempts_of s off"
  by (simp_all add: policy_for_offset_def attempts_of_def split: option.split)

lemma planned_not_delayed:
  assumes "expired_schedules s legacy at_ms ds = Inr rs" "off \<in> if_offset ` set ds"
  shows "\<not> delays legacy (insert_schedules rs s) off"
proof
  assume d: "delays legacy (insert_schedules rs s) off"
  then have out: "off |\<notin>| fmdom (retry_not_before (insert_schedules rs s))" by (simp add: delays_def)
  then have "delays legacy s off"
    using d by (auto simp: delays_def insert_schedules_dom insert_schedules_policy)
  with expired_schedules_complete [OF assms(1)] assms(2) have "off \<in> rse_offset ` set rs" by blast
  with out show False by (auto simp: insert_schedules_dom fset_of_list_elem)
qed

context request_env
begin

lemma hoare_preflight:
  assumes ctx: ctx_ok and at: "at_ms < u64_max"
    and plan: "plan_expired_deliveries consumer s legacy now at_ms ds = Inr plan"
    and ds1: "ds1 = fold (remove_delivery consumer) (map if_offset (plan_deliveries plan)) ds"
    and s1: "s1 = insert_schedules (plan_schedules plan) s"
  shows "hoare (alive s (\<lambda>d. d = ds))
    (preflight_poll_response stream consumer member response_member s legacy at_ms max_response_bytes plan)
    (\<lambda>r se. (\<exists>prepared. r = Done prepared \<and>
        (prepared = None \<longrightarrow> (\<exists>off d. get_in_flight consumer off ds1 = Some d \<and> if_member d = member) \<or>
           (\<exists>passed late. selected legacy dead_letter consumer es s1 ds1 at_ms = Some (None, passed, late)))) \<and>
       alive s (\<lambda>d. d = ds) se) (\<lambda>_. rest)" (is "hoare ?P _ ?Q _")
proof (cases "ds_wf ds")
  case False
  then show ?thesis by (auto simp: hoare_def live_def durable_def)
next
  case True
  then have wf1: "ds_wf ds1" unfolding ds1 by (rule flights.inv_dels)
  have fuel: "Suc (sl_next_offset (se_log se)) = Suc (length es)" if "?P se" for se
    using that ctx log_okD(6) [of es junk log0] by (auto simp: live_def durable_def reading_def)
  obtain ans where ans: "selected legacy dead_letter consumer es s1 ds1 at_ms = Some ans"
    using selected_returns [OF wf1] by blast
  have sched: "expired_schedules s legacy at_ms (plan_deliveries plan) = Inr (plan_schedules plan)"
    using plan by (auto simp: plan_expired_deliveries_def Let_def split: sum.splits)
  have loop: "hoare ?P (preflight_loop stream consumer legacy at_ms dead_letter
        (fset_of_list (map if_offset (plan_deliveries plan))) (Suc (length es))
        (fst (retry_filter at_ms s1)) (snd (retry_filter at_ms s1)) s1)
      (\<lambda>r se. r = previewed es s1 (Some ans) \<and> ?P se) (\<lambda>_. rest)"
    unfolding ans [symmetric] selected_def ds1
    by (rule hoare_preflight_loop [OF ctx True at _ retries_added_refl])
      (use planned_not_delayed [OF sched] in \<open>simp_all add: s1\<close>)
  have finish: "hoare ?P (return_op (Done x)) ?Q (\<lambda>_. rest)"
    if "x = None \<longrightarrow> (\<exists>off d. get_in_flight consumer off ds1 = Some d \<and> if_member d = member) \<or>
           (\<exists>passed late. selected legacy dead_letter consumer es s1 ds1 at_ms = Some (None, passed, late))" for x
    by (rule hoare_weaken_pre [OF hoare_return]) (use that in blast)
  have token: "hoare ?P (and_then (on_log (read_message stream off)) (\<lambda>m.
        and_then (on_broker take_token) (\<lambda>token.
        and_then (lift_res (check_response (Some max_response_bytes) consumer response_member
          (with_delivery token n m))) (\<lambda>_. return_op (Done (Some (off, token))))))) ?Q (\<lambda>_. rest)"
    if "off < length es" for off n
    by (rule hoare_and_then [OF hoare_read_entry [where s = s and F = "\<lambda>d. d = ds", OF ctx that]], rule hoare_fact,
        rule hoare_and_then [OF hoare_token [where s = s and F = "\<lambda>d. d = ds"]],
        rule hoare_and_then [OF hoare_lift [where s = s and F = "\<lambda>d. d = ds"]], rule hoare_fact, rule finish, simp)
  have cont: "hoare (\<lambda>se. r = previewed es s1 (Some ans) \<and> ?P se)
      (case r of
         OutOfFuel \<Rightarrow> return_op OutOfFuel
       | Panicked msg \<Rightarrow> return_op (Panicked msg)
       | Done None \<Rightarrow> return_op (Done None)
       | Done (Some (candidate, attempts)) \<Rightarrow>
           and_then (on_log (read_message stream (ri_offset candidate))) (\<lambda>m.
           and_then (on_broker take_token) (\<lambda>token.
           and_then (lift_res (check_response (Some max_response_bytes) consumer response_member
             (with_delivery token (saturating_add32 attempts 1) m))) (\<lambda>_.
           return_op (Done (Some (ri_offset candidate, token))))))) ?Q (\<lambda>_. rest)" for r
  proof (rule hoare_fact)
    assume r: "r = previewed es s1 (Some ans)"
    obtain o' passed late where a: "ans = (o', passed, late)" by (metis prod.exhaust)
    show "hoare ?P (case r of
         OutOfFuel \<Rightarrow> return_op OutOfFuel
       | Panicked msg \<Rightarrow> return_op (Panicked msg)
       | Done None \<Rightarrow> return_op (Done None)
       | Done (Some (candidate, attempts)) \<Rightarrow>
           and_then (on_log (read_message stream (ri_offset candidate))) (\<lambda>m.
           and_then (on_broker take_token) (\<lambda>token.
           and_then (lift_res (check_response (Some max_response_bytes) consumer response_member
             (with_delivery token (saturating_add32 attempts 1) m))) (\<lambda>_.
           return_op (Done (Some (ri_offset candidate, token))))))) ?Q (\<lambda>_. rest)"
    proof (cases o')
      case None
      with r a show ?thesis
        by (simp only: previewed_def option.case prod.case run.case) (rule finish, use None a ans in simp)
    next
      case (Some off)
      with a ans search_passed(2) [OF _ wf1, of _ legacy dead_letter consumer es s1 at_ms "Some off" passed late off]
      have off: "off < length es" by (auto simp: selected_def)
      then have idx: "ri_offset (entry_index es off) = off" using ctx entries_okD [OF log_okD(1) off] by auto
      with r a Some show ?thesis
        by (simp only: previewed_def option.case prod.case run.case idx) (rule token [OF off])
    qed
  qed
  have search: "hoare ?P (and_then (stream_is_dead_letter stream) (\<lambda>dl.
      and_then (reads (\<lambda>se. Suc (sl_next_offset (se_log se)))) (\<lambda>fuel.
      and_then (preflight_loop stream consumer legacy at_ms dl (fset_of_list (map if_offset (plan_deliveries plan))) fuel
        (fst (retry_filter at_ms s1)) (snd (retry_filter at_ms s1)) s1) (\<lambda>choice.
      case choice of
         OutOfFuel \<Rightarrow> return_op OutOfFuel
       | Panicked msg \<Rightarrow> return_op (Panicked msg)
       | Done None \<Rightarrow> return_op (Done None)
       | Done (Some (candidate, attempts)) \<Rightarrow>
           and_then (on_log (read_message stream (ri_offset candidate))) (\<lambda>m.
           and_then (on_broker take_token) (\<lambda>token.
           and_then (lift_res (check_response (Some max_response_bytes) consumer response_member
             (with_delivery token (saturating_add32 attempts 1) m))) (\<lambda>_.
           return_op (Done (Some (ri_offset candidate, token)))))))))) ?Q (\<lambda>_. rest)"
    by (rule hoare_and_then [OF hoare_is_dead_letter [where s = s and F = "\<lambda>d. d = ds"]], rule hoare_fact, simp only:)
      (rule hoare_reads_known [where c = "Suc (length es)", OF fuel], assumption, rule hoare_and_then [OF loop], rule cont)
  have held: "hoare ?P (case find (\<lambda>d. if_offset d |\<notin>| fset_of_list (map if_offset (plan_deliveries plan))) fs of
       Some d \<Rightarrow>
         and_then (on_log (read_message stream (if_offset d))) (\<lambda>m.
         and_then (lift_res (check_response (Some max_response_bytes) consumer response_member
           (with_delivery (if_delivery_token d) (if_delivery_attempt d) m))) (\<lambda>_.
         return_op (Done None)))
     | None \<Rightarrow> K) ?Q (\<lambda>_. rest)"
    if fs: "member_deliveries consumer member ds = Inr fs" and K: "hoare ?P K ?Q (\<lambda>_. rest)" for fs K
  proof (cases "find (\<lambda>d. if_offset d |\<notin>| fset_of_list (map if_offset (plan_deliveries plan))) fs")
    case None
    with K show ?thesis by (simp only: option.case)
  next
    case (Some d)
    have ex: "\<exists>off d. get_in_flight consumer off ds1 = Some d \<and> if_member d = member"
      using released_members [OF True fs] Some unfolding ds1 by (metis option.distinct(1))
    have stop: "hoare ?P (return_op (Done None)) ?Q (\<lambda>_. rest)" by (rule finish) (use ex in blast)
    have off: "if_offset d < length es" if "?P se" for se
    proof -
      obtain fs' where "member_deliveries consumer member ds = Inr fs'"
        "\<And>d. d \<in> set fs' \<longleftrightarrow> (\<exists>off. get_in_flight consumer off ds = Some d) \<and> if_member d = member"
        using member_deliveries_exact [OF True] by metis
      moreover have "d \<in> set fs" using find_SomeD [OF Some] by simp
      ultimately obtain off where "get_in_flight consumer off ds = Some d" using fs by auto
      with True that show ?thesis by (auto simp: ds_wf_def flights_ok_def live_def durable_def known_attempts_def)
    qed
    have "hoare ?P (and_then (on_log (read_message stream (if_offset d))) (\<lambda>m.
         and_then (lift_res (check_response (Some max_response_bytes) consumer response_member
           (with_delivery (if_delivery_token d) (if_delivery_attempt d) m))) (\<lambda>_.
         return_op (Done None)))) ?Q (\<lambda>_. rest)"
    proof (cases "\<exists>se. ?P se")
      case True
      then have o: "if_offset d < length es" using off by blast
      show ?thesis
        by (rule hoare_and_then [OF hoare_read_entry [where s = s and F = "\<lambda>d. d = ds", OF ctx o]], rule hoare_fact,
            rule hoare_and_then [OF hoare_lift [where s = s and F = "\<lambda>d. d = ds"]], rule hoare_fact, rule stop)
    qed (auto simp: hoare_def)
    with Some show ?thesis by (simp only: option.case)
  qed
  show ?thesis
    unfolding preflight_poll_response_def Let_def case_prod_beta s1 [symmetric]
    by (rule hoare_reads_known [where c = ds], simp,
        rule hoare_and_then [OF hoare_lift [where s = s and F = "\<lambda>d. d = ds"]], rule hoare_fact,
        rule held, assumption, rule search [unfolded case_prod_beta])
qed

end

end
