(* ===== verification/Broker_Answers.thy ===== *)
theory Broker_Answers
  imports Broker_Deliveries
begin

text \<open>
  The whole of a scalar poll, from its first access to the consumer's state to its answer.
\<close>

lemma hoare_ex:
  assumes "\<And>x. hoare (P x) m Q R"
  shows "hoare (\<lambda>s. \<exists>x. P x s) m Q R"
  unfolding hoare_def
proof (intro allI impI, elim exE)
  fix s x
  assume "P x s"
  then show "case m s of (Inl e, t) \<Rightarrow> R e t | (Inr y, t) \<Rightarrow> Q y t"
    by (rule assms [unfolded hoare_def, THEN spec, THEN mp])
qed

lemma hoare_vacuous: "(\<And>s. \<not> P s) \<Longrightarrow> hoare P m Q R"
  by (simp add: hoare_def)

context request_env
begin

lemma hoare_reads_delivery:
  assumes "\<And>ds. F ds \<Longrightarrow> ds_wf ds \<Longrightarrow> hoare (alive s (\<lambda>d. d = ds)) (g ds) Q R"
  shows "hoare (alive s F) (and_then (reads se_delivery) g) Q R"
proof (rule hoare_and_then_reads)
  fix ds
  show "hoare (\<lambda>se. alive s F se \<and> ds = se_delivery se) (g ds) Q R"
  proof (cases "F ds \<and> ds_wf ds")
    case True
    then show ?thesis by (intro hoare_weaken_pre [OF assms]) auto
  next
    case False
    then show ?thesis by (auto simp: hoare_def live_def durable_def)
  qed
qed

text \<open>What a request finds: the consumer at rest in \<open>s\<close>, and the deliveries \<open>ds0\<close>.\<close>

abbreviation fresh :: "consumer_state \<Rightarrow> session \<Rightarrow> bool" where
  "fresh s se \<equiv> rest se \<and> rest_in K cdc stream consumer (length es) s (se_delivery se, se_store se) \<and> se_delivery se = ds0"

lemma hoare_rest_instant: "hoare (fresh s) (on_broker instant_now) (\<lambda>_. fresh s) R"
proof -
  have run: "\<exists>now b'. on_broker instant_now se = (Inr now, se\<lparr>se_broker := b'\<rparr>) \<and> E b'" if "E (se_broker se)" for se
    using instant_step [OF that] by (cases "instant_now (se_broker se)") (auto simp: on_broker_def zoom_def)
  show ?thesis
    unfolding hoare_def
  proof (intro allI impI)
    fix se assume a: "fresh s se"
    with run [of se] obtain now b' where "on_broker instant_now se = (Inr now, se\<lparr>se_broker := b'\<rparr>)" "E b'"
      by (auto simp: resting_def)
    with a show "case on_broker instant_now se of (Inl e, t) \<Rightarrow> R e t | (Inr x, t) \<Rightarrow> fresh s t"
      by (auto simp: resting_def)
  qed
qed

text \<open>The request starts from the deliveries \<open>ds0\<close>; loading the state may only drop some.\<close>

abbreviation kept_from :: "delivery_state \<Rightarrow> delivery_state \<Rightarrow> bool" where
  "kept_from ds ds' \<equiv> (\<forall>off d. get_in_flight consumer off ds' = Some d \<longrightarrow> get_in_flight consumer off ds = Some d)"

lemma hoare_load_kept:
  assumes ctx: ctx_ok
  shows "hoare (fresh s) (load_for_request cdc ho stream consumer) (\<lambda>cs se. cs = s \<and> alive cs (kept_from ds0) se) (\<lambda>_. rest)"
proof (rule hoareI)
  fix se x se1
  assume pre: "fresh s se"
  then have pre1: "rest se \<and> rest_in K cdc stream consumer (length es) s (se_delivery se, se_store se)" by blast
  note h = hoare_load_state [OF ctx]
  show "rest se1" if "load_for_request cdc ho stream consumer se = (Inl e, se1)" for e
    using hoareD_err [OF h pre1 that] .
  show "x = s \<and> alive x (kept_from ds0) se1" if run: "load_for_request cdc ho stream consumer se = (Inr x, se1)"
  proof -
    obtain r w where m: "load_consumer_state_for_request cdc ho stream consumer (se_delivery se, se_store se) = (r, w)"
      by (rule prod.exhaust)
    have se1: "se_delivery se1 = fst w"
      using run m by (auto simp: load_for_request_def on_request_def zoom_def)
    have wf: "ds_wf (se_delivery se)" using pre by (auto simp: rest_in_def request_ok_def)
    from load_delivery [OF m] have "kept_from ds0 (fst w)"
      using reconciled_ok(2) [OF conjunct1 [OF conjunct2 [OF ctx]] wf, of consumer] pre
      by (auto split: if_splits)
    with hoareD_ok [OF h pre1 run] se1 show ?thesis by auto
  qed
qed

lemma hoare_answer_held:
  assumes ctx: ctx_ok and ds: "ds_wf ds" and kept: "kept_from ds0 ds"
    and held: "get_in_flight consumer (if_offset d) ds = Some d" "if_member d = member"
    and start: "progressed legacy dead_letter s0 s"
  shows "hoare (alive s (\<lambda>d. d = ds))
    (and_then (on_log (read_message stream (if_offset d))) (\<lambda>m0.
       let m = with_delivery (if_delivery_token d) (if_delivery_attempt d) m0
       in and_then (lift_res (check_response limit consumer response_member m)) (\<lambda>_.
          return_op (Done (PollMessage m))))) (answers s0 member) (\<lambda>_. rest)"
proof (cases "if_offset d < length es")
  case False
  have "\<not> alive s (\<lambda>d. d = ds) se" for se
    using False held by (auto simp: live_def durable_def known_attempts_def)
  then show ?thesis by (rule hoare_vacuous)
next
  case off: True
  let ?m = "with_delivery (if_delivery_token d) (if_delivery_attempt d) (entry_message stream es (if_offset d))"
  have m: "delivered_ok stream consumer member es dead_letter legacy ds0 t ds ?m" for t
    unfolding delivered_ok_def using off held kept by blast
  have ret: "hoare (alive s (\<lambda>d. d = ds)) (return_op (Done (PollMessage ?m))) (answers s0 member) (\<lambda>_. rest)"
    by (rule hoare_weaken_pre [OF hoare_return]) (use m start in auto)
  show ?thesis
    by (rule hoare_and_then [OF hoare_read_entry [where s = s and F = "\<lambda>d. d = ds", OF ctx off]], rule hoare_fact)
      (simp only: Let_def, rule hoare_and_then [OF hoare_lift [where s = s and F = "\<lambda>d. d = ds"]], rule hoare_fact, rule ret)
qed

lemma hoare_answer_search:
  assumes ctx: ctx_ok and ds: "ds_wf ds"
    and prepared: "limit \<noteq> None \<Longrightarrow> prepared = None \<Longrightarrow>
      \<exists>passed late. selected legacy dead_letter consumer es s ds at_ms = Some (None, passed, late)"
  shows "hoare (alive s (same_flights consumer ds))
    (and_then (poll_search cdc ho stream consumer legacy at_ms s) (\<lambda>choice.
       case choice of
         OutOfFuel \<Rightarrow> return_op OutOfFuel
       | Panicked msg \<Rightarrow> return_op (Panicked msg)
       | Done c \<Rightarrow> poll_finish cdc ho stream consumer member response_member limit prepared c)) (answers s member) (\<lambda>_. rest)"
proof (rule hoare_and_then [OF hoare_poll_search [OF ctx ds]])
  fix r
  let ?m = "case r of
         OutOfFuel \<Rightarrow> return_op OutOfFuel
       | Panicked msg \<Rightarrow> return_op (Panicked msg)
       | Done c \<Rightarrow> poll_finish cdc ho stream consumer member response_member limit prepared c"
  have one: "hoare (alive s1 (same_flights consumer ds)) ?m (answers s member) (\<lambda>_. rest)"
    if ans: "selected legacy dead_letter consumer es s ds at_ms = Some ans" and ch: "choice_for legacy es s s1 (Some ans) r" for s1 ans
  proof -
    obtain o' passed late where a: "ans = (o', passed, late)" by (metis prod.exhaust)
    show ?thesis
    proof (cases o')
      case None
      with a ch have r: "r = Done (NoCandidate s1 (map (entry_index es) passed))" and add: "retries_added es s late s1"
        by (auto simp: choice_for_def)
      from ans a None have sel: "selected legacy dead_letter consumer es s ds at_ms = Some (None, passed, late)" by simp
      show ?thesis
        unfolding r run.case by (rule hoare_poll_empty [OF ctx ds sel add])
    next
      case (Some off)
      with a ch obtain p where
        r: "r = Done (Selected s1 (map (entry_index es) passed) (entry_index es off) (attempts_of s1 off) p)"
        and add: "retries_added es s late s1" and p: "policy_for_offset off legacy s1 = Inr p"
        by (auto simp: choice_for_def)
      from ans a Some have sel: "selected legacy dead_letter consumer es s ds at_ms = Some (Some off, passed, late)" by simp
      show ?thesis
        unfolding r run.case by (rule hoare_poll_selected [OF ctx ds sel add p]) (use prepared sel in \<open>cases prepared; auto\<close>)
    qed
  qed
  show "hoare (\<lambda>se. \<exists>s1 ans. selected legacy dead_letter consumer es s ds at_ms = Some ans \<and> choice_for legacy es s s1 (Some ans) r \<and>
       alive s1 (same_flights consumer ds) se) ?m (answers s member) (\<lambda>_. rest)"
    by (intro hoare_ex hoare_fact one)
qed

lemma hoare_answer:
  assumes ctx: ctx_ok and ds: "ds_wf ds" and kept: "kept_from ds0 ds"
    and plan: "plan_expired_deliveries consumer s legacy now at_ms ds = Inr plan"
    and ds1: "ds1 = fold (remove_delivery consumer) (map if_offset (plan_deliveries plan)) ds"
    and s1: "s1 = insert_schedules (plan_schedules plan) s"
    and prepared: "limit \<noteq> None \<Longrightarrow> prepared = None \<Longrightarrow>
      (\<exists>off d. get_in_flight consumer off ds1 = Some d \<and> if_member d = member) \<or>
      (\<exists>passed late. selected legacy dead_letter consumer es s1 ds1 at_ms = Some (None, passed, late))"
  shows "hoare (alive s (\<lambda>d. d = ds))
    (and_then (apply_expired_delivery_plan cdc ho consumer s plan) (\<lambda>cs1.
     and_then (reads se_delivery) (\<lambda>ds1.
     and_then (lift_res (member_delivery consumer member ds1)) (\<lambda>held.
     case held of
       Some d \<Rightarrow>
         and_then (on_log (read_message stream (if_offset d))) (\<lambda>m0.
         let m = with_delivery (if_delivery_token d) (if_delivery_attempt d) m0
         in and_then (lift_res (check_response limit consumer response_member m)) (\<lambda>_.
            return_op (Done (PollMessage m))))
     | None \<Rightarrow>
         and_then (poll_search cdc ho stream consumer legacy at_ms cs1) (\<lambda>choice.
         case choice of
           OutOfFuel \<Rightarrow> return_op OutOfFuel
         | Panicked msg \<Rightarrow> return_op (Panicked msg)
         | Done c \<Rightarrow> poll_finish cdc ho stream consumer member response_member limit prepared c))))) (answers s member) (\<lambda>_. rest)"
proof -
  have wf1: "ds_wf ds1" unfolding ds1 using ds by (rule flights.inv_dels)
  have kept1: "kept_from ds ds1" unfolding ds1 by (auto simp: flights.lookup_dels split: if_splits)
  let ?cont = "\<lambda>held. case held of
       Some d \<Rightarrow>
         and_then (on_log (read_message stream (if_offset d))) (\<lambda>m0.
         let m = with_delivery (if_delivery_token d) (if_delivery_attempt d) m0
         in and_then (lift_res (check_response limit consumer response_member m)) (\<lambda>_.
            return_op (Done (PollMessage m))))
     | None \<Rightarrow>
         and_then (poll_search cdc ho stream consumer legacy at_ms s1) (\<lambda>choice.
         case choice of
           OutOfFuel \<Rightarrow> return_op OutOfFuel
         | Panicked msg \<Rightarrow> return_op (Panicked msg)
         | Done c \<Rightarrow> poll_finish cdc ho stream consumer member response_member limit prepared c)"
  have prog: "progressed legacy dead_letter s1 t \<longleftrightarrow> progressed legacy dead_letter s t" for t
    by (simp add: progressed_def s1 is_terminal_def insert_schedules_policy settled_def)
  have self: "progressed legacy dead_letter s s1" unfolding prog [symmetric] by (simp add: progressed_def)
  have cont: "hoare (alive s1 (\<lambda>d. d = ds2)) (?cont held) (answers s member) (\<lambda>_. rest)"
    if same: "same_flights consumer ds1 ds2" and wf2: "ds_wf ds2" and held: "member_delivery consumer member ds2 = Inr held" for ds2 held
  proof (cases held)
    case (Some d)
    have "kept_from ds0 ds2" using kept kept1 same by (auto simp: same_flights_def)
    with member_delivery_sound(1) [OF wf2 held Some] Some show ?thesis
      by (simp only: option.case) (rule hoare_answer_held [OF ctx wf2], simp_all add: self)
  next
    case None
    have "\<not> (\<exists>off d. get_in_flight consumer off ds1 = Some d \<and> if_member d = member)"
      using member_delivery_sound(2) [OF wf2 held None] same by (auto simp: same_flights_def)
    with prepared have p: "limit \<noteq> None \<Longrightarrow> prepared = None \<Longrightarrow>
        \<exists>passed late. selected legacy dead_letter consumer es s1 ds1 at_ms = Some (None, passed, late)"
      by blast
    show ?thesis
      unfolding None option.case prog [symmetric]
      by (rule hoare_weaken_pre [OF hoare_answer_search [OF ctx wf1 p]]) (use same in auto)
  qed
  have plans: "hoare (alive s (\<lambda>d. d = ds)) (apply_expired_delivery_plan cdc ho consumer s plan)
      (\<lambda>cs1 se. cs1 = s1 \<and> alive cs1 (same_flights consumer ds1) se) (\<lambda>_. rest)"
    unfolding s1 ds1 by (rule hoare_apply_plan [OF plan])
  show ?thesis
    by (rule hoare_and_then [OF plans], rule hoare_fact)
      (simp only:, rule hoare_reads_delivery, rule hoare_and_then [OF hoare_lift], rule hoare_fact, rule cont)
qed

lemma hoare_poll_locked:
  assumes ctx: ctx_ok
  shows "hoare (fresh s) (poll_locked cdc ho stream consumer member response_member limit) (answers s member) (\<lambda>_. rest)"
proof -
  have policy: "legacy_policy (se_broker se) = legacy" if "fresh s se" for se
    using that env_legacy by (auto simp: resting_def)
  let ?R = "\<lambda>s ds plan at_ms r. \<exists>prepared. r = Done prepared \<and> (limit \<noteq> None \<longrightarrow> prepared = None \<longrightarrow>
      (\<exists>off d. get_in_flight consumer off (fold (remove_delivery consumer) (map if_offset (plan_deliveries plan)) ds) = Some d \<and>
         if_member d = member) \<or>
      (\<exists>passed late. selected legacy dead_letter consumer es (insert_schedules (plan_schedules plan) s)
         (fold (remove_delivery consumer) (map if_offset (plan_deliveries plan)) ds) at_ms = Some (None, passed, late)))"
  have pre: "hoare (alive s (\<lambda>d. d = ds))
      (case limit of None \<Rightarrow> return_op (Done None)
       | Some max_response_bytes \<Rightarrow>
           preflight_poll_response stream consumer member response_member s legacy at_ms max_response_bytes plan)
      (\<lambda>r se. ?R s ds plan at_ms r \<and> alive s (\<lambda>d. d = ds) se) (\<lambda>_. rest)"
    if "at_ms < u64_max" "plan_expired_deliveries consumer s legacy now at_ms ds = Inr plan" for s ds now at_ms plan
  proof (cases limit)
    case None
    then show ?thesis by (simp only: option.case) (rule hoare_weaken_pre [OF hoare_return], simp)
  next
    case (Some n)
    show ?thesis
      unfolding Some option.case
      by (rule hoare_strengthen_post [OF hoare_preflight [OF ctx that refl refl]]) (blast, simp)
  qed
  show ?thesis
    unfolding poll_locked_def
    apply (rule hoare_and_then [OF hoare_rest_instant], rule hoare_reads_known [where c = legacy, OF policy], assumption)
    apply (rule hoare_and_then [OF hoare_load_kept [OF ctx]], rule hoare_fact, simp only:)
    apply (rule hoare_and_then [OF hoare_clock], rule hoare_fact)
    apply (rule hoare_reads_delivery)
    apply (rule hoare_and_then [OF hoare_lift], rule hoare_fact)
    apply (rule hoare_and_then [OF pre], assumption, assumption, rule hoare_fact, elim exE conjE)
    apply (simp only: run.case)
    apply (rule hoare_answer [OF ctx _ _ _ refl refl])
    apply assumption+
    apply blast
    done
qed

end

end
