(* ===== verification/Broker_Acks.thy ===== *)
theory Broker_Acks
  imports Broker_Answers
begin

text \<open>
  Acknowledgements and policies against the invariant of a session: an acknowledgement settles
  exactly the offsets whose leases the member presents, durably, and nothing else changes progress.
\<close>

context request_env
begin

lemma hoare_each_flight:
  assumes "\<And>ds. F ds \<Longrightarrow> ds_wf ds \<Longrightarrow> hoare (alive s (\<lambda>d. d = ds)) m Q R"
  shows "hoare (alive s F) m Q R"
proof -
  have "hoare (\<lambda>se. alive s F se \<and> se_delivery se = ds) m Q R" for ds
  proof (cases "F ds \<and> ds_wf ds")
    case True
    then show ?thesis by (intro hoare_weaken_pre [OF assms]) auto
  next
    case False
    then show ?thesis by (intro hoare_vacuous) (auto simp: live_def durable_def)
  qed
  then have "hoare (\<lambda>se. \<exists>ds. alive s F se \<and> se_delivery se = ds) m Q R" by (rule hoare_ex)
  then show ?thesis by simp
qed

lemma hoare_observe_kept:
  "hoare (alive s (kept_from ds0)) (observe_expired_deliveries cdc ho consumer s legacy now)
    (\<lambda>s1 se. (\<exists>rs. s1 = insert_schedules rs s) \<and> alive s1 (kept_from ds0) se) (\<lambda>_. rest)"
proof (rule hoare_each_flight)
  fix ds
  assume k: "kept_from ds0 ds" and wf: "ds_wf ds"
  have "kept_from ds0 ds'" if "same_flights consumer (unexpired consumer now ds) ds'" for ds'
    using that k by (auto simp: same_flights_def get_unexpired [OF wf] split: option.splits if_splits)
  then show "hoare (alive s (\<lambda>d. d = ds)) (observe_expired_deliveries cdc ho consumer s legacy now)
      (\<lambda>s1 se. (\<exists>rs. s1 = insert_schedules rs s) \<and> alive s1 (kept_from ds0) se) (\<lambda>_. rest)"
    by (intro hoare_strengthen_post [OF hoare_observe]) auto
qed

lemma hoare_acknowledge:
  assumes ctx: ctx_ok and offs: "\<And>off. off \<in> set offs \<Longrightarrow> off < length es"
    and ev: "apply_event ev s = Inr (fold acknowledge offs s)" "event_bounded ev"
    and F: "\<And>ds order. F ds \<Longrightarrow> G (cache_consumer_state order consumer (fold acknowledge offs s) (fold (remove_delivery consumer) offs ds))"
  shows "hoare (alive s F)
    (and_then (persist_event cdc stream consumer s ev) (\<lambda>_.
     and_then (change_delivery (fold (remove_delivery consumer) offs)) (\<lambda>_.
     and_then (cache_state ho consumer (names_set stream consumer (fold acknowledge offs s))) (\<lambda>_.
     and_then notify_waiters (\<lambda>_.
     return_op x)))))
    (\<lambda>r se. r = x \<and> alive (fold acknowledge offs s) G se) (\<lambda>_. rest)"
proof (rule hoare_alive)
  assume wf: "cs_wf s" and names: "cs_stream s = stream" "cs_consumer s = consumer" and u: "attempts_u32 s"
  let ?t = "fold acknowledge offs s" and ?A = "known_attempts (length es) s"
  have below: "list_all (\<lambda>off. off < u64_max) offs" using offs entries_below [OF ctx] by (auto simp: list_all_iff)
  have sets: "settled ?t off \<longleftrightarrow> settled s off \<or> off \<in> set offs" for off
    by (rule cs_progress.acks_done [OF wf below])
  have att: "fmlookup (delivery_attempts ?t) off = (if off \<in> set offs then None else fmlookup (delivery_attempts s) off)" for off
  proof (cases "off \<in> set offs")
    case True
    with cs_wf_unsettled [OF cs_progress.acks_wf [OF wf below], of off] sets show ?thesis by auto
  qed (simp add: fold_acknowledge_sel(2) [OF wf below])
  have nm: "names_set stream consumer ?t = ?t"
  proof -
    have "cs_stream ?t = cs_stream s \<and> cs_consumer ?t = cs_consumer s"
      using wf below by (induction offs arbitrary: s) auto
    with names show ?thesis by (simp add: names_set_def)
  qed
  have pers: "hoare (alive s F) (persist_event cdc stream consumer s ev) (\<lambda>_. written ?A ?t F) (\<lambda>_. rest)"
    by (rule hoare_persist_event [OF ev(2,1)])
      (use u att sets in \<open>auto simp: attempts_u32_def fmlookup_dom_iff split: if_splits\<close>)
  have known: "?A - set offs \<subseteq> known_attempts (length es) ?t"
    using att by (auto simp: known_attempts_def fmlookup_dom_iff)
  have cache: "hoare (written (?A - set offs) ?t (\<lambda>ds. \<exists>ds1. F ds1 \<and> ds = fold (remove_delivery consumer) offs ds1))
      (cache_state ho consumer ?t) (\<lambda>_. alive ?t G) (\<lambda>_. rest)"
    by (rule hoare_cache [OF known]) (use F in auto)
  have ret: "hoare (alive ?t G) (return_op x) (\<lambda>r se. r = x \<and> alive ?t G se) (\<lambda>_. rest)"
    by (rule hoare_weaken_pre [OF hoare_return]) simp
  show ?thesis
    unfolding nm
    by (rule hoare_and_then [OF pers], rule hoare_and_then [OF hoare_remove],
        rule hoare_and_then [OF cache], rule hoare_and_then [OF hoare_notify [where s = ?t and F = G]], rule ret)
qed

end

text \<open>The right to acknowledge: the lease is the member's, and its token is presented where the lease
  asks for a receipt or a token is given.\<close>

definition presents :: "string \<Rightarrow> string \<Rightarrow> in_flight \<Rightarrow> bool" where
  "presents member token d \<longleftrightarrow>
     if_member d = member \<and> (if_requires_receipt d \<or> token \<noteq> [] \<longrightarrow> if_delivery_token d = token)"

definition acknowledged_ok ::
  "string \<Rightarrow> string \<Rightarrow> offset \<Rightarrow> string \<Rightarrow> delivery_state \<Rightarrow> consumer_state \<Rightarrow> consumer_state \<Rightarrow> delivery_state \<Rightarrow> ack_result \<Rightarrow> bool" where
  "acknowledged_ok consumer member off token ds0 s t ds r \<longleftrightarrow>
     (case r of
        Acknowledged \<Rightarrow>
          \<not> settled s off \<and> (\<forall>x. settled t x \<longleftrightarrow> settled s x \<or> x = off) \<and> get_in_flight consumer off ds = None \<and>
          (\<exists>d. get_in_flight consumer off ds0 = Some d \<and> presents member token d)
      | AlreadyAcknowledged \<Rightarrow> settled s off \<and> (\<forall>x. settled t x \<longleftrightarrow> settled s x))"

context request_env
begin

abbreviation acks :: "consumer_state \<Rightarrow> string \<Rightarrow> offset \<Rightarrow> string \<Rightarrow> ack_result \<Rightarrow> session \<Rightarrow> bool" where
  "acks s member off token r se \<equiv> (\<exists>t. live K cdc stream consumer log0 (length es) ds0 E t se \<and>
     acknowledged_ok consumer member off token ds0 s t (se_delivery se) r)"

lemma hoare_fail: "hoare (alive t F) (throw e) Q (\<lambda>_. rest)"
  by (rule hoare_weaken_pre [OF hoare_throw]) (rule alive_rest)

lemma alive_legacy: "alive t F se \<Longrightarrow> legacy_policy (se_broker se) = legacy"
  using env_legacy by (simp add: live_def durable_def)

lemma hoare_ack_missing:
  assumes ctx: ctx_ok
  shows "hoare (alive cs (\<lambda>d. d = ds)) (ack_missing cdc ho stream consumer cs legacy off token) Q (\<lambda>_. rest)"
proof -
  have "hoare (alive cs (\<lambda>_. True)) (if off |\<in>| fmdom (delivery_attempts cs)
      then schedule_orphan_retry cdc ho stream consumer cs legacy off else return_op (False, cs))
      (\<lambda>x se. \<exists>t. alive t (\<lambda>_. True) se) (\<lambda>_. rest)"
  proof (cases "off |\<in>| fmdom (delivery_attempts cs)")
    case True
    have "hoare (alive cs (\<lambda>_. True)) (schedule_orphan_retry cdc ho stream consumer cs legacy off)
        (\<lambda>x se. \<exists>t. alive t (\<lambda>_. True) se) (\<lambda>_. rest)"
      by (rule hoare_strengthen_post [OF hoare_schedule_orphan [OF ctx, where F = "\<lambda>_. True"]]) auto
    with True show ?thesis by simp
  next
    case False
    then show ?thesis by (simp only: if_False) (rule hoare_weaken_pre [OF hoare_return], blast)
  qed
  then show ?thesis
    unfolding ack_missing_def
    by (intro hoare_weaken_pre [OF hoare_and_then]) (assumption, rule hoare_ex, rule hoare_fail, simp)
qed

lemma hoare_ack_lease:
  assumes ctx: ctx_ok and cs: "cs = insert_schedules rs s" and k: "kept_from ds0 ds"
    and un: "\<not> settled cs off" and d: "get_in_flight consumer off ds = Some d"
  shows "hoare (alive cs (\<lambda>d. d = ds)) (ack_lease cdc ho stream consumer member cs off token d) (acks s member off token) (\<lambda>_. rest)"
proof (cases "presents member token d \<and> off < length es")
  case True
  show ?thesis
  proof (rule hoare_alive)
    assume wf: "cs_wf cs"
    note lt = entries_below [OF ctx conjunct2 [OF True]]
    have ok: "acknowledged_ok consumer member off token ds0 s (acknowledge off cs) ds' Acknowledged"
      if "get_in_flight consumer off ds' = None" for ds'
      using that un d True k acknowledge_sel(7) [OF wf lt] by (auto simp: acknowledged_ok_def cs settled_def)
    have one: "fold (remove_delivery consumer) [off] = remove_delivery consumer off"
      "fold acknowledge [off] cs = acknowledge off cs"
      by simp_all
    have h: "hoare (alive cs (\<lambda>d. d = ds))
      (and_then (persist_event cdc stream consumer cs (Acknowledge off)) (\<lambda>_.
       and_then (change_delivery (fold (remove_delivery consumer) [off])) (\<lambda>_.
       and_then (cache_state ho consumer (names_set stream consumer (fold acknowledge [off] cs))) (\<lambda>_.
       and_then notify_waiters (\<lambda>_.
       return_op Acknowledged)))))
      (\<lambda>r se. r = Acknowledged \<and> alive (fold acknowledge [off] cs) (\<lambda>ds'. get_in_flight consumer off ds' = None) se) (\<lambda>_. rest)"
      by (rule hoare_acknowledge [OF ctx]) (use True lt in \<open>auto simp: event_bounded_def get_in_flight_remove\<close>)
    have "hoare (alive cs (\<lambda>d. d = ds))
      (and_then (persist_event cdc stream consumer cs (Acknowledge off)) (\<lambda>_.
       and_then (change_delivery (remove_delivery consumer off)) (\<lambda>_.
       and_then (cache_state ho consumer (names_set stream consumer (acknowledge off cs))) (\<lambda>_.
       and_then notify_waiters (\<lambda>_.
       return_op Acknowledged))))) (acks s member off token) (\<lambda>_. rest)"
      by (rule hoare_strengthen_post [OF h [unfolded one]]) (use ok in auto)
    then show "hoare (alive cs (\<lambda>d. d = ds)) (ack_lease cdc ho stream consumer member cs off token d) (acks s member off token) (\<lambda>_. rest)"
      using True unfolding ack_lease_def presents_def by auto
  qed
next
  case False
  show ?thesis
  proof (cases "off < length es")
    case True
    with False show ?thesis
      unfolding ack_lease_def presents_def by (auto intro: hoare_fail)
  next
    case out: False
    have "\<not> alive cs (\<lambda>d. d = ds) se" for se
      using out d by (auto simp: live_def durable_def known_attempts_def)
    then show ?thesis by (rule hoare_vacuous)
  qed
qed

lemma hoare_ack_locked:
  assumes ctx: ctx_ok
  shows "hoare (fresh s) (ack_locked cdc ho stream consumer member off token) (acks s member off token) (\<lambda>_. rest)"
proof -
  have found: "hoare (alive cs (kept_from ds0))
      (and_then (reads (\<lambda>se. get_in_flight consumer off (se_delivery se))) (\<lambda>found.
          case found of
            None \<Rightarrow> ack_missing cdc ho stream consumer cs legacy off token
          | Some d \<Rightarrow> ack_lease cdc ho stream consumer member cs off token d)) (acks s member off token) (\<lambda>_. rest)"
    if cs: "cs = insert_schedules rs s" and un: "\<not> settled cs off" for cs rs
  proof (rule hoare_each_flight, rule hoare_reads_known [where c = "get_in_flight consumer off ds" for ds])
    fix ds
    assume k: "kept_from ds0 ds"
    show "hoare (alive cs (\<lambda>d. d = ds)) (case get_in_flight consumer off ds of
            None \<Rightarrow> ack_missing cdc ho stream consumer cs legacy off token
          | Some d \<Rightarrow> ack_lease cdc ho stream consumer member cs off token d) (acks s member off token) (\<lambda>_. rest)"
    proof (cases "get_in_flight consumer off ds")
      case None
      show ?thesis unfolding None option.case by (rule hoare_ack_missing [OF ctx])
    next
      case (Some d)
      show ?thesis unfolding Some option.case by (rule hoare_ack_lease [OF ctx cs k un Some])
    qed
  qed simp
  have body: "hoare (alive cs (kept_from ds0))
     (if off < committed_offset cs then return_op AlreadyAcknowledged
      else if off |\<in>| acknowledged_offsets cs then return_op AlreadyAcknowledged
      else and_then (reads (\<lambda>se. get_in_flight consumer off (se_delivery se))) (\<lambda>found.
          case found of
            None \<Rightarrow> ack_missing cdc ho stream consumer cs legacy off token
          | Some d \<Rightarrow> ack_lease cdc ho stream consumer member cs off token d)) (acks s member off token) (\<lambda>_. rest)"
    if cs: "\<exists>rs. cs = insert_schedules rs s" for cs
  proof (cases "settled cs off")
    case True
    with cs have "hoare (alive cs (kept_from ds0)) (return_op AlreadyAcknowledged) (acks s member off token) (\<lambda>_. rest)"
      by (intro hoare_weaken_pre [OF hoare_return]) (auto simp: acknowledged_ok_def settled_def)
    with True show ?thesis by (auto simp: settled_def)
  next
    case un: False
    then have no: "\<not> off < committed_offset cs" "off |\<notin>| acknowledged_offsets cs" by (auto simp: settled_def)
    from cs obtain rs where rs: "cs = insert_schedules rs s" by blast
    show ?thesis
      unfolding if_not_P [OF no(1)] if_not_P [OF no(2)] by (rule found [OF rs un])
  qed
  show ?thesis
    unfolding ack_locked_def
    by (rule hoare_and_then [OF hoare_load_kept [OF ctx]], rule hoare_fact, simp only:,
        rule hoare_reads_known [where c = legacy], erule alive_legacy,
        rule hoare_and_then [OF hoare_instant(1) [where s = s and F = "kept_from ds0"]],
        rule hoare_and_then [OF hoare_observe_kept], rule hoare_fact, rule body)
qed

end

end
