(* ===== verification/Broker_Receipts.thy ===== *)
theory Broker_Receipts
  imports Broker_Acks
begin

text \<open>
  Batch acknowledgements and consumer policies. A batch decides every receipt on the state and the
  leases it found, and settles all confirmed offsets with one event; configuring a policy changes
  nothing but the policy.
\<close>

definition same_progress :: "consumer_state \<Rightarrow> consumer_state \<Rightarrow> bool" where
  "same_progress s t \<longleftrightarrow>
     committed_offset t = committed_offset s \<and> acknowledged_offsets t = acknowledged_offsets s \<and>
     delivery_attempts t = delivery_attempts s"

lemma same_progress_outcome:
  "same_progress s t \<Longrightarrow> same_flights consumer ds ds' \<Longrightarrow>
   receipt_outcome consumer member t ds' r = receipt_outcome consumer member s ds r"
  by (simp add: same_progress_def same_flights_def receipt_outcome_def Let_def split: option.split)

definition decided :: "string \<Rightarrow> string \<Rightarrow> consumer_state \<Rightarrow> delivery_state \<Rightarrow> delivery_receipt \<Rightarrow> ack_batch_item" where
  "decided consumer member s ds r =
     \<lparr>item_offset = receipt_offset r, item_outcome = receipt_outcome consumer member s ds r\<rparr>"

context request_env
begin

lemma hoare_ack_receipts:
  assumes ctx: ctx_ok
  shows "hoare (alive cs (same_flights consumer ds)) (ack_receipts cdc ho stream consumer member legacy rs cs)
    (\<lambda>(items, cs2) se. items = map (decided consumer member cs ds) rs \<and> same_progress cs cs2 \<and>
       alive cs2 (same_flights consumer ds) se) (\<lambda>_. rest)"
proof (induction rs arbitrary: cs)
  case Nil
  show ?case
    by (simp, rule hoare_weaken_pre [OF hoare_return]) (simp add: same_progress_def)
next
  case (Cons r rs)
  let ?F = "same_flights consumer ds" and ?off = "receipt_offset r"
  let ?Q = "\<lambda>(items, cs2) se. items = map (decided consumer member cs ds) (r # rs) \<and> same_progress cs cs2 \<and> alive cs2 ?F se"
  have sched: "hoare (alive cs ?F) (if c then schedule_orphan_retry cdc ho stream consumer cs legacy ?off else return_op (False, cs))
      (\<lambda>x se. same_progress cs (snd x) \<and> alive (snd x) ?F se) (\<lambda>_. rest)" for c
  proof (cases c)
    case True
    have "hoare (alive cs ?F) (schedule_orphan_retry cdc ho stream consumer cs legacy ?off)
        (\<lambda>x se. same_progress cs (snd x) \<and> alive (snd x) ?F se) (\<lambda>_. rest)"
      by (rule hoare_strengthen_post [OF hoare_schedule_orphan [OF ctx, where F = ?F]]) (auto simp: same_progress_def split: if_splits)
    with True show ?thesis by simp
  next
    case False
    then show ?thesis by (simp only: if_False) (rule hoare_weaken_pre [OF hoare_return], simp add: same_progress_def)
  qed
  have more: "hoare (alive cs1 ?F)
      (and_then (ack_receipts cdc ho stream consumer member legacy rs cs1) (\<lambda>(items, cs2).
       return_op (\<lparr>item_offset = ?off, item_outcome = receipt_outcome consumer member cs ds r\<rparr> # items, cs2))) ?Q (\<lambda>_. rest)"
    if same: "same_progress cs cs1" for cs1
  proof (rule hoare_and_then [OF Cons.IH])
    fix x :: "ack_batch_item list \<times> consumer_state"
    obtain items cs2 where x: "x = (items, cs2)" by fastforce
    have eq: "decided consumer member cs1 ds = decided consumer member cs ds"
      using same_progress_outcome [OF same] by (auto simp: decided_def same_flights_def)
    show "hoare ((case x of (items, cs2) \<Rightarrow> \<lambda>se. items = map (decided consumer member cs1 ds) rs \<and> same_progress cs1 cs2 \<and> alive cs2 ?F se))
        (case x of (items, cs2) \<Rightarrow>
          return_op (\<lparr>item_offset = ?off, item_outcome = receipt_outcome consumer member cs ds r\<rparr> # items, cs2)) ?Q (\<lambda>_. rest)"
      unfolding x prod.case
      by (rule hoare_weaken_pre [OF hoare_return]) (use same in \<open>auto simp: eq decided_def same_progress_def\<close>)
  qed
  have outcome: "hoare (\<lambda>se. same_progress cs cs1 \<and> alive cs1 ?F se)
      (and_then (reads (\<lambda>se. receipt_outcome consumer member cs1 (se_delivery se) r)) (\<lambda>outcome.
       and_then (ack_receipts cdc ho stream consumer member legacy rs cs1) (\<lambda>(items, cs2).
       return_op (\<lparr>item_offset = ?off, item_outcome = outcome\<rparr> # items, cs2)))) ?Q (\<lambda>_. rest)" for cs1
    by (rule hoare_fact, rule hoare_reads_known [where c = "receipt_outcome consumer member cs ds r"])
      (blast intro: same_progress_outcome, rule more)
  have outcome_of: "hoare (\<lambda>se. same_progress cs (snd x) \<and> alive (snd x) ?F se)
      (case x of (_, cs1) \<Rightarrow>
        and_then (reads (\<lambda>se. receipt_outcome consumer member cs1 (se_delivery se) r)) (\<lambda>outcome.
        and_then (ack_receipts cdc ho stream consumer member legacy rs cs1) (\<lambda>(items, cs2).
        return_op (\<lparr>item_offset = ?off, item_outcome = outcome\<rparr> # items, cs2)))) ?Q (\<lambda>_. rest)" for x :: "bool \<times> consumer_state"
    by (cases x) (simp only: prod.case snd_conv, rule outcome)
  show ?case
    unfolding ack_receipts.simps
    by (rule hoare_reads_delivery, rule hoare_weaken_pre [OF hoare_and_then [OF sched outcome_of]]) simp
qed

text \<open>The batch: every receipt is decided, and exactly the confirmed offsets are settled.\<close>

abbreviation batch_acks ::
  "consumer_state \<Rightarrow> string \<Rightarrow> delivery_receipt list \<Rightarrow> ack_batch_item list \<Rightarrow> session \<Rightarrow> bool" where
  "batch_acks s member receipts items se \<equiv> (\<exists>t ds. kept_from ds0 ds \<and> items = map (decided consumer member s ds) receipts \<and>
     live K cdc stream consumer log0 (length es) ds0 E t se \<and>
     (\<forall>x. settled t x \<longleftrightarrow> settled s x \<or> x \<in> set (confirmed_offsets items)) \<and>
     (\<forall>x \<in> set (confirmed_offsets items). get_in_flight consumer x (se_delivery se) = None))"

lemma live_flight:
  "live K cdc stream consumer log0 (length es) ds0 E s se \<Longrightarrow> get_in_flight consumer off (se_delivery se) \<noteq> None \<Longrightarrow>
   off < length es \<and> off |\<in>| fmdom (delivery_attempts s)"
  unfolding live_def durable_def known_attempts_def by blast

lemma hoare_ack_confirmed:
  assumes ctx: ctx_ok and k: "kept_from ds0 ds" and items: "items = map (decided consumer member s ds) receipts"
    and same: "same_progress s cs"
  shows "hoare (alive cs (same_flights consumer ds)) (ack_confirmed cdc ho stream consumer items cs)
    (batch_acks s member receipts) (\<lambda>_. rest)"
proof (rule hoare_alive)
  assume wf: "cs_wf cs"
  let ?F = "same_flights consumer ds" and ?offs = "confirmed_offsets items"
  have same_settled: "settled cs x = settled s x" for x using same by (simp add: same_progress_def settled_def)
  have flight: "get_in_flight consumer off ds \<noteq> None" if "off \<in> set ?offs" for off
    using that items by (auto simp: confirmed_offsets_def decided_def receipt_outcome_def Let_def split: if_splits option.splits)
  show "hoare (alive cs ?F) (ack_confirmed cdc ho stream consumer items cs) (batch_acks s member receipts) (\<lambda>_. rest)"
  proof (cases "\<forall>off \<in> set ?offs. off < length es")
    case False
    then obtain off where off: "off \<in> set ?offs" "\<not> off < length es" by blast
    have "\<not> alive cs ?F se" for se
      using flight [OF off(1)] off(2) live_flight [of cs se off] unfolding same_flights_def by metis
    then show ?thesis by (rule hoare_vacuous)
  next
    case True
    then have below: "\<And>off. off \<in> set ?offs \<Longrightarrow> off < length es" by blast
    have u: "list_all (\<lambda>off. off < u64_max) ?offs" using below entries_below [OF ctx] by (auto simp: list_all_iff)
    note all = cs_progress.acks_done [OF wf u]
    show ?thesis
    proof (cases "?offs = []")
      case True
      have "hoare (alive cs ?F) (return_op items) (batch_acks s member receipts) (\<lambda>_. rest)"
        by (rule hoare_weaken_pre [OF hoare_return]) (use k items True same_settled in auto)
      with True show ?thesis by (simp add: ack_confirmed_def)
    next
      case False
      have h: "hoare (alive cs ?F) (and_then (persist_event cdc stream consumer cs (AcknowledgeBatch ?offs)) (\<lambda>_.
         and_then (change_delivery (fold (remove_delivery consumer) ?offs)) (\<lambda>_.
         and_then (cache_state ho consumer (names_set stream consumer (fold acknowledge ?offs cs))) (\<lambda>_.
         and_then notify_waiters (\<lambda>_. return_op items)))))
        (\<lambda>r se. r = items \<and> alive (fold acknowledge ?offs cs) (\<lambda>ds'. \<forall>x \<in> set ?offs. get_in_flight consumer x ds' = None) se) (\<lambda>_. rest)"
        by (rule hoare_acknowledge [OF ctx below])
          (use u in \<open>auto simp: event_bounded_def list_all_iff flights.lookup_dels\<close>)
      have post: "batch_acks s member receipts r se"
        if "r = items \<and> alive (fold acknowledge ?offs cs) (\<lambda>ds'. \<forall>x \<in> set ?offs. get_in_flight consumer x ds' = None) se" for r se
        using that k items all same_settled by (intro exI [of _ "fold acknowledge ?offs cs"] exI [of _ ds]) simp
      from False show ?thesis
        unfolding ack_confirmed_def by (simp only: Let_def if_False) (rule hoare_strengthen_post [OF h], rule post)
    qed
  qed
qed

lemma hoare_ack_batch_locked:
  assumes ctx: ctx_ok
  shows "hoare (fresh s) (ack_batch_locked cdc ho stream consumer member receipts) (batch_acks s member receipts) (\<lambda>_. rest)"
proof -
  have decide: "hoare (alive cs1 (kept_from ds0))
      (and_then (ack_receipts cdc ho stream consumer member legacy receipts cs1) (\<lambda>(items, cs).
       ack_confirmed cdc ho stream consumer items cs)) (batch_acks s member receipts) (\<lambda>_. rest)"
    if cs1: "\<exists>rs. cs1 = insert_schedules rs s" for cs1
  proof (rule hoare_each_flight)
    fix ds
    assume k: "kept_from ds0 ds"
    have same: "same_progress s cs1" using cs1 by (auto simp: same_progress_def)
    have eq: "decided consumer member cs1 ds = decided consumer member s ds"
      using same_progress_outcome [OF same] by (auto simp: decided_def same_flights_def)
    have cont: "hoare (case x of (items, cs) \<Rightarrow> \<lambda>se. items = map (decided consumer member cs1 ds) receipts \<and>
         same_progress cs1 cs \<and> alive cs (same_flights consumer ds) se)
      (case x of (items, cs) \<Rightarrow> ack_confirmed cdc ho stream consumer items cs) (batch_acks s member receipts) (\<lambda>_. rest)"
      for x :: "ack_batch_item list \<times> consumer_state"
      by (cases x) (simp only: prod.case eq, rule hoare_fact, rule hoare_fact, rule hoare_ack_confirmed [OF ctx k],
          assumption, use same in \<open>auto simp: same_progress_def\<close>)
    show "hoare (alive cs1 (\<lambda>d. d = ds))
      (and_then (ack_receipts cdc ho stream consumer member legacy receipts cs1) (\<lambda>(items, cs).
       ack_confirmed cdc ho stream consumer items cs)) (batch_acks s member receipts) (\<lambda>_. rest)"
      by (rule hoare_weaken_pre [OF hoare_and_then [OF hoare_ack_receipts [OF ctx] cont]]) (auto simp: same_flights_def)
  qed
  show ?thesis
    unfolding ack_batch_locked_def
    by (rule hoare_and_then [OF hoare_load_kept [OF ctx]], rule hoare_fact, simp only:,
        rule hoare_reads_known [where c = legacy], erule alive_legacy,
        rule hoare_and_then [OF hoare_instant(1) [where s = s and F = "kept_from ds0"]],
        rule hoare_and_then [OF hoare_observe_kept], rule hoare_fact, rule decide)
qed

text \<open>Policies.\<close>

lemma hoare_configure_locked:
  assumes ctx: ctx_ok and valid: "validate_consumer_policy timeout_ms max_attempts delay_ms = Inr ()"
  shows "hoare (fresh s) (configure_locked cdc ho stream consumer timeout_ms max_attempts delay_ms)
    (\<lambda>p se. cp_ack_timeout_ms p = timeout_ms \<and> cp_max_delivery_attempts p = max_attempts \<and> cp_retry_delay_ms p = delay_ms \<and>
       live K cdc stream consumer log0 (length es) ds0 E (s\<lparr>cs_policy := Some p\<rparr>) se) (\<lambda>_. rest)" (is "hoare _ _ ?Q _")
proof -
  let ?F = "kept_from ds0"
  have new: "hoare (alive s ?F)
      (and_then (persist_event cdc stream consumer s (PolicyConfigured p)) (\<lambda>_.
       and_then (cache_state ho consumer (s\<lparr>cs_policy := Some p, cs_stream := stream, cs_consumer := consumer\<rparr>)) (\<lambda>_.
       and_then notify_waiters (\<lambda>_. return_op p)))) ?Q (\<lambda>_. rest)"
    if p: "p = policy_configured version timeout_ms max_attempts delay_ms" "version \<noteq> 0" for p version
  proof (rule hoare_alive)
    assume wf: "cs_wf s" and names: "cs_stream s = stream" "cs_consumer s = consumer" and u: "attempts_u32 s"
    let ?t = "s\<lparr>cs_policy := Some p\<rparr>"
    have t: "s\<lparr>cs_policy := Some p, cs_stream := stream, cs_consumer := consumer\<rparr> = ?t"
      using names by (cases s) simp
    have ok: "validate_policy p = Inr ()" using p valid by (simp add: validate_policy_def policy_configured_def)
    have pers: "hoare (alive s ?F) (persist_event cdc stream consumer s (PolicyConfigured p))
        (\<lambda>_. written (known_attempts (length es) s) ?t ?F) (\<lambda>_. rest)"
      by (rule hoare_persist_event) (use ok u in \<open>auto simp: event_bounded_def attempts_u32_def settled_def\<close>)
    have cache: "hoare (written (known_attempts (length es) s) ?t ?F) (cache_state ho consumer ?t) (\<lambda>_. alive ?t ?F) (\<lambda>_. rest)"
      by (rule hoare_cache) (auto simp: known_attempts_def)
    have ret: "hoare (alive ?t ?F) (return_op p) ?Q (\<lambda>_. rest)"
      by (rule hoare_weaken_pre [OF hoare_return]) (simp add: p policy_configured_def)
    show "hoare (alive s ?F)
      (and_then (persist_event cdc stream consumer s (PolicyConfigured p)) (\<lambda>_.
       and_then (cache_state ho consumer (s\<lparr>cs_policy := Some p, cs_stream := stream, cs_consumer := consumer\<rparr>)) (\<lambda>_.
       and_then notify_waiters (\<lambda>_. return_op p)))) ?Q (\<lambda>_. rest)"
      unfolding t
      by (rule hoare_and_then [OF pers], rule hoare_and_then [OF cache],
          rule hoare_and_then [OF hoare_notify [where s = ?t and F = ?F]], rule ret)
  qed
  let ?version = "case cs_policy s of Some p \<Rightarrow> saturating_add64 (cp_version p) 1 | None \<Rightarrow> 1"
  have pos: "?version \<noteq> 0" by (auto simp: saturating_add64_def split: option.split)
  have keep: "hoare (alive s ?F) (return_op p) ?Q (\<lambda>_. rest)"
    if "cs_policy s = Some p" "cp_ack_timeout_ms p = timeout_ms" "cp_max_delivery_attempts p = max_attempts" "cp_retry_delay_ms p = delay_ms"
    for p
  proof -
    have eq: "s\<lparr>cs_policy := Some p\<rparr> = s" using that(1) by (cases s) simp
    show ?thesis by (rule hoare_weaken_pre [OF hoare_return], unfold eq) (simp add: that)
  qed
  show ?thesis
    unfolding configure_locked_def
  proof (rule hoare_and_then [OF hoare_load_kept [OF ctx]], rule hoare_fact, simp only: Let_def)
    let ?unchanged = "case cs_policy s of
           Some p \<Rightarrow> cp_ack_timeout_ms p = timeout_ms \<and> cp_max_delivery_attempts p = max_attempts \<and>
                     cp_retry_delay_ms p = delay_ms
         | None \<Rightarrow> False"
    show "hoare (alive s ?F) (if ?unchanged then return_op (the (cs_policy s))
        else if ?version = 0 then throw (Configuration ''consumer policy version exhausted'')
        else and_then (persist_event cdc stream consumer s (PolicyConfigured (policy_configured ?version timeout_ms max_attempts delay_ms))) (\<lambda>_.
             and_then (cache_state ho consumer
               (s\<lparr>cs_policy := Some (policy_configured ?version timeout_ms max_attempts delay_ms), cs_stream := stream, cs_consumer := consumer\<rparr>)) (\<lambda>_.
             and_then notify_waiters (\<lambda>_.
             return_op (policy_configured ?version timeout_ms max_attempts delay_ms))))) ?Q (\<lambda>_. rest)"
    proof (cases ?unchanged)
      case True
      then obtain p where p: "cs_policy s = Some p" "cp_ack_timeout_ms p = timeout_ms" "cp_max_delivery_attempts p = max_attempts"
        "cp_retry_delay_ms p = delay_ms"
        by (auto split: option.splits)
      from True show ?thesis
        by (simp only: if_True) (simp only: p(1) option.sel, rule keep [OF p])
    next
      case False
      then show ?thesis
        unfolding if_not_P [OF False] if_not_P [OF pos] by (intro new [OF refl pos])
    qed
  qed
qed

end

end
