(* ===== verification/Broker_Surroundings.thy ===== *)
theory Broker_Surroundings
  imports Broker_Receipts
begin

text \<open>
  The surroundings of a request: what the rest of the broker satisfies while the request runs, for
  arbitrary faults of the files and of the other streams' logs. The interface of a request is
  interpreted in them, and a triple of a session becomes a statement about the broker.
\<close>

section \<open>Clocks and names\<close>

definition clock_sane :: "broker \<Rightarrow> bool" where
  "clock_sane b \<longleftrightarrow> list_all (\<lambda>t. t < int u64_max) (env_clock (br_env b))"

text \<open>
  A broker that a request on \<open>stream\<close> made of \<open>b0\<close>: the files of other consumers and the other streams
  are those of \<open>b0\<close>, except for the dead-letter target of \<open>stream\<close>.
\<close>

definition surrounds :: "string \<Rightarrow> broker \<Rightarrow> broker \<Rightarrow> bool" where
  "surrounds stream b0 b \<longleftrightarrow>
     env_files (br_env b) = env_files (br_env b0) \<and>
     (\<forall>st. dead_letter_stream_name stream \<noteq> Inr st \<longrightarrow> fmlookup (br_streams b) st = fmlookup (br_streams b0) st)"

definition calm :: "broker \<Rightarrow> string \<Rightarrow> bool \<Rightarrow> consumer_policy \<Rightarrow> broker \<Rightarrow> bool" where
  "calm b0 stream dead_letter legacy b \<longleftrightarrow>
     valid_name stream \<and> clock_sane b \<and> legacy_policy b = legacy \<and>
     is_dead_letter_stream (fmdom (br_streams b)) stream = dead_letter \<and> surrounds stream b0 b"

text \<open>Creating the dead-letter target of a stream does not make the stream a dead-letter stream.\<close>

lemma target_no_source:
  assumes "valid_name stream" "dead_letter_stream_name stream = Inr target"
  shows "dead_letter_stream_name target \<noteq> Inr stream"
proof
  assume src: "dead_letter_stream_name target = Inr stream"
  have size: "length t = length s + 12 \<or> (116 < length s \<and> length t = 35)"
    if "valid_name s" "dead_letter_stream_name s = Inr t" for s t
    using that by (auto simp: dead_letter_stream_name_cases DEAD_LETTER_SUFFIX_def DEAD_LETTER_HASH_PREFIX_def split: if_splits)
  from size [OF assms] size [OF dead_letter_stream_name_valid [OF assms] src] show False by auto
qed

lemma create_keeps_dead_letter:
  assumes "valid_name stream" "dead_letter_stream_name stream = Inr target"
  shows "is_dead_letter_stream (finsert target streams) stream = is_dead_letter_stream streams stream"
  using target_no_source [OF assms] by (simp add: is_dead_letter_stream_def)

lemma calm_steps:
  assumes "calm b0 stream dead_letter legacy b"
  shows "wall_clock_ms b = (r, b') \<Longrightarrow> calm b0 stream dead_letter legacy b' \<and> (\<exists>t < u64_max. r = Inr t)"
    and "calm b0 stream dead_letter legacy (snd (instant_now b))" "calm b0 stream dead_letter legacy (snd (take_token b))"
    and "calm b0 stream dead_letter legacy (count_redelivery b)" "calm b0 stream dead_letter legacy (count_dead_letter b)"
proof -
  show "calm b0 stream dead_letter legacy b' \<and> (\<exists>t < u64_max. r = Inr t)" if run: "wall_clock_ms b = (r, b')"
  proof (cases "env_clock (br_env b)")
    case Nil
    with run assms show ?thesis by (auto simp: wall_clock_ms_def)
  next
    case (Cons t ts)
    with assms have "t < int u64_max" by (simp add: calm_def clock_sane_def)
    then have "nat t < u64_max" by linarith
    with Cons run assms show ?thesis
      by (auto simp: wall_clock_ms_def calm_def clock_sane_def legacy_policy_def surrounds_def)
  qed
qed (use assms in \<open>auto simp: calm_def clock_sane_def legacy_policy_def instant_now_def take_token_def
  count_redelivery_def count_dead_letter_def surrounds_def split: list.split prod.split\<close>)

lemma create_shape:
  "snd (get_or_create_stream target b) = b \<or>
   (\<exists>log. snd (get_or_create_stream target b) = b\<lparr>br_streams := fmupd target (new_stream_state log) (br_streams b)\<rparr> \<and>
      target |\<notin>| fmdom (br_streams b) \<and> create_log (fst (env_new_logs (br_env b) target)) (snd (env_new_logs (br_env b) target)) = Inr log)"
  by (auto simp: get_or_create_stream_def fmdom_notI split: option.split prod.split sum.split)

lemma on_stream_shape:
  "snd (on_stream target m b) = b \<or>
   (\<exists>ss. fmlookup (br_streams b) target = Some ss \<and>
      snd (on_stream target m b) = b\<lparr>br_streams := fmupd target (snd (m ss)) (br_streams b)\<rparr>)"
  by (auto simp: on_stream_def split: option.split prod.split)

lemma calm_create:
  assumes "calm b0 stream dead_letter legacy b" "dead_letter_stream_name stream = Inr target"
  shows "calm b0 stream dead_letter legacy (snd (get_or_create_stream target b))"
    and "calm b0 stream dead_letter legacy (snd (on_stream target m b))"
proof -
  have v: "valid_name stream" using assms(1) by (simp add: calm_def)
  show "calm b0 stream dead_letter legacy (snd (get_or_create_stream target b))"
    using create_shape [of target b] assms
    by (auto simp: calm_def clock_sane_def legacy_policy_def surrounds_def create_keeps_dead_letter [OF v assms(2)])
  have "is_dead_letter_stream (fmdom (fmupd target ss (br_streams b))) stream = is_dead_letter_stream (fmdom (br_streams b)) stream" for ss
    by (simp add: create_keeps_dead_letter [OF v assms(2)])
  then show "calm b0 stream dead_letter legacy (snd (on_stream target m b))"
    using on_stream_shape [of target m b] assms(1,2) by (auto simp: calm_def clock_sane_def legacy_policy_def surrounds_def)
qed

interpretation faulty: request_env "calm b0 stream dead_letter legacy" stream cdc ho consumer log0 es junk ds0 dead_letter legacy K
  for b0 stream cdc ho consumer log0 es junk ds0 dead_letter legacy K
  by unfold_locales (auto simp: calm_steps calm_create, auto simp: calm_def)

section \<open>From the broker to a session and back\<close>

text \<open>
  What a request on a consumer needs to know of the broker: the stream's log holds the entries
  \<open>es\<close>, and the consumer is at rest in the state \<open>s\<close>.
\<close>

definition consumer_ok :: "codec \<Rightarrow> string \<Rightarrow> string \<Rightarrow> log_entry list \<Rightarrow> consumer_state \<Rightarrow> broker \<Rightarrow> bool" where
  "consumer_ok cdc stream consumer es s b \<longleftrightarrow>
     (\<exists>ss junk. fmlookup (br_streams b) stream = Some ss \<and> log_ok es junk (ss_log ss) \<and> torn_frame junk \<and>
        rest_in {} cdc stream consumer (length es) s (ss_delivery ss, env_files (br_env b) stream consumer))"

definition flights_of :: "string \<Rightarrow> broker \<Rightarrow> delivery_state" where
  "flights_of stream b =
     (case fmlookup (br_streams b) stream of None \<Rightarrow> new_delivery_state | Some ss \<Rightarrow> ss_delivery ss)"

lemma close_session_sel [simp]:
  "fmlookup (br_streams (close_session stream consumer se)) stream =
     Some \<lparr>ss_log = se_log se, ss_delivery = se_delivery se, ss_wakes = se_wakes se\<rparr>"
  "st \<noteq> stream \<Longrightarrow> fmlookup (br_streams (close_session stream consumer se)) st = fmlookup (br_streams (se_broker se)) st"
  "env_files (br_env (close_session stream consumer se)) stream consumer = se_store se"
  "(st, c) \<noteq> (stream, consumer) \<Longrightarrow>
     env_files (br_env (close_session stream consumer se)) st c = env_files (br_env (se_broker se)) st c"
  "flights_of stream (close_session stream consumer se) = se_delivery se"
  by (auto simp: close_session_def Let_def flights_of_def)

lemma lock_stream_run:
  assumes ss: "fmlookup (br_streams b) stream = Some ss" and E: "E b"
    and at: "rest_in K cdc stream consumer (length es) s (ss_delivery ss, env_files (br_env b) stream consumer)"
    and h: "hoare (\<lambda>se. resting K cdc stream consumer (ss_log ss) (length es) (ss_delivery ss) E se \<and>
        rest_in K cdc stream consumer (length es) s (se_delivery se, se_store se) \<and> se_delivery se = ss_delivery ss)
      m Q (\<lambda>_. resting K cdc stream consumer (ss_log ss) (length es) (ss_delivery ss) E)"
    and run: "lock_stream stream consumer m b = (r, b')"
  shows "\<exists>se. b' = close_session stream consumer se \<and>
    (case r of Inl e \<Rightarrow> resting K cdc stream consumer (ss_log ss) (length es) (ss_delivery ss) E se | Inr x \<Rightarrow> Q x se)"
proof -
  let ?se = "open_session stream consumer ss b"
  from at E have pre: "resting K cdc stream consumer (ss_log ss) (length es) (ss_delivery ss) E ?se \<and>
      rest_in K cdc stream consumer (length es) s (se_delivery ?se, se_store ?se) \<and> se_delivery ?se = ss_delivery ss"
    by (auto simp: resting_def at_rest_def open_session_def)
  obtain r1 se where m: "m ?se = (r1, se)" by fastforce
  with run ss have "r = r1" "b' = close_session stream consumer se" by (auto simp: lock_stream_def)
  with hoareD_ok [OF h pre] hoareD_err [OF h pre] m show ?thesis by (auto split: sum.split)
qed

lemma rest_in_kept: "rest_in K cdc stream consumer n s w \<Longrightarrow> rest_in {} cdc stream consumer n s w \<and> state_kept K s"
  by (simp add: rest_in_def state_kept_def)

lemma closed_at:
  assumes "rest_in K cdc stream consumer (length es) t (se_delivery se, se_store se)" "reading log0 (se_log se)"
    "log_ok es junk log0" "torn_frame junk"
  shows "consumer_ok cdc stream consumer es t (close_session stream consumer se)" "state_kept K t"
  using rest_in_kept [OF assms(1)] reading_log_ok [OF assms(2,3)] assms(4)
  unfolding consumer_ok_def close_session_sel by auto

text \<open>
  What every request on a consumer keeps, whether it succeeds or fails: the consumer is at rest in a
  state that has all its settled offsets, the clock stays sane, the logs are only read, and the other
  consumers are as before, those of the stream's dead-letter target excepted.
\<close>

definition logs_read :: "string \<Rightarrow> broker \<Rightarrow> broker \<Rightarrow> bool" where
  "logs_read stream b b' \<longleftrightarrow>
     (\<forall>st ss. dead_letter_stream_name stream \<noteq> Inr st \<longrightarrow> fmlookup (br_streams b) st = Some ss \<longrightarrow>
        (\<exists>ss'. fmlookup (br_streams b') st = Some ss' \<and> reading (ss_log ss) (ss_log ss')))"

definition untouched :: "codec \<Rightarrow> string \<Rightarrow> string \<Rightarrow> broker \<Rightarrow> broker \<Rightarrow> bool" where
  "untouched cdc stream consumer b b' \<longleftrightarrow>
     (\<forall>st c es s. (st, c) \<noteq> (stream, consumer) \<longrightarrow> dead_letter_stream_name stream \<noteq> Inr st \<longrightarrow>
        consumer_ok cdc st c es s b \<longrightarrow> consumer_ok cdc st c es s b')"

definition request_kept ::
  "codec \<Rightarrow> string \<Rightarrow> string \<Rightarrow> log_entry list \<Rightarrow> consumer_state \<Rightarrow> broker \<Rightarrow> consumer_state \<Rightarrow> broker \<Rightarrow> bool" where
  "request_kept cdc stream consumer es s b t b' \<longleftrightarrow>
     consumer_ok cdc stream consumer es t b' \<and> (\<forall>off. settled s off \<longrightarrow> settled t off) \<and>
     clock_sane b' \<and> legacy_policy b' = legacy_policy b \<and> logs_read stream b b' \<and> untouched cdc stream consumer b b'"

lemma request_kept_same:
  "consumer_ok cdc stream consumer es s b \<Longrightarrow> clock_sane b \<Longrightarrow> request_kept cdc stream consumer es s b s b"
  by (simp add: request_kept_def untouched_def logs_read_def)

lemma rest_in_other:
  assumes "rest_in {} cdc stream c n s (ds0, d)" "others_kept consumer ds0 ds" "c \<noteq> consumer" "ds_wf ds"
  shows "rest_in {} cdc stream c n s (ds, d)"
  using assms by (auto simp: rest_in_def request_ok_def consumer_view_def flights_open_def others_kept_def)

lemma closed_untouched:
  assumes ss: "fmlookup (br_streams b) stream = Some ss" "log_ok es junk (ss_log ss)" "torn_frame junk"
    and se: "calm b stream dead_letter legacy (se_broker se)" "others_kept consumer (ss_delivery ss) (se_delivery se)"
      "ds_wf (se_delivery se)" "reading (ss_log ss) (se_log se)"
  shows "untouched cdc stream consumer b (close_session stream consumer se)"
  unfolding untouched_def
proof (intro allI impI)
  fix st c es' s
  assume ne: "(st, c) \<noteq> (stream, consumer)" "dead_letter_stream_name stream \<noteq> Inr st" and ok: "consumer_ok cdc st c es' s b"
  from ok obtain ss' junk' where ss': "fmlookup (br_streams b) st = Some ss'" "log_ok es' junk' (ss_log ss')" "torn_frame junk'"
    "rest_in {} cdc st c (length es') s (ss_delivery ss', env_files (br_env b) st c)"
    by (auto simp: consumer_ok_def)
  from se(1) have files: "env_files (br_env (se_broker se)) = env_files (br_env b)"
    and streams: "fmlookup (br_streams (se_broker se)) st = fmlookup (br_streams b) st"
    using ne by (auto simp: calm_def surrounds_def)
  show "consumer_ok cdc st c es' s (close_session stream consumer se)"
  proof (cases "st = stream")
    case True
    with ss' ss(1) ne have "rest_in {} cdc st c (length es') s (se_delivery se, env_files (br_env b) st c)"
      by (intro rest_in_other [OF _ se(2) _ se(3)]) auto
    with True ss' ss(1) ne files reading_log_ok [OF se(4), of es' junk'] show ?thesis
      by (auto simp: consumer_ok_def)
  next
    case False
    with ss' ne files streams show ?thesis by (auto simp: consumer_ok_def)
  qed
qed

lemma closed_logs:
  assumes "fmlookup (br_streams b) stream = Some ss" "calm b stream dead_letter legacy (se_broker se)"
    "reading (ss_log ss) (se_log se)"
  shows "logs_read stream b (close_session stream consumer se)"
  unfolding logs_read_def
proof (intro allI impI)
  fix st ss'
  assume st: "dead_letter_stream_name stream \<noteq> Inr st" "fmlookup (br_streams b) st = Some ss'"
  with assms(2) have "fmlookup (br_streams (se_broker se)) st = Some ss'" by (simp add: calm_def surrounds_def)
  with st assms(1,3)
  show "\<exists>ss1. fmlookup (br_streams (close_session stream consumer se)) st = Some ss1 \<and> reading (ss_log ss') (ss_log ss1)"
    by (cases "st = stream") auto
qed

text \<open>A request whose session satisfies a triple for every surrounding.\<close>

lemma live_open:
  assumes "live K cdc stream consumer log0 n ds0 E t se"
  shows "get_in_flight consumer off (se_delivery se) \<noteq> None \<Longrightarrow> \<not> settled t off"
proof -
  have "cs_wf t" using assms stored_wf unfolding live_def durable_def by blast
  then show "get_in_flight consumer off (se_delivery se) \<noteq> None \<Longrightarrow> \<not> settled t off"
    using assms unfolding live_def durable_def known_attempts_def cs_wf_def by blast
qed

lemma locked_request_open:
  assumes ok: "consumer_ok cdc stream consumer es s b" and calm: "calm b stream dead_letter (legacy_policy b) b"
    and h: "\<And>ss junk K. fmlookup (br_streams b) stream = Some ss \<Longrightarrow> log_ok es junk (ss_log ss) \<Longrightarrow> torn_frame junk \<Longrightarrow>
      hoare (\<lambda>se. resting K cdc stream consumer (ss_log ss) (length es) (ss_delivery ss) (calm b stream dead_letter (legacy_policy b)) se \<and>
        rest_in K cdc stream consumer (length es) s (se_delivery se, se_store se) \<and> se_delivery se = ss_delivery ss)
      m (\<lambda>x se. \<exists>t. live K cdc stream consumer (ss_log ss) (length es) (ss_delivery ss) (calm b stream dead_letter (legacy_policy b)) t se \<and>
           Q x t (se_delivery se))
      (\<lambda>_. resting K cdc stream consumer (ss_log ss) (length es) (ss_delivery ss) (calm b stream dead_letter (legacy_policy b)))"
    and run: "lock_stream stream consumer m b = (r, b')"
  shows "\<exists>t. request_kept cdc stream consumer es s b t b' \<and> (\<forall>x. r = Inr x \<longrightarrow> Q x t (flights_of stream b') \<and>
    (\<forall>off. get_in_flight consumer off (flights_of stream b') \<noteq> None \<longrightarrow> \<not> settled t off))"
proof -
  let ?K = "{off. settled s off}" and ?C = "calm b stream dead_letter (legacy_policy b)"
  obtain ss junk where ss: "fmlookup (br_streams b) stream = Some ss" "log_ok es junk (ss_log ss)" "torn_frame junk"
    "rest_in {} cdc stream consumer (length es) s (ss_delivery ss, env_files (br_env b) stream consumer)"
    using ok by (auto simp: consumer_ok_def)
  then have "rest_in ?K cdc stream consumer (length es) s (ss_delivery ss, env_files (br_env b) stream consumer)"
    by (simp add: rest_in_def state_kept_def)
  from lock_stream_run [OF ss(1) calm this h [OF ss(1-3)] run] obtain se where b': "b' = close_session stream consumer se"
    and post: "case r of Inl e \<Rightarrow> resting ?K cdc stream consumer (ss_log ss) (length es) (ss_delivery ss) ?C se
      | Inr x \<Rightarrow> \<exists>t. live ?K cdc stream consumer (ss_log ss) (length es) (ss_delivery ss) ?C t se \<and> Q x t (se_delivery se)"
    by blast
  from post have rest: "resting ?K cdc stream consumer (ss_log ss) (length es) (ss_delivery ss) ?C se"
    by (auto split: sum.splits intro: live_resting)
  have reading: "reading (ss_log ss) (se_log se)" using rest by (simp add: resting_def)
  note at = closed_at [OF _ reading ss(2,3)]
  have "\<exists>t. consumer_ok cdc stream consumer es t b' \<and> state_kept ?K t \<and> (\<forall>x. r = Inr x \<longrightarrow> Q x t (flights_of stream b') \<and>
      (\<forall>off. get_in_flight consumer off (flights_of stream b') \<noteq> None \<longrightarrow> \<not> settled t off))"
  proof (cases r)
    case (Inl e)
    with rest at show ?thesis unfolding b' resting_def at_rest_def by blast
  next
    case (Inr x)
    with post obtain t where t: "live ?K cdc stream consumer (ss_log ss) (length es) (ss_delivery ss) ?C t se" "Q x t (se_delivery se)"
      by auto
    from at [OF live_rest_in [OF t(1)]] t(2) live_open [OF t(1)] Inr show ?thesis unfolding b' by auto
  qed
  moreover from rest have "clock_sane b' \<and> legacy_policy b' = legacy_policy b"
    by (simp add: resting_def b' calm_def clock_sane_def legacy_policy_def close_session_def Let_def)
  moreover from rest have "untouched cdc stream consumer b b'"
    unfolding b' by (intro closed_untouched [OF ss(1-3)]) (auto simp: resting_def at_rest_def rest_in_def request_ok_def)
  moreover from rest have "logs_read stream b b'"
    unfolding b' by (intro closed_logs [OF ss(1)]) (auto simp: resting_def)
  ultimately show ?thesis by (auto simp: request_kept_def state_kept_def)
qed

lemma locked_request:
  assumes ok: "consumer_ok cdc stream consumer es s b" and calm: "calm b stream dead_letter (legacy_policy b) b"
    and h: "\<And>ss junk K. fmlookup (br_streams b) stream = Some ss \<Longrightarrow> log_ok es junk (ss_log ss) \<Longrightarrow> torn_frame junk \<Longrightarrow>
      hoare (\<lambda>se. resting K cdc stream consumer (ss_log ss) (length es) (ss_delivery ss) (calm b stream dead_letter (legacy_policy b)) se \<and>
        rest_in K cdc stream consumer (length es) s (se_delivery se, se_store se) \<and> se_delivery se = ss_delivery ss)
      m (\<lambda>x se. \<exists>t. live K cdc stream consumer (ss_log ss) (length es) (ss_delivery ss) (calm b stream dead_letter (legacy_policy b)) t se \<and>
           Q x t (se_delivery se))
      (\<lambda>_. resting K cdc stream consumer (ss_log ss) (length es) (ss_delivery ss) (calm b stream dead_letter (legacy_policy b)))"
    and run: "lock_stream stream consumer m b = (r, b')"
  shows "\<exists>t. request_kept cdc stream consumer es s b t b' \<and> (\<forall>x. r = Inr x \<longrightarrow> Q x t (flights_of stream b'))"
  by (rule ex_forward [OF locked_request_open [OF ok calm _ run, where Q = Q]], erule (2) h) blast

end
