(* ===== verification/Broker_Outcomes.thy ===== *)
theory Broker_Outcomes
  imports Broker_Surroundings
begin

text \<open>
  The requests of the broker, for every fault of every file and every clock below the largest
  \<open>u64\<close>: what a poll answers, what an acknowledgement settles, what a policy changes, and that every
  request leaves the consumer at rest, with everything it had settled, and the others untouched.
\<close>

lemma calm_now: "clock_sane b \<Longrightarrow> valid_name stream \<Longrightarrow>
   calm b stream (is_dead_letter_stream (fmdom (br_streams b)) stream) (legacy_policy b) b"
  by (simp add: calm_def surrounds_def)

lemma poll_outcome:
  assumes ctx: "codec_ok cdc" "hash_order_ok (ho_keys ho)" "clock_sane b" and ok: "consumer_ok cdc stream consumer es s b"
    and run: "poll_group_inner cdc ho stream consumer member response_member limit b = (r, b')"
  shows "\<exists>t. request_kept cdc stream consumer es s b t b' \<and> (\<forall>x. r = Inr x \<longrightarrow> (\<exists>a. x = Done a \<and>
      answered stream consumer member es (is_dead_letter_stream (fmdom (br_streams b)) stream) (legacy_policy b)
        (flights_of stream b) t (flights_of stream b') a \<and>
      progressed (legacy_policy b) (is_dead_letter_stream (fmdom (br_streams b)) stream) s t \<and>
      (\<forall>off. get_in_flight consumer off (flights_of stream b') \<noteq> None \<longrightarrow> \<not> settled t off)))"
proof (cases "valid_name stream \<and> valid_name consumer \<and> valid_name member \<and>
    (case limit of None \<Rightarrow> True | Some n \<Rightarrow> validate_poll_response_limit n = Inr ())")
  case False
  then have "isl r \<and> b' = b"
    using run by (auto simp: poll_group_inner_def and_then_def lift_res_def validate_name_def split: option.splits sum.splits)
  with request_kept_same [OF ok ctx(3)] show ?thesis by auto
next
  case True
  let ?m = "poll_locked cdc ho stream consumer member response_member limit"
  let ?dl = "is_dead_letter_stream (fmdom (br_streams b)) stream" and ?legacy = "legacy_policy b"
  from True run have lock: "lock_stream stream consumer ?m b = (r, b')"
    by (auto simp: poll_group_inner_def and_then_def lift_res_def validate_name_def split: option.splits)
  have fl: "flights_of stream b = ss_delivery ss" if "fmlookup (br_streams b) stream = Some ss" for ss
    using that by (simp add: flights_of_def)
  let ?Q = "\<lambda>x t ds. \<exists>a. x = Done a \<and> answered stream consumer member es ?dl ?legacy (flights_of stream b) t ds a \<and> progressed ?legacy ?dl s t"
  have "\<exists>t. request_kept cdc stream consumer es s b t b' \<and> (\<forall>x. r = Inr x \<longrightarrow> ?Q x t (flights_of stream b') \<and>
    (\<forall>off. get_in_flight consumer off (flights_of stream b') \<noteq> None \<longrightarrow> \<not> settled t off))"
  proof (rule locked_request_open [OF ok calm_now [OF ctx(3)] _ lock, where Q = ?Q])
    fix ss junk K
    assume ss: "fmlookup (br_streams b) stream = Some ss" "log_ok es junk (ss_log ss)" "torn_frame junk"
    show "hoare (\<lambda>se. resting K cdc stream consumer (ss_log ss) (length es) (ss_delivery ss) (calm b stream ?dl ?legacy) se \<and>
        rest_in K cdc stream consumer (length es) s (se_delivery se, se_store se) \<and> se_delivery se = ss_delivery ss) ?m
      (\<lambda>x se. \<exists>t. live K cdc stream consumer (ss_log ss) (length es) (ss_delivery ss) (calm b stream ?dl ?legacy) t se \<and>
        ?Q x t (se_delivery se))
      (\<lambda>_. resting K cdc stream consumer (ss_log ss) (length es) (ss_delivery ss) (calm b stream ?dl ?legacy))"
      by (rule hoare_strengthen_post [OF faulty.hoare_poll_locked [where junk = junk]])
        (use ctx ss fl [OF ss(1)] in auto)
  qed (use True in simp)
  then show ?thesis by blast
qed

lemma ack_outcome:
  assumes ctx: "codec_ok cdc" "hash_order_ok (ho_keys ho)" "clock_sane b" and ok: "consumer_ok cdc stream consumer es s b"
    and run: "ack_group cdc ho stream consumer member off token b = (r, b')"
  shows "\<exists>t. request_kept cdc stream consumer es s b t b' \<and> (\<forall>x. r = Inr x \<longrightarrow>
      acknowledged_ok consumer member off token (flights_of stream b) s t (flights_of stream b') x)"
proof (cases "valid_name stream \<and> valid_name consumer \<and> valid_name member")
  case False
  then have "isl r \<and> b' = b"
    using run by (auto simp: ack_group_def and_then_def lift_res_def validate_name_def split: sum.splits)
  with request_kept_same [OF ok ctx(3)] show ?thesis by auto
next
  case True
  then have lock: "lock_stream stream consumer (ack_locked cdc ho stream consumer member off token) b = (r, b')"
    using run by (simp add: ack_group_def and_then_def lift_res_def validate_name_def)
  show ?thesis
    by (rule locked_request [OF ok calm_now [OF ctx(3)] _ lock], use True in simp,
        rule hoare_strengthen_post [OF faulty.hoare_ack_locked], use ctx in simp)
      (auto simp: flights_of_def)
qed

lemma ack_batch_outcome:
  assumes ctx: "codec_ok cdc" "hash_order_ok (ho_keys ho)" "clock_sane b" and ok: "consumer_ok cdc stream consumer es s b"
    and run: "ack_batch cdc ho stream consumer member receipts b = (r, b')"
  shows "\<exists>t. request_kept cdc stream consumer es s b t b' \<and> (\<forall>items. r = Inr items \<longrightarrow>
      (\<exists>ds. (\<forall>off d. get_in_flight consumer off ds = Some d \<longrightarrow> get_in_flight consumer off (flights_of stream b) = Some d) \<and>
         items = map (decided consumer member s ds) receipts \<and>
         (\<forall>x. settled t x \<longleftrightarrow> settled s x \<or> x \<in> set (confirmed_offsets items)) \<and>
         (\<forall>x \<in> set (confirmed_offsets items). get_in_flight consumer x (flights_of stream b') = None)))"
proof (cases "valid_name stream \<and> valid_name consumer \<and> valid_name member \<and> validate_ack_batch_receipts receipts = Inr ()")
  case False
  then have "isl r \<and> b' = b"
    using run by (auto simp: ack_batch_def and_then_def lift_res_def validate_name_def split: sum.splits)
  with request_kept_same [OF ok ctx(3)] show ?thesis by auto
next
  case True
  then have lock: "lock_stream stream consumer (ack_batch_locked cdc ho stream consumer member receipts) b = (r, b')"
    using run by (simp add: ack_batch_def and_then_def lift_res_def validate_name_def)
  show ?thesis
    by (rule locked_request [OF ok calm_now [OF ctx(3)] _ lock], use True in simp,
        rule hoare_strengthen_post [OF faulty.hoare_ack_batch_locked], use ctx in simp)
      (auto simp: flights_of_def)
qed

context request_env
begin

lemma hoare_inspect:
  assumes ctx: ctx_ok
  shows "hoare (fresh s) (and_then (load_for_request cdc ho stream consumer) (\<lambda>cs.
      reads (\<lambda>se. case cs_policy cs of Some p \<Rightarrow> p | None \<Rightarrow> legacy_policy (se_broker se))))
    (\<lambda>p se. p = (case cs_policy s of Some p \<Rightarrow> p | None \<Rightarrow> legacy) \<and> live K cdc stream consumer log0 (length es) ds0 E s se) (\<lambda>_. rest)"
proof (rule hoare_and_then [OF hoare_load_kept [OF ctx]], rule hoare_fact, simp only:)
  show "hoare (alive s (kept_from ds0)) (reads (\<lambda>se. case cs_policy s of Some p \<Rightarrow> p | None \<Rightarrow> legacy_policy (se_broker se)))
      (\<lambda>p se. p = (case cs_policy s of Some p \<Rightarrow> p | None \<Rightarrow> legacy) \<and> live K cdc stream consumer log0 (length es) ds0 E s se) (\<lambda>_. rest)"
    using alive_legacy [where t = s and F = "kept_from ds0"] by (auto simp: hoare_def reads_def split: option.split)
qed

end

lemma configure_outcome:
  assumes ctx: "codec_ok cdc" "hash_order_ok (ho_keys ho)" "clock_sane b" and ok: "consumer_ok cdc stream consumer es s b"
    and run: "configure_consumer cdc ho stream consumer timeout_ms max_attempts delay_ms b = (r, b')"
  shows "\<exists>t. request_kept cdc stream consumer es s b t b' \<and> (\<forall>p. r = Inr p \<longrightarrow>
      cp_ack_timeout_ms p = timeout_ms \<and> cp_max_delivery_attempts p = max_attempts \<and> cp_retry_delay_ms p = delay_ms \<and>
      t = s\<lparr>cs_policy := Some p\<rparr>)"
proof (cases "valid_name stream \<and> valid_name consumer \<and> validate_consumer_policy timeout_ms max_attempts delay_ms = Inr ()")
  case False
  then have "isl r \<and> b' = b"
    using run
    by (auto simp: configure_consumer_def and_then_def lift_res_def validate_name_def
        simp del: validate_consumer_policy_Inr split: sum.splits)
  with request_kept_same [OF ok ctx(3)] show ?thesis by auto
next
  case True
  then have lock: "lock_stream stream consumer (configure_locked cdc ho stream consumer timeout_ms max_attempts delay_ms) b = (r, b')"
    using run by (simp add: configure_consumer_def and_then_def lift_res_def validate_name_def del: validate_consumer_policy_Inr)
  let ?Q = "\<lambda>p t (ds :: delivery_state). cp_ack_timeout_ms p = timeout_ms \<and> cp_max_delivery_attempts p = max_attempts \<and>
      cp_retry_delay_ms p = delay_ms \<and> t = s\<lparr>cs_policy := Some p\<rparr>"
  show ?thesis
    by (rule locked_request [OF ok calm_now [OF ctx(3)] _ lock, where Q = ?Q], use True in blast,
        rule hoare_strengthen_post [OF faulty.hoare_configure_locked])
      (use True ctx in auto)
qed

lemma inspect_outcome:
  assumes ctx: "codec_ok cdc" "hash_order_ok (ho_keys ho)" "clock_sane b" and ok: "consumer_ok cdc stream consumer es s b"
    and run: "inspect_consumer cdc ho stream consumer b = (r, b')"
  shows "\<exists>t. request_kept cdc stream consumer es s b t b' \<and> (\<forall>p. r = Inr p \<longrightarrow>
      p = (case cs_policy s of Some p \<Rightarrow> p | None \<Rightarrow> legacy_policy b) \<and> t = s)"
proof (cases "valid_name stream \<and> valid_name consumer")
  case False
  then have "isl r \<and> b' = b"
    using run by (auto simp: inspect_consumer_def and_then_def lift_res_def validate_name_def split: sum.splits)
  with request_kept_same [OF ok ctx(3)] show ?thesis by auto
next
  case True
  let ?m = "and_then (load_for_request cdc ho stream consumer) (\<lambda>cs.
      reads (\<lambda>se. case cs_policy cs of Some p \<Rightarrow> p | None \<Rightarrow> legacy_policy (se_broker se)))"
  let ?Q = "\<lambda>x t (ds :: delivery_state). x = (case cs_policy s of Some p \<Rightarrow> p | None \<Rightarrow> legacy_policy b) \<and> t = s"
  from True run have lock: "lock_stream stream consumer ?m b = (r, b')"
    by (simp add: inspect_consumer_def and_then_def [of "lift_res _"] lift_res_def validate_name_def)
  show ?thesis
    by (rule locked_request [OF ok calm_now [OF ctx(3)] _ lock, where Q = ?Q], use True in blast,
        rule hoare_strengthen_post [OF faulty.hoare_inspect], use ctx in simp) auto
qed

end
