(* ===== verification/Broker_Collect.thy ===== *)
theory Broker_Collect
  imports Broker_Outcomes
begin

text \<open>
  Batch polls: the loop that collects records for a batch. It ends, and what it collected can be
  leased: distinct unsettled records of distinct keys, within the limits of the request.
\<close>

section \<open>What a batch collects\<close>

abbreviation pending_offset :: "pending_delivery \<Rightarrow> offset" where
  "pending_offset p \<equiv> m_offset (pd_message p)"

lemma delivery_message [simp]:
  "m_offset (with_delivery token attempt (entry_message stream es off)) = off"
  "m_key (with_delivery token attempt (entry_message stream es off)) = le_key (es ! off)"
  "m_delivery_token (with_delivery token attempt m) = Some token"
  by (simp_all add: with_delivery_def entry_message_def)

text \<open>A record that may be leased next: its attempt, its policy and its message.\<close>

definition pending_ok ::
  "consumer_policy \<Rightarrow> string \<Rightarrow> string \<Rightarrow> string \<Rightarrow> log_entry list \<Rightarrow> consumer_state \<Rightarrow> delivery_state \<Rightarrow> pending_delivery \<Rightarrow> bool" where
  "pending_ok legacy stream consumer seed es s ds p \<longleftrightarrow>
     pending_offset p < length es \<and> \<not> settled s (pending_offset p) \<and> get_in_flight consumer (pending_offset p) ds = None \<and>
     pd_key p = le_key (es ! pending_offset p) \<and>
     (\<forall>k o' d. pd_key p = Some k \<longrightarrow> get_in_flight consumer o' ds = Some d \<longrightarrow> if_key d \<noteq> Some k) \<and>
     pd_attempt p = saturating_add32 (attempts_of s (pending_offset p)) 1 \<and>
     policy_for_offset (pending_offset p) legacy s = Inr (pd_policy p) \<and>
     pd_message p = with_delivery (batch_token seed (pending_offset p)) (pd_attempt p) (entry_message stream es (pending_offset p))"

definition gathered ::
  "consumer_policy \<Rightarrow> string \<Rightarrow> string \<Rightarrow> string \<Rightarrow> log_entry list \<Rightarrow> consumer_state \<Rightarrow> delivery_state \<Rightarrow>
   offset fset \<Rightarrow> string fset \<Rightarrow> pending_delivery list \<Rightarrow> bool" where
  "gathered legacy stream consumer seed es s ds offsets keys ps \<longleftrightarrow>
     (\<forall>p \<in> set ps. pending_ok legacy stream consumer seed es s ds p \<and> pending_offset p |\<in>| offsets \<and>
        (\<forall>k. pd_key p = Some k \<longrightarrow> k |\<in>| keys)) \<and>
     distinct (map pending_offset ps) \<and> distinct (List.map_filter pd_key ps)"

text \<open>The state of the consumer while records are collected: only records whose attempts are used up
  are settled, the others keep their attempts and policies.\<close>

definition steady :: "consumer_policy \<Rightarrow> bool \<Rightarrow> consumer_state \<Rightarrow> consumer_state \<Rightarrow> bool" where
  "steady legacy dead_letter s0 s \<longleftrightarrow>
     progressed legacy dead_letter s0 s \<and>
     (\<forall>off. \<not> settled s off \<longrightarrow>
        attempts_of s off = attempts_of s0 off \<and> policy_for_offset off legacy s = policy_for_offset off legacy s0)"

definition sized ::
  "string \<Rightarrow> string \<Rightarrow> string option \<Rightarrow> consume_batch_limits \<Rightarrow> poll_batch_response_sizer \<Rightarrow> message list \<Rightarrow> bool" where
  "sized stream consumer response_member limits z ms \<longleftrightarrow>
     z = foldl sizer_push (sizer_new stream consumer response_member) ms \<and>
     length ms \<le> max_records limits \<and> (ms \<noteq> [] \<longrightarrow> sz_encoded_len z \<le> max_bytes limits)"

lemma steady_refl: "steady legacy dead_letter s s"
  by (simp add: steady_def progressed_def)

lemma scheduled_same:
  "settled (scheduled off r s) x = settled s x" "attempts_of (scheduled off r s) x = attempts_of s x"
  "policy_for_offset x legacy (scheduled off r s) = policy_for_offset x legacy s"
  by (simp_all add: settled_def attempts_of_def policy_for_offset_def split: option.split)

lemma acknowledge_same:
  assumes "cs_wf s" "off < u64_max"
  shows "settled (acknowledge off s) x \<longleftrightarrow> settled s x \<or> x = off"
    and "x \<noteq> off \<Longrightarrow> attempts_of (acknowledge off s) x = attempts_of s x"
    and "x \<noteq> off \<Longrightarrow> policy_for_offset x legacy (acknowledge off s) = policy_for_offset x legacy s"
proof -
  have u: "list_all (\<lambda>off. off < u64_max) [off]" using assms(2) by simp
  show "settled (acknowledge off s) x \<longleftrightarrow> settled s x \<or> x = off"
    using cs_progress.acks_done [OF assms(1) u] by simp
  show "attempts_of (acknowledge off s) x = attempts_of s x" "policy_for_offset x legacy (acknowledge off s) = policy_for_offset x legacy s"
    if "x \<noteq> off"
    using fold_acknowledge_sel [OF assms(1) u, of x] that
    by (simp_all add: attempts_of_def policy_for_offset_def fmlookup_dom_iff split: option.split)
qed

lemma steady_scheduled: "steady legacy dead_letter s0 s \<Longrightarrow> steady legacy dead_letter s0 (scheduled off r s)"
  by (simp add: steady_def progressed_def scheduled_same)

lemma steady_acknowledge:
  assumes "steady legacy dead_letter s0 s" "cs_wf s" "off < u64_max" "is_terminal legacy dead_letter s off" "\<not> settled s off"
  shows "steady legacy dead_letter s0 (acknowledge off s)"
proof -
  have "is_terminal legacy dead_letter s0 off"
    using assms(1,4,5) by (auto simp: steady_def is_terminal_def)
  then show ?thesis
    using assms(1) unfolding steady_def progressed_def acknowledge_same(1) [OF assms(2,3)]
    by (auto simp: acknowledge_same [OF assms(2,3)])
qed

lemma gathered_scheduled:
  "gathered legacy stream consumer seed es s ds offsets keys ps \<Longrightarrow>
   gathered legacy stream consumer seed es (scheduled off r s) ds (finsert off offsets) (insert_key key keys) ps"
  by (auto simp: gathered_def pending_ok_def scheduled_same insert_key_def split: option.splits)

lemma gathered_acknowledge:
  assumes g: "gathered legacy stream consumer seed es s ds offsets keys ps" and "cs_wf s" "off < u64_max" "off |\<notin>| offsets"
  shows "gathered legacy stream consumer seed es (acknowledge off s) ds offsets keys ps"
proof -
  have "pending_offset p \<noteq> off" if "p \<in> set ps" for p using g assms(4) that by (auto simp: gathered_def)
  with g show ?thesis by (auto simp: gathered_def pending_ok_def acknowledge_same [OF assms(2,3)])
qed

lemma gathered_snoc:
  assumes g: "gathered legacy stream consumer seed es s ds offsets keys ps" and p: "pending_ok legacy stream consumer seed es s ds p"
    and new: "pending_offset p |\<notin>| offsets" "\<And>k. pd_key p = Some k \<Longrightarrow> k |\<notin>| keys"
  shows "gathered legacy stream consumer seed es s ds (finsert (pending_offset p) offsets) (insert_key (pd_key p) keys) (ps @ [p])"
proof -
  have "k |\<in>| keys" if "k \<in> set (List.map_filter pd_key ps)" for k
    using that g by (auto simp: gathered_def List.map_filter_def)
  then have keys: "distinct (List.map_filter pd_key (ps @ [p]))"
    using g new(2) by (cases "pd_key p") (auto simp: gathered_def List.map_filter_def)
  have "pending_offset p \<notin> set (map pending_offset ps)" using g new(1) by (auto simp: gathered_def)
  then have "distinct (map pending_offset (ps @ [p]))" using g by (simp add: gathered_def)
  with g p keys show ?thesis by (auto simp: gathered_def insert_key_def split: option.splits)
qed

definition uncollected :: "log_entry list \<Rightarrow> consumer_state \<Rightarrow> offset fset \<Rightarrow> offset set" where
  "uncollected es s offsets = {off. off < length es \<and> off |\<notin>| offsets \<and> \<not> settled s off}"

lemma uncollected_less:
  assumes "off \<in> uncollected es s offsets" "\<And>x. settled s x \<Longrightarrow> settled t x" "offsets |\<subseteq>| offsets'" "settled t off \<or> off |\<in>| offsets'"
  shows "card (uncollected es t offsets') < card (uncollected es s offsets)"
proof (rule psubset_card_mono)
  show "finite (uncollected es s offsets)" by (rule finite_subset [of _ "{..<length es}"]) (auto simp: uncollected_def)
  show "uncollected es t offsets' \<subset> uncollected es s offsets"
    using assms by (auto simp: uncollected_def dest: fsubsetD)
qed

definition collecting ::
  "consumer_policy \<Rightarrow> bool \<Rightarrow> string \<Rightarrow> string \<Rightarrow> string \<Rightarrow> string option \<Rightarrow> consume_batch_limits \<Rightarrow> log_entry list \<Rightarrow>
   consumer_state \<Rightarrow> delivery_state \<Rightarrow> offset fset \<Rightarrow> string fset \<Rightarrow> pending_delivery list \<Rightarrow> poll_batch_response_sizer \<Rightarrow>
   consumer_state \<Rightarrow> bool" where
  "collecting legacy dead_letter stream consumer seed response_member limits es s0 ds offsets keys ps z s \<longleftrightarrow>
     gathered legacy stream consumer seed es s ds offsets keys ps \<and> steady legacy dead_letter s0 s \<and>
     sized stream consumer response_member limits z (map pd_message ps)"

definition collected_ok ::
  "consumer_policy \<Rightarrow> bool \<Rightarrow> string \<Rightarrow> string \<Rightarrow> string \<Rightarrow> string option \<Rightarrow> consume_batch_limits \<Rightarrow> log_entry list \<Rightarrow>
   consumer_state \<Rightarrow> delivery_state \<Rightarrow> collected \<Rightarrow> bool" where
  "collected_ok legacy dead_letter stream consumer seed response_member limits es s0 ds c \<longleftrightarrow>
     (\<exists>offsets keys. collecting legacy dead_letter stream consumer seed response_member limits es s0 ds offsets keys
        (co_pending c) (co_sizer c) (co_state c))"

context request_env
begin

abbreviation gathers ::
  "string \<Rightarrow> string option \<Rightarrow> consume_batch_limits \<Rightarrow> consumer_state \<Rightarrow> delivery_state \<Rightarrow> collected run \<Rightarrow> session \<Rightarrow> bool" where
  "gathers seed response_member limits s0 ds r se \<equiv>
     (\<exists>c. r = Done c \<and> collected_ok legacy dead_letter stream consumer seed response_member limits es s0 ds c \<and>
        alive (co_state c) (same_flights consumer ds) se)"

text \<open>The loop, as far as a round relies on it: it ends while fewer than \<open>n\<close> records are left.\<close>

abbreviation continues ::
  "string \<Rightarrow> string option \<Rightarrow> consume_batch_limits \<Rightarrow> consumer_state \<Rightarrow> delivery_state \<Rightarrow> nat \<Rightarrow> collector \<Rightarrow> bool" where
  "continues seed response_member limits s0 ds n continue \<equiv>
     (\<forall>offsets keys ps z s.
        collecting legacy dead_letter stream consumer seed response_member limits es s0 ds offsets keys ps z s \<longrightarrow>
        card (uncollected es s offsets) < n \<longrightarrow>
        hoare (alive s (same_flights consumer ds)) (continue offsets keys ps z s) (gathers seed response_member limits s0 ds) (\<lambda>_. rest))"

lemma hoare_collect_stop:
  assumes "collecting legacy dead_letter stream consumer seed response_member limits es s0 ds offsets keys ps z s"
  shows "hoare (alive s (same_flights consumer ds)) (return_op (Done \<lparr>co_state = s, co_pending = ps, co_sizer = z, co_stopped = b\<rparr>))
    (gathers seed response_member limits s0 ds) (\<lambda>_. rest)"
  by (rule hoare_weaken_pre [OF hoare_return]) (use assms in \<open>auto simp: collected_ok_def\<close>)

lemma hoare_collect_record:
  assumes ctx: ctx_ok and off: "off < length es" "\<not> settled s off" "get_in_flight consumer off ds = None" "off |\<notin>| offsets"
    and keys: "\<And>k. le_key (es ! off) = Some k \<Longrightarrow> k |\<notin>| keys \<and> (\<forall>o' d. get_in_flight consumer o' ds = Some d \<longrightarrow> if_key d \<noteq> Some k)"
    and inv: "collecting legacy dead_letter stream consumer seed response_member limits es s0 ds offsets keys ps z s"
    and room: "length ps < max_records limits" and policy: "policy_for_offset off legacy s = Inr policy"
    and loop: "continues seed response_member limits s0 ds (card (uncollected es s offsets)) continue"
  shows "hoare (alive s (same_flights consumer ds))
    (collect_record stream limits seed continue (entry_index es off) (attempts_of s off) policy offsets keys ps z s)
    (gathers seed response_member limits s0 ds) (\<lambda>_. rest)"
proof -
  have idx: "ri_offset (entry_index es off) = off" "ri_key (entry_index es off) = le_key (es ! off)"
    using ctx entries_okD [OF log_okD(1) off(1)] by auto
  let ?attempt = "saturating_add32 (attempts_of s off) 1"
  let ?m = "with_delivery (batch_token seed off) ?attempt (entry_message stream es off)"
  let ?p = "\<lparr>pd_message = ?m, pd_key = le_key (es ! off), pd_attempt = ?attempt, pd_policy = policy\<rparr>"
  have "pending_ok legacy stream consumer seed es s ds ?p"
    using off keys policy by (auto simp: pending_ok_def)
  from gathered_snoc [OF _ this] inv off(4) keys have g:
    "gathered legacy stream consumer seed es s ds (finsert off offsets) (insert_key (le_key (es ! off)) keys) (ps @ [?p])"
    by (simp add: collecting_def)
  have size: "sized stream consumer response_member limits (sizer_push z ?m) (map pd_message (ps @ [?p]))"
    if "projected_len z ?m \<le> max_bytes limits"
    using inv room that by (auto simp: collecting_def sized_def)
  have less: "card (uncollected es s (finsert off offsets)) < card (uncollected es s offsets)"
    by (rule uncollected_less [of off]) (use off in \<open>auto simp: uncollected_def\<close>)
  have fits: "hoare (alive s (same_flights consumer ds))
      (continue (finsert off offsets) (insert_key (le_key (es ! off)) keys) (ps @ [?p]) (sizer_push z ?m) s)
      (gathers seed response_member limits s0 ds) (\<lambda>_. rest)" if "projected_len z ?m \<le> max_bytes limits"
    using loop less g size [OF that] inv by (simp add: collecting_def)
  have full: "hoare (alive s (same_flights consumer ds))
      (if ps = [] then throw (ConsumeBatchRecordTooLarge (max_bytes limits))
       else return_op (Done \<lparr>co_state = s, co_pending = ps, co_sizer = z, co_stopped = True\<rparr>))
      (gathers seed response_member limits s0 ds) (\<lambda>_. rest)"
    by (cases "ps = []")
      (simp_all only: if_True if_False simp_thms hoare_collect_stop [OF inv] hoare_fail [where t = s and F = "same_flights consumer ds"])
  have log: "log_ok es junk log0" using ctx by simp
  show ?thesis
    unfolding collect_record_def Let_def idx
    by (rule hoare_and_then [OF hoare_reads_log [OF reads_read_message [OF log off(1)]]], rule hoare_fact)
      (use fits full in \<open>simp add: linorder_not_less\<close>)
qed

lemma hoare_collect_due:
  assumes ctx: ctx_ok and ds: "ds_wf ds" and cand: "next_candidate consumer es s ds offsets keys = Some off"
    and inv: "collecting legacy dead_letter stream consumer seed response_member limits es s0 ds offsets keys ps z s"
    and room: "length ps < max_records limits" and policy: "policy_for_offset off legacy s = Inr policy"
    and loop: "continues seed response_member limits s0 ds (card (uncollected es s offsets)) continue"
  shows "hoare (alive s (same_flights consumer ds))
    (collect_due cdc ho stream consumer limits seed continue (entry_index es off) (attempts_of s off) policy offsets keys ps z s)
    (gathers seed response_member limits s0 ds) (\<lambda>_. rest)"
proof -
  let ?F = "same_flights consumer ds"
  note facts = next_candidate_Some [OF ds cand]
  have idx: "ri_offset (entry_index es off) = off" using ctx entries_okD [OF log_okD(1) facts(1)] by auto
  have moved: "hoare (alive s ?F) (and_then (persist_dead_letter cdc ho stream consumer s (entry_index es off)) (\<lambda>cs2.
       continue offsets keys ps z cs2)) (gathers seed response_member limits s0 ds) (\<lambda>_. rest)"
    if "is_terminal legacy dead_letter s off"
  proof (rule hoare_alive)
    assume wf: "cs_wf s"
    note u = entries_below [OF ctx facts(1)]
    have "collecting legacy dead_letter stream consumer seed response_member limits es s0 ds offsets keys ps z (acknowledge off s)"
      using gathered_acknowledge [OF _ wf u facts(4)] steady_acknowledge [OF _ wf u that facts(2)] inv by (simp add: collecting_def)
    moreover have "card (uncollected es (acknowledge off s) offsets) < card (uncollected es s offsets)"
      by (rule uncollected_less [of off]) (use facts in \<open>auto simp: acknowledge_same [OF wf u] uncollected_def\<close>)
    ultimately have go: "hoare (alive (acknowledge off s) ?F) (continue offsets keys ps z (acknowledge off s))
        (gathers seed response_member limits s0 ds) (\<lambda>_. rest)"
      using loop by blast
    show ?thesis
      by (rule hoare_and_then [OF hoare_persist_dead_letter [OF ctx, where F = ?F]])
        (use facts idx go in \<open>auto simp: same_flights_def intro!: hoare_fact\<close>)
  qed
  have taken: "hoare (alive s ?F)
      (collect_record stream limits seed continue (entry_index es off) (attempts_of s off) policy offsets keys ps z s)
      (gathers seed response_member limits s0 ds) (\<lambda>_. rest)"
    by (rule hoare_collect_record [OF ctx facts(1-4) _ inv room policy loop]) (rule facts(5))
  show ?thesis
  proof (cases "exhausted policy (attempts_of s off)")
    case True
    with policy have "is_terminal legacy dead_letter s off = (\<not> dead_letter)" by (simp add: is_terminal_def)
    with True moved taken show ?thesis
      unfolding collect_due_def
      by (simp only: if_True, intro hoare_and_then [OF hoare_is_dead_letter [where s = s and F = ?F]] hoare_fact) auto
  next
    case False
    with taken show ?thesis by (simp add: collect_due_def)
  qed
qed

lemma hoare_collect_candidate:
  assumes ctx: ctx_ok and ds: "ds_wf ds" and cand: "next_candidate consumer es s ds offsets keys = Some off"
    and inv: "collecting legacy dead_letter stream consumer seed response_member limits es s0 ds offsets keys ps z s"
    and room: "length ps < max_records limits"
    and loop: "continues seed response_member limits s0 ds (card (uncollected es s offsets)) continue"
  shows "hoare (alive s (same_flights consumer ds))
    (collect_candidate cdc ho stream consumer legacy limits seed continue (entry_index es off) offsets keys ps z s)
    (gathers seed response_member limits s0 ds) (\<lambda>_. rest)"
proof -
  let ?F = "same_flights consumer ds"
  note facts = next_candidate_Some [OF ds cand]
  have idx: "ri_offset (entry_index es off) = off" using ctx entries_okD [OF log_okD(1) facts(1)] by auto
  have later: "hoare (alive (scheduled off r s) ?F)
      (continue (if off |\<in>| fmdom (retry_not_before (scheduled off r s)) then finsert off offsets else offsets)
         (insert_key (schedule_key (scheduled off r s) off) keys) ps z (scheduled off r s))
      (gathers seed response_member limits s0 ds) (\<lambda>_. rest)" for r
  proof -
    have "collecting legacy dead_letter stream consumer seed response_member limits es s0 ds (finsert off offsets)
        (insert_key (schedule_key (scheduled off r s) off) keys) ps z (scheduled off r s)"
      using inv by (auto simp: collecting_def intro: gathered_scheduled steady_scheduled)
    moreover have "card (uncollected es (scheduled off r s) (finsert off offsets)) < card (uncollected es s offsets)"
      by (rule uncollected_less [of off]) (use facts in \<open>auto simp: scheduled_same uncollected_def\<close>)
    ultimately show ?thesis using loop by simp
  qed
  let ?tail = "\<lambda>policy (delayed, cs1).
      if delayed
      then continue (if off |\<in>| fmdom (retry_not_before cs1) then finsert off offsets else offsets)
             (insert_key (schedule_key cs1 off) keys) ps z cs1
      else collect_due cdc ho stream consumer limits seed continue (entry_index es off) (attempts_of s off) policy offsets keys ps z cs1"
  have branch: "hoare (alive s ?F) (and_then (delay_orphan cdc ho stream consumer s legacy off) (?tail policy))
      (gathers seed response_member limits s0 ds) (\<lambda>_. rest)"
    if policy: "policy_for_offset off legacy s = Inr policy" for policy
  proof (rule hoare_and_then [OF hoare_delay_orphan [OF ctx]])
    fix x :: "bool \<times> consumer_state"
    obtain delayed s1 where x: "x = (delayed, s1)" by fastforce
    have "hoare (alive s1 ?F) (?tail policy (delayed, s1)) (gathers seed response_member limits s0 ds) (\<lambda>_. rest)"
      if "\<exists>r. s1 = (if delayed then scheduled off r s else s) \<and> (off < length es \<longrightarrow> rs_key r = le_key (es ! off))"
      using that later hoare_collect_due [OF ctx ds cand inv room policy loop] by (cases delayed) auto
    then show "hoare (case x of (delayed, s1) \<Rightarrow> \<lambda>se. delayed = (get_in_flight consumer off ds = None \<and> delays legacy s off) \<and>
        (\<exists>r. s1 = (if delayed then scheduled off r s else s) \<and> (off < length es \<longrightarrow> rs_key r = le_key (es ! off))) \<and>
        alive s1 ?F se) (?tail policy x) (gathers seed response_member limits s0 ds) (\<lambda>_. rest)"
      unfolding x prod.case by (intro hoare_fact)
  qed
  show ?thesis
    unfolding collect_candidate_def Let_def idx
    by (rule hoare_and_then [OF hoare_lift [where s = s and F = ?F]], rule hoare_fact, rule branch)
qed

lemma hoare_collect_loop:
  assumes ctx: ctx_ok and ds: "ds_wf ds"
  shows "continues seed response_member limits s0 ds fuel (collect_loop cdc ho stream consumer legacy limits seed fuel)"
proof (induction fuel)
  case 0
  show ?case by simp
next
  case (Suc fuel)
  show ?case
  proof (intro allI impI)
    fix offsets keys ps z s
    assume inv: "collecting legacy dead_letter stream consumer seed response_member limits es s0 ds offsets keys ps z s"
      and fuel: "card (uncollected es s offsets) < Suc fuel"
    let ?loop = "collect_loop cdc ho stream consumer legacy limits seed"
    note stop = hoare_collect_stop [OF inv]
    have more: "continues seed response_member limits s0 ds (card (uncollected es s offsets)) (?loop fuel)"
      using Suc.IH fuel by (meson less_Suc_eq_le less_le_trans)
    have cand: "hoare (alive s (same_flights consumer ds)) (find_candidate_excluding consumer (committed_offset s) (acknowledged_offsets s) offsets keys)
        (\<lambda>found se. found = map_option (entry_index es) (next_candidate consumer es s ds offsets keys) \<and>
           alive s (same_flights consumer ds) se) (\<lambda>_. rest)"
      by (rule hoare_candidate [OF ctx _ ds])
    show "hoare (alive s (same_flights consumer ds)) (?loop (Suc fuel) offsets keys ps z s)
        (gathers seed response_member limits s0 ds) (\<lambda>_. rest)"
    proof (cases "length ps < max_records limits \<and> sz_encoded_len z < max_bytes limits")
      case False
      then show ?thesis by (simp only: collect_loop.simps if_True simp_thms stop)
    next
      case True
      then have "hoare (alive s (same_flights consumer ds))
          (case map_option (entry_index es) (next_candidate consumer es s ds offsets keys) of
             None \<Rightarrow> return_op (Done \<lparr>co_state = s, co_pending = ps, co_sizer = z, co_stopped = False\<rparr>)
           | Some candidate \<Rightarrow> collect_candidate cdc ho stream consumer legacy limits seed (?loop fuel) candidate offsets keys ps z s)
          (gathers seed response_member limits s0 ds) (\<lambda>_. rest)"
        using stop hoare_collect_candidate [OF ctx ds _ inv _ more]
        by (cases "next_candidate consumer es s ds offsets keys") simp_all
      with True show ?thesis
        unfolding collect_loop.simps by (simp only: simp_thms if_False) (intro hoare_and_then [OF cand] hoare_fact, simp only:)
    qed
  qed
qed

end

end
