(* ===== verification/Broker_Leases.thy ===== *)
theory Broker_Leases
  imports Broker_Collect
begin

text \<open>
  The leases of a batch: one event records all attempts, then every record gets its lease; and what
  a step of a batch poll answers.
\<close>

section \<open>The attempts of a batch\<close>

lemma pending_okD:
  assumes "pending_ok legacy stream consumer seed es s ds p"
  shows "pending_offset p < length es" "\<not> settled s (pending_offset p)" "get_in_flight consumer (pending_offset p) ds = None"
    and "pd_key p = Some k \<Longrightarrow> get_in_flight consumer o' ds = Some d \<Longrightarrow> if_key d \<noteq> Some k"
    and "pd_attempt p = saturating_add32 (attempts_of s (pending_offset p)) 1"
  using assms unfolding pending_ok_def by blast+

lemma pending_token:
  assumes "pending_ok legacy stream consumer seed es s ds p"
  shows "m_delivery_token (pd_message p) \<noteq> None"
proof -
  have "pd_message p = with_delivery (batch_token seed (pending_offset p)) (pd_attempt p) (entry_message stream es (pending_offset p))"
    using assms unfolding pending_ok_def by blast
  then show ?thesis by (rule ssubst) simp
qed

text \<open>Recording the attempts one after the other is what the event does at once.\<close>

lemma assign_pending_step:
  assumes "attempts_u32 s" "\<not> settled s (pending_offset p)" "pd_attempt p = saturating_add32 (attempts_of s (pending_offset p)) 1"
  shows "record_attempt (assignment_of p) s = assign_pending p s" "attempts_u32 (assign_pending p s)"
    and "settled (assign_pending p s) x = settled s x" "x \<noteq> pending_offset p \<Longrightarrow> attempts_of (assign_pending p s) x = attempts_of s x"
    and "fmdom (delivery_attempts (assign_pending p s)) = finsert (pending_offset p) (fmdom (delivery_attempts s))"
    and "cs_stream (assign_pending p s) = cs_stream s" "cs_consumer (assign_pending p s) = cs_consumer s"
proof -
  show "record_attempt (assignment_of p) s = assign_pending p s"
    unfolding assignment_of_def assign_pending_def by (rule assign_attempt_event [OF assms])
  have "pd_attempt p \<le> u32_max" using assms(3) by (simp add: saturating_add32_def)
  then show "attempts_u32 (assign_pending p s)"
    using assms(1) by (auto simp: attempts_u32_def assign_pending_def assign_attempt_def)
qed (simp_all add: assign_pending_def assign_attempt_def settled_def attempts_of_def)

lemma assign_pendings:
  assumes "attempts_u32 s" "distinct (map pending_offset ps)"
    and "\<And>p. p \<in> set ps \<Longrightarrow> \<not> settled s (pending_offset p) \<and> pd_attempt p = saturating_add32 (attempts_of s (pending_offset p)) 1"
  shows "fold record_attempt (map assignment_of ps) s = fold assign_pending ps s" "attempts_u32 (fold assign_pending ps s)"
    and "settled (fold assign_pending ps s) x = settled s x"
    and "fmdom (delivery_attempts (fold assign_pending ps s)) = fmdom (delivery_attempts s) |\<union>| fset_of_list (map pending_offset ps)"
    and "cs_stream (fold assign_pending ps s) = cs_stream s" "cs_consumer (fold assign_pending ps s) = cs_consumer s"
proof -
  have "fold record_attempt (map assignment_of ps) s = fold assign_pending ps s \<and> attempts_u32 (fold assign_pending ps s) \<and>
      (\<forall>x. settled (fold assign_pending ps s) x = settled s x) \<and>
      fmdom (delivery_attempts (fold assign_pending ps s)) = fmdom (delivery_attempts s) |\<union>| fset_of_list (map pending_offset ps) \<and>
      cs_stream (fold assign_pending ps s) = cs_stream s \<and> cs_consumer (fold assign_pending ps s) = cs_consumer s"
    using assms
  proof (induction ps arbitrary: s)
    case Nil
    then show ?case by simp
  next
    case (Cons p ps)
    have p: "\<not> settled s (pending_offset p)" "pd_attempt p = saturating_add32 (attempts_of s (pending_offset p)) 1"
      using Cons.prems(3) [of p] by auto
    note step = assign_pending_step [OF Cons.prems(1) p]
    have "pd_attempt q = saturating_add32 (attempts_of (assign_pending p s) (pending_offset q)) 1" "\<not> settled (assign_pending p s) (pending_offset q)"
      if "q \<in> set ps" for q
      using Cons.prems(2) Cons.prems(3) [of q] that step(3,4) by (auto simp: image_iff)
    with Cons.IH [OF step(2)] Cons.prems(2) step show ?case by auto
  qed
  then show "fold record_attempt (map assignment_of ps) s = fold assign_pending ps s" "attempts_u32 (fold assign_pending ps s)"
    "settled (fold assign_pending ps s) x = settled s x"
    "fmdom (delivery_attempts (fold assign_pending ps s)) = fmdom (delivery_attempts s) |\<union>| fset_of_list (map pending_offset ps)"
    "cs_stream (fold assign_pending ps s) = cs_stream s" "cs_consumer (fold assign_pending ps s) = cs_consumer s"
    by blast+
qed

section \<open>The leases of a batch\<close>

definition lease_of :: "string \<Rightarrow> pending_delivery \<Rightarrow> in_flight \<Rightarrow> bool" where
  "lease_of member p d \<longleftrightarrow>
     if_member d = member \<and> if_key d = pd_key p \<and> if_delivery_attempt d = pd_attempt p \<and>
     Some (if_delivery_token d) = m_delivery_token (pd_message p) \<and> if_requires_receipt d"

definition leased ::
  "string \<Rightarrow> string \<Rightarrow> delivery_state \<Rightarrow> pending_delivery list \<Rightarrow> delivery_state \<Rightarrow> bool" where
  "leased consumer member ds ps ds' \<longleftrightarrow>
     (\<forall>off. off \<notin> pending_offset ` set ps \<longrightarrow> get_in_flight consumer off ds' = get_in_flight consumer off ds) \<and>
     (\<forall>p \<in> set ps. \<exists>d. get_in_flight consumer (pending_offset p) ds' = Some d \<and> lease_of member p d)"

lemma leased_Nil: "leased consumer member ds [] = same_flights consumer ds"
  by (auto simp: leased_def same_flights_def fun_eq_iff)

lemma leased_cache: "leased consumer member ds ps (cache_consumer_state order c t ds') = leased consumer member ds ps ds'"
  by (simp add: leased_def)

context request_env
begin

lemma hoare_insert_pending:
  assumes g: "gathered legacy stream consumer seed es s ds offsets keys (done1 @ p # todo)"
  shows "hoare (written A t (leased consumer member ds done1)) (insert_pending consumer member p)
    (\<lambda>_. written (insert (pending_offset p) A) t (leased consumer member ds (done1 @ [p]))) (\<lambda>_. rest)"
proof -
  have p: "pending_ok legacy stream consumer seed es s ds p" using g by (simp add: gathered_def)
  have token: "m_delivery_token (pd_message p) \<noteq> None"
    by (rule pending_token [OF p])
  have out: "pending_offset p \<notin> pending_offset ` set done1" using g by (auto simp: gathered_def)
  have key: "pd_key q \<noteq> Some k" if "q \<in> set done1" "pd_key p = Some k" for q k
  proof
    assume "pd_key q = Some k"
    with that(1) have "k \<in> set (map (the \<circ> pd_key) (filter (\<lambda>x. pd_key x \<noteq> None) done1))" by force
    moreover have "distinct (List.map_filter pd_key (done1 @ p # todo))" using g by (simp only: gathered_def)
    ultimately show False using that(2) by (simp add: List.map_filter_def)
  qed
  let ?d = "\<lambda>now. \<lparr>if_member = member, if_offset = pending_offset p, if_key = pd_key p,
        if_delivery_attempt = pd_attempt p, if_delivery_token = the (m_delivery_token (pd_message p)),
        if_requires_receipt = True, if_deadline = now + from_millis (cp_ack_timeout_ms (pd_policy p))\<rparr>"
  have free: "insertable consumer (?d now) ds'" if l: "leased consumer member ds done1 ds'" and wf: "ds_wf ds'" for ds' now
  proof -
    have "if_key d \<noteq> Some k" if d: "get_in_flight consumer o' ds' = Some d" "pd_key p = Some k" for o' d k
    proof (cases "o' \<in> pending_offset ` set done1")
      case True
      then obtain q where "q \<in> set done1" "o' = pending_offset q" by auto
      with l d key [of q k] show ?thesis unfolding leased_def lease_of_def by fastforce
    next
      case False
      with l d pending_okD(4) [OF p] show ?thesis by (simp add: leased_def)
    qed
    moreover have "get_in_flight consumer (pending_offset p) ds' = None"
      using l pending_okD(3) [OF p] out by (simp add: leased_def)
    ultimately show ?thesis by (auto simp: insertable_iff [OF wf])
  qed
  have ins: "hoare (written A t (leased consumer member ds done1)) (change_delivery (insert_in_flight consumer (?d now)))
      (\<lambda>_. written (insert (pending_offset p) A) t (leased consumer member ds (done1 @ [p]))) (\<lambda>_. rest)" for now
  proof -
    have h: "hoare (written A t (\<lambda>ds'. leased consumer member ds done1 ds' \<and> ds_wf ds')) (change_delivery (insert_in_flight consumer (?d now)))
        (\<lambda>_. written (insert (if_offset (?d now)) A) t (\<lambda>ds'. \<exists>ds1. (leased consumer member ds done1 ds1 \<and> ds_wf ds1) \<and>
           ds' = insert_in_flight consumer (?d now) ds1)) (\<lambda>_. rest)"
      by (rule hoare_insert, erule conjE, rule free)
    have grown: "leased consumer member ds (done1 @ [p]) (insert_in_flight consumer (?d now) ds1)"
      if l: "leased consumer member ds done1 ds1" for ds1
      unfolding leased_def
    proof (intro conjI allI impI ballI)
      fix off
      assume "off \<notin> pending_offset ` set (done1 @ [p])"
      with l show "get_in_flight consumer off (insert_in_flight consumer (?d now) ds1) = get_in_flight consumer off ds"
        by (simp add: leased_def get_in_flight_insert)
    next
      fix q
      assume q: "q \<in> set (done1 @ [p])"
      show "\<exists>d. get_in_flight consumer (pending_offset q) (insert_in_flight consumer (?d now) ds1) = Some d \<and> lease_of member q d"
      proof (cases "q \<in> set done1")
        case True
        then have "pending_offset q \<noteq> pending_offset p" using imageI [OF True, of pending_offset] out by metis
        moreover obtain d where "get_in_flight consumer (pending_offset q) ds1 = Some d" "lease_of member q d"
          using l True unfolding leased_def by blast
        ultimately show ?thesis by (simp add: get_in_flight_insert)
      next
        case False
        with q have "q = p" by simp
        moreover have "lease_of member p (?d now)" using token by (auto simp: lease_of_def)
        ultimately show ?thesis by (simp add: get_in_flight_insert)
      qed
    qed
    show ?thesis
    proof (rule hoare_weaken_pre [OF hoare_strengthen_post [OF h]])
      fix se :: session
      assume "written A t (leased consumer member ds done1) se"
      then show "written A t (\<lambda>ds'. leased consumer member ds done1 ds' \<and> ds_wf ds') se" by (simp add: durable_def)
    qed (use grown in \<open>elim conjE exE, simp\<close>)
  qed
  let ?W = "written (insert (pending_offset p) A) t (leased consumer member ds (done1 @ [p]))"
  have count: "hoare ?W (if pd_attempt p > 1 then on_broker (modify count_redelivery) else return_op ()) (\<lambda>_. ?W) (\<lambda>_. rest)"
    by (cases "pd_attempt p > 1")
      (simp_all only: if_True if_False hoare_count(1) hoare_weaken_pre [OF hoare_return])
  show ?thesis
    unfolding insert_pending_def
    by (rule hoare_and_then [OF hoare_instant(2) [where s = t]], rule hoare_and_then [OF ins], rule count)
qed

lemma hoare_insert_all:
  assumes "gathered legacy stream consumer seed es s ds offsets keys (done1 @ todo)"
  shows "hoare (written A t (leased consumer member ds done1)) (each (insert_pending consumer member) todo)
    (\<lambda>_. written (A \<union> pending_offset ` set todo) t (leased consumer member ds (done1 @ todo))) (\<lambda>_. rest)"
  using assms
proof (induction todo arbitrary: A done1)
  case Nil
  show ?case by (simp, rule hoare_weaken_pre [OF hoare_return]) simp
next
  case (Cons p todo)
  have "hoare (written (insert (pending_offset p) A) t (leased consumer member ds (done1 @ [p]))) (each (insert_pending consumer member) todo)
      (\<lambda>_. written (A \<union> pending_offset ` set (p # todo)) t (leased consumer member ds (done1 @ p # todo))) (\<lambda>_. rest)"
    using Cons.IH [of "done1 @ [p]" "insert (pending_offset p) A"] Cons.prems by simp
  then show ?case
    by (simp only: each.simps, intro hoare_and_then [OF hoare_insert_pending [OF Cons.prems]])
qed

lemma hoare_deliver_batch:
  assumes g: "gathered legacy stream consumer seed es s ds offsets keys ps"
  shows "hoare (alive s (same_flights consumer ds)) (deliver_batch cdc ho stream consumer member s ps)
    (\<lambda>ms se. ms = map pd_message ps \<and> alive (fold assign_pending ps s) (leased consumer member ds ps) se) (\<lambda>_. rest)"
proof (rule hoare_alive)
  assume names: "cs_stream s = stream" "cs_consumer s = consumer" and u: "attempts_u32 s"
  let ?t = "fold assign_pending ps s" and ?A = "known_attempts (length es) s"
  let ?ev = "DeliveryAttempts (map assignment_of ps)"
  have ok: "pending_ok legacy stream consumer seed es s ds p" if "p \<in> set ps" for p
    using g that unfolding gathered_def by blast
  have P: "distinct (map pending_offset ps)" "\<And>p. p \<in> set ps \<Longrightarrow> \<not> settled s (pending_offset p) \<and>
      pd_attempt p = saturating_add32 (attempts_of s (pending_offset p)) 1"
    using g pending_okD(2,5) [OF ok] unfolding gathered_def by blast+
  note T = assign_pendings [OF u P]
  have pos: "pd_attempt p \<noteq> 0" if "p \<in> set ps" for p using P(2) [OF that] by (simp add: saturating_add32_def)
  have ev: "apply_event ?ev s = Inr ?t" "event_bounded ?ev"
    using T(1) P(2) pos by (auto simp: event_bounded_def list_ex_iff list_all_iff assignment_of_def)
  have pers: "hoare (alive s (same_flights consumer ds)) (persist_event cdc stream consumer s ?ev)
      (\<lambda>_. written ?A ?t (same_flights consumer ds)) (\<lambda>_. rest)"
    by (rule hoare_persist_event [OF ev(2,1)]) (use T P(2) in auto)
  have nm: "names_set stream consumer ?t = ?t" using T(5,6) P(2) names by (simp add: names_set_def)
  have known: "?A \<union> pending_offset ` set ps \<subseteq> known_attempts (length es) ?t"
    using T(4) pending_okD(1) [OF ok] by (auto simp: known_attempts_def fset_of_list_elem)
  have cache: "hoare (written (?A \<union> pending_offset ` set ps) ?t (leased consumer member ds ps)) (cache_state ho consumer ?t)
      (\<lambda>_. alive ?t (leased consumer member ds ps)) (\<lambda>_. rest)"
    by (rule hoare_cache [OF known]) (simp add: leased_cache)
  have ins: "hoare (written ?A ?t (same_flights consumer ds)) (each (insert_pending consumer member) ps)
      (\<lambda>_. written (?A \<union> pending_offset ` set ps) ?t (leased consumer member ds ps)) (\<lambda>_. rest)"
    using hoare_insert_all [where ?done1.0 = "[]" and todo = ps and A = ?A and t = ?t and member = member] g by (simp add: leased_Nil)
  show ?thesis
    unfolding deliver_batch_def nm
    by (rule hoare_and_then [OF pers], rule hoare_and_then [OF ins], rule hoare_and_then [OF cache],
        rule hoare_and_then [OF hoare_notify [where s = ?t and F = "leased consumer member ds ps"]],
        rule hoare_weaken_pre [OF hoare_return]) simp
qed

end

end
