(* ===== verification/Broker_Batch_Steps.thy ===== *)
theory Broker_Batch_Steps
  imports Broker_Leases
begin

text \<open>
  A step of a batch poll: it answers with the deliveries the member holds, leases the records it
  collected, or waits; whatever fails, the consumer is left at rest.
\<close>

section \<open>The answer of a step\<close>

text \<open>A message of a batch shows the lease the member has on a record of the log.\<close>

definition held_by ::
  "string \<Rightarrow> string \<Rightarrow> string \<Rightarrow> log_entry list \<Rightarrow> delivery_state \<Rightarrow> message \<Rightarrow> bool" where
  "held_by stream consumer member es ds m \<longleftrightarrow>
     m_offset m < length es \<and>
     (\<exists>d. get_in_flight consumer (m_offset m) ds = Some d \<and> if_member d = member \<and>
        m = with_delivery (if_delivery_token d) (if_delivery_attempt d) (entry_message stream es (m_offset m)))"

definition batched ::
  "string \<Rightarrow> string \<Rightarrow> string \<Rightarrow> string option \<Rightarrow> consume_batch_limits \<Rightarrow> log_entry list \<Rightarrow> delivery_state \<Rightarrow>
   message list \<Rightarrow> bool" where
  "batched stream consumer member response_member limits es ds ms \<longleftrightarrow>
     length ms \<le> max_records limits \<and>
     (ms \<noteq> [] \<longrightarrow> poll_batch_response_len stream consumer response_member ms \<le> max_bytes limits) \<and>
     distinct (map m_offset ms) \<and> (\<forall>m \<in> set ms. held_by stream consumer member es ds m)"

fun step_answered ::
  "string \<Rightarrow> string \<Rightarrow> batch_request \<Rightarrow> log_entry list \<Rightarrow> delivery_state \<Rightarrow> poll_batch_step_result \<Rightarrow> bool" where
  "step_answered stream consumer req es ds (Complete ms) =
     batched stream consumer (bq_member req) (bq_response_member req) (bq_limits req) es ds ms"
| "step_answered stream consumer req es ds (WaitingFor wake) =
     (max_wait_ms (bq_limits req) > 0 \<and> (\<forall>off d. get_in_flight consumer off ds = Some d \<longrightarrow> if_member d \<noteq> bq_member req))"

lemma batched_Nil: "batched stream consumer member response_member limits es ds []"
  by (simp add: batched_def)

text \<open>The leases of a batch are what its messages show.\<close>

lemma leased_batched:
  assumes g: "gathered legacy stream consumer seed es s ds offsets keys ps"
    and l: "leased consumer member ds ps ds'" and z: "sized stream consumer response_member limits z (map pd_message ps)"
  shows "batched stream consumer member response_member limits es ds' (map pd_message ps)"
proof -
  have "held_by stream consumer member es ds' (pd_message p)" if p: "p \<in> set ps" for p
  proof -
    have ok: "pending_ok legacy stream consumer seed es s ds p" using g p unfolding gathered_def by blast
    then have m: "pd_message p = with_delivery (batch_token seed (pending_offset p)) (pd_attempt p) (entry_message stream es (pending_offset p))"
      unfolding pending_ok_def by blast
    have "m_delivery_token (pd_message p) = Some (batch_token seed (pending_offset p))" by (subst m) simp
    moreover obtain d where d: "get_in_flight consumer (pending_offset p) ds' = Some d" "lease_of member p d"
      using l p unfolding leased_def by blast
    ultimately have "if_delivery_token d = batch_token seed (pending_offset p)" "if_delivery_attempt d = pd_attempt p"
      by (simp_all add: lease_of_def)
    with m have "pd_message p = with_delivery (if_delivery_token d) (if_delivery_attempt d) (entry_message stream es (pending_offset p))"
      by simp
    with d pending_okD(1) [OF ok] show ?thesis unfolding held_by_def lease_of_def by blast
  qed
  moreover have "distinct (map m_offset (map pd_message ps))" using g by (simp add: gathered_def comp_def)
  ultimately show ?thesis using z by (auto simp: batched_def sized_def poll_batch_response_len_def)
qed

lemma progressed_assign:
  assumes "steady legacy dead_letter (insert_schedules rs s0) s" "\<And>x. settled t x = settled s x"
  shows "progressed legacy dead_letter s0 t"
  using assms by (auto simp: steady_def progressed_def is_terminal_def insert_schedules_policy settled_def)

context request_env
begin

abbreviation steps ::
  "consumer_state \<Rightarrow> batch_request \<Rightarrow> poll_batch_step_result \<Rightarrow> session \<Rightarrow> bool" where
  "steps s req r se \<equiv> (\<exists>t. live K cdc stream consumer log0 (length es) ds0 E t se \<and>
     step_answered stream consumer req es (se_delivery se) r \<and> progressed legacy dead_letter s t)"

lemma hoare_next_wake:
  "hoare (alive s F) (next_consumer_wake consumer s' at_ms) (\<lambda>_. alive s F) (\<lambda>_. rest)"
proof -
  have "hoare (alive s F) (if b then return_op None else and_then (on_broker instant_now) (\<lambda>now. return_op (f now)))
      (\<lambda>_. alive s F) (\<lambda>_. rest)" for b and f :: "nat \<Rightarrow> nat option"
    by (cases b) (auto intro!: hoare_weaken_pre [OF hoare_return] hoare_weaken_pre [OF hoare_and_then [OF hoare_instant(1) [where s = s and F = F]]])
  note wake = hoare_weaken_pre [OF hoare_and_then [OF this]]
  show ?thesis
    unfolding next_consumer_wake_def Let_def
    by (rule hoare_and_then_reads, rule wake, rule hoare_return, erule conjunct1)
qed

text \<open>The member's own deliveries, read from the log in the order of their offsets.\<close>

lemma hoare_existing_messages:
  assumes ctx: ctx_ok
    and held: "\<And>d. d \<in> set fs \<Longrightarrow> get_in_flight consumer (if_offset d) ds = Some d \<and> if_offset d < length es"
  shows "hoare (alive s (\<lambda>d. d = ds)) (existing_messages stream limit fs z)
    (\<lambda>ms se. ms = map (\<lambda>d. with_delivery (if_delivery_token d) (if_delivery_attempt d) (entry_message stream es (if_offset d))) fs \<and>
       (fs \<noteq> [] \<longrightarrow> sz_encoded_len (foldl sizer_push z ms) \<le> limit) \<and> alive s (\<lambda>d. d = ds) se) (\<lambda>_. rest)"
  using held
proof (induction fs arbitrary: z)
  case Nil
  show ?case by (simp, rule hoare_weaken_pre [OF hoare_return]) simp
next
  case (Cons d fs)
  have off: "if_offset d < length es" using Cons.prems by simp
  let ?m = "with_delivery (if_delivery_token d) (if_delivery_attempt d) (entry_message stream es (if_offset d))"
  let ?ms = "map (\<lambda>d. with_delivery (if_delivery_token d) (if_delivery_attempt d) (entry_message stream es (if_offset d))) fs"
  note IH = Cons.IH [of "sizer_push z ?m"]
  have "hoare (alive s (\<lambda>d. d = ds))
      (if sz_encoded_len (sizer_push z ?m) > limit then throw e
       else and_then (existing_messages stream limit fs (sizer_push z ?m)) (\<lambda>ms. return_op (?m # ms)))
      (\<lambda>ms se. ms = ?m # ?ms \<and> sz_encoded_len (foldl sizer_push z ms) \<le> limit \<and> alive s (\<lambda>d. d = ds) se) (\<lambda>_. rest)" for e
  proof (cases "sz_encoded_len (sizer_push z ?m) > limit")
    case True
    then show ?thesis by (simp only: if_True, intro hoare_fail)
  next
    case False
    have "hoare (alive s (\<lambda>d. d = ds)) (and_then (existing_messages stream limit fs (sizer_push z ?m)) (\<lambda>ms. return_op (?m # ms)))
      (\<lambda>ms se. ms = ?m # ?ms \<and> sz_encoded_len (foldl sizer_push z ms) \<le> limit \<and> alive s (\<lambda>d. d = ds) se) (\<lambda>_. rest)"
      by (rule hoare_and_then [OF IH], use Cons.prems in simp, rule hoare_weaken_pre [OF hoare_return])
        (use False in \<open>cases fs, auto\<close>)
    with False show ?thesis by (simp only: if_False)
  qed
  then show ?case
    by (simp only: existing_messages.simps list.simps, intro hoare_and_then [OF hoare_read_entry [where s = s and F = "\<lambda>d. d = ds", OF ctx off]] hoare_fact)
      (simp add: Let_def)
qed

lemma hoare_batch_existing:
  assumes ctx: ctx_ok and ds: "ds_wf ds" and fs: "member_deliveries consumer (bq_member req) ds = Inr fs" "fs \<noteq> []"
    and start: "progressed legacy dead_letter s0 s"
  shows "hoare (alive s (\<lambda>d. d = ds)) (batch_existing stream (bq_limits req) fs (sizer_new stream consumer (bq_response_member req)))
    (\<lambda>r se. \<exists>a. r = Done a \<and> steps s0 req a se) (\<lambda>_. rest)" (is "hoare _ _ ?Q _")
proof (cases "\<exists>se. alive s (\<lambda>d. d = ds) se")
  case False
  then show ?thesis by (intro hoare_vacuous) blast
next
  case True
  have filed: "get_in_flight consumer off ds = Some d \<Longrightarrow> if_offset d = off" for off d
    using ds by (auto simp: ds_wf_def flights_ok_def)
  obtain mem: "\<And>d. d \<in> set fs \<longleftrightarrow> (\<exists>off. get_in_flight consumer off ds = Some d) \<and> if_member d = bq_member req"
    and sorted: "sorted_wrt (\<lambda>a b. if_offset a < if_offset b) fs"
    using member_deliveries_exact [OF ds, of consumer "bq_member req"] fs(1) by (metis sum.inject(2))
  from True have below: "get_in_flight consumer off ds \<noteq> None \<Longrightarrow> off < length es" for off
    by (auto simp: live_def durable_def known_attempts_def)
  have held: "get_in_flight consumer (if_offset d) ds = Some d \<and> if_offset d < length es" if "d \<in> set fs" for d
    using mem [of d] that filed below by fastforce
  let ?M = "\<lambda>d. with_delivery (if_delivery_token d) (if_delivery_attempt d) (entry_message stream es (if_offset d))"
  have "distinct (map if_offset fs)"
    using sorted by (induction fs) auto
  then have dist: "distinct (map m_offset (map ?M fs))" by (simp add: comp_def)
  have "held_by stream consumer (bq_member req) es ds (?M d)" if "d \<in> set fs" for d
    using held [OF that] mem [of d] that by (auto simp: held_by_def)
  with dist have answer: "batched stream consumer (bq_member req) (bq_response_member req) (bq_limits req) es ds (map ?M fs)"
    if "length fs \<le> max_records (bq_limits req)"
      "sz_encoded_len (foldl sizer_push (sizer_new stream consumer (bq_response_member req)) (map ?M fs)) \<le> max_bytes (bq_limits req)"
    using that by (auto simp: batched_def poll_batch_response_len_def)
  show ?thesis
  proof (cases "length fs > max_records (bq_limits req)")
    case True
    then show ?thesis by (simp only: batch_existing_def if_True, intro hoare_fail)
  next
    case False
    have "hoare (alive s (\<lambda>d. d = ds)) (and_then (existing_messages stream (max_bytes (bq_limits req)) fs
        (sizer_new stream consumer (bq_response_member req))) (\<lambda>ms. return_op (Done (Complete ms)))) ?Q (\<lambda>_. rest)"
      by (rule hoare_and_then [OF hoare_existing_messages [OF ctx held]], assumption, rule hoare_weaken_pre [OF hoare_return])
        (use answer fs(2) False start in auto)
    with False show ?thesis by (simp only: batch_existing_def if_False)
  qed
qed

lemma hoare_batch_finish:
  assumes c: "collected_ok legacy dead_letter stream consumer (bq_token_seed req) (bq_response_member req) (bq_limits req) es
      (insert_schedules rs s0) ds c"
    and none: "\<And>off d. get_in_flight consumer off ds = Some d \<Longrightarrow> if_member d \<noteq> bq_member req"
    and waiting: "is_waiting \<Longrightarrow> max_wait_ms (bq_limits req) > 0"
  shows "hoare (alive (co_state c) (same_flights consumer ds)) (batch_finish cdc ho stream consumer req is_waiting at_ms c)
    (steps s0 req) (\<lambda>_. rest)"
proof -
  let ?s = "co_state c" and ?ps = "co_pending c" and ?F = "same_flights consumer ds"
  from c obtain offsets keys where
    g: "gathered legacy stream consumer (bq_token_seed req) es ?s ds offsets keys ?ps"
    and st: "steady legacy dead_letter (insert_schedules rs s0) ?s"
    and z: "sized stream consumer (bq_response_member req) (bq_limits req) (co_sizer c) (map pd_message ?ps)"
    by (auto simp: collected_ok_def collecting_def)
  have prog: "progressed legacy dead_letter s0 ?s" by (rule progressed_assign [OF st refl])
  have wait: "hoare (alive ?s ?F) (and_then (next_consumer_wake consumer ?s at_ms) (\<lambda>wake. return_op (WaitingFor wake)))
      (steps s0 req) (\<lambda>_. rest)" if is_waiting
    by (rule hoare_and_then [OF hoare_next_wake], rule hoare_weaken_pre [OF hoare_return])
      (use none prog waiting [OF that] in \<open>auto simp: same_flights_def\<close>)
  have empty: "hoare (alive ?s ?F) (return_op (Complete [])) (steps s0 req) (\<lambda>_. rest)"
    by (rule hoare_weaken_pre [OF hoare_return]) (use prog in \<open>auto simp: batched_Nil\<close>)
  have lease: "hoare (alive ?s ?F) (and_then (deliver_batch cdc ho stream consumer (bq_member req) ?s ?ps) (\<lambda>ms. return_op (Complete ms)))
      (steps s0 req) (\<lambda>_. rest)"
  proof (rule hoare_alive)
    assume u: "attempts_u32 ?s"
    have P: "distinct (map pending_offset ?ps)" "\<And>p. p \<in> set ?ps \<Longrightarrow> \<not> settled ?s (pending_offset p) \<and>
        pd_attempt p = saturating_add32 (attempts_of ?s (pending_offset p)) 1"
      using g pending_okD(2,5) unfolding gathered_def by blast+
    have "progressed legacy dead_letter s0 (fold assign_pending ?ps ?s)"
      by (rule progressed_assign [OF st]) (rule assign_pendings(3) [OF u P])
    with leased_batched [OF g _ z] show ?thesis
      by (intro hoare_and_then [OF hoare_deliver_batch [OF g]] hoare_weaken_pre [OF hoare_return]) auto
  qed
  show ?thesis
    unfolding batch_finish_def Let_def
    by (rule hoare_and_then [OF hoare_instant(1) [where s = ?s and F = ?F]]) (simp only: empty lease simp_thms split: if_split, blast intro: wait)
qed

lemma hoare_batch_collect:
  assumes ctx: ctx_ok and ds: "ds_wf ds"
    and none: "\<And>off d. get_in_flight consumer off ds = Some d \<Longrightarrow> if_member d \<noteq> bq_member req"
    and waiting: "is_waiting \<Longrightarrow> max_wait_ms (bq_limits req) > 0"
  shows "hoare (alive (insert_schedules rs s0) (\<lambda>d. d = ds))
    (batch_collect cdc ho stream consumer legacy req is_waiting at_ms (sizer_new stream consumer (bq_response_member req)) (insert_schedules rs s0))
    (\<lambda>r se. \<exists>a. r = Done a \<and> steps s0 req a se) (\<lambda>_. rest)" (is "hoare _ _ ?Q _")
proof -
  let ?s = "insert_schedules rs s0" and ?F = "same_flights consumer ds" and ?z = "sizer_new stream consumer (bq_response_member req)"
  have fuel: "Suc (sl_next_offset (se_log se)) = Suc (length es)" if "alive ?s (\<lambda>d. d = ds) se" for se
    using that ctx log_okD(6) [of es junk log0] by (auto simp: live_def durable_def reading_def)
  obtain offsets keys where f: "retry_filter at_ms ?s = (offsets, keys)" by fastforce
  have "card (uncollected es ?s offsets) \<le> card {..<length es}"
    by (rule card_mono) (auto simp: uncollected_def)
  then have card: "card (uncollected es ?s offsets) < Suc (length es)" by simp
  have init: "collecting legacy dead_letter stream consumer (bq_token_seed req) (bq_response_member req) (bq_limits req) es ?s ds
      offsets keys [] ?z ?s"
    by (simp add: collecting_def gathered_def steady_refl sized_def List.map_filter_def)
  have loop: "hoare (alive ?s ?F)
      (collect_loop cdc ho stream consumer legacy (bq_limits req) (bq_token_seed req) (Suc (length es)) offsets keys [] ?z ?s)
      (gathers (bq_token_seed req) (bq_response_member req) (bq_limits req) ?s ds) (\<lambda>_. rest)"
    using hoare_collect_loop [OF ctx ds] init card by blast
  have tail: "hoare (gathers (bq_token_seed req) (bq_response_member req) (bq_limits req) ?s ds choice)
      (case choice of
        OutOfFuel \<Rightarrow> return_op OutOfFuel
      | Panicked msg \<Rightarrow> return_op (Panicked msg)
      | Done c \<Rightarrow> and_then (batch_finish cdc ho stream consumer req is_waiting at_ms c) (\<lambda>r. return_op (Done r))) ?Q (\<lambda>_. rest)" for choice
  proof (rule hoare_ex, intro hoare_fact)
    fix c
    assume c: "choice = Done c" and ok: "collected_ok legacy dead_letter stream consumer (bq_token_seed req) (bq_response_member req)
        (bq_limits req) es ?s ds c"
    show "hoare (alive (co_state c) ?F)
      (case choice of
        OutOfFuel \<Rightarrow> return_op OutOfFuel
      | Panicked msg \<Rightarrow> return_op (Panicked msg)
      | Done c \<Rightarrow> and_then (batch_finish cdc ho stream consumer req is_waiting at_ms c) (\<lambda>r. return_op (Done r))) ?Q (\<lambda>_. rest)"
      unfolding c run.case
      by (rule hoare_and_then [OF hoare_batch_finish [OF ok none waiting]], assumption, assumption, rule hoare_weaken_pre [OF hoare_return]) simp
  qed
  show ?thesis
    unfolding batch_collect_def f prod.case
    by (rule hoare_reads_known [where c = "Suc (length es)", OF fuel], assumption,
        rule hoare_weaken_pre [OF hoare_and_then [OF loop tail]]) (simp add: same_flights_def)
qed

lemma hoare_batch_step_locked:
  assumes ctx: ctx_ok
  shows "hoare (fresh s) (batch_step_locked cdc ho stream consumer req) (\<lambda>r se. \<exists>a. r = Done a \<and> steps s req a se) (\<lambda>_. rest)"
    (is "hoare _ _ ?Q _")
proof -
  have policy: "legacy_policy (se_broker se) = legacy" if "fresh s se" for se
    using that env_legacy by (auto simp: resting_def)
  have same: "progressed legacy dead_letter s (insert_schedules rs s)" for rs
    by (rule progressed_assign [OF steady_refl refl])
  have body: "hoare (alive cs (\<lambda>d. d = ds))
      (and_then (lift_res (member_deliveries consumer (bq_member req) ds)) (\<lambda>existing.
       if existing \<noteq> [] then batch_existing stream (bq_limits req) existing (sizer_new stream consumer (bq_response_member req))
       else batch_collect cdc ho stream consumer legacy req (max_wait_ms (bq_limits req) > 0 \<and> (case bq_deadline req of None \<Rightarrow> True | Some deadline \<Rightarrow> now < deadline)) at_ms
              (sizer_new stream consumer (bq_response_member req)) cs)) ?Q (\<lambda>_. rest)"
    if cs: "\<exists>rs. cs = insert_schedules rs s" and ds: "ds_wf ds" for cs ds now at_ms
  proof (rule hoare_and_then [OF hoare_lift [where s = cs and F = "\<lambda>d. d = ds"]], rule hoare_fact)
    fix fs
    assume fs: "member_deliveries consumer (bq_member req) ds = Inr fs"
    obtain rs where rs: "cs = insert_schedules rs s" using cs by blast
    show "hoare (alive cs (\<lambda>d. d = ds))
      (if fs \<noteq> [] then batch_existing stream (bq_limits req) fs (sizer_new stream consumer (bq_response_member req))
       else batch_collect cdc ho stream consumer legacy req (max_wait_ms (bq_limits req) > 0 \<and> (case bq_deadline req of None \<Rightarrow> True | Some deadline \<Rightarrow> now < deadline)) at_ms
              (sizer_new stream consumer (bq_response_member req)) cs) ?Q (\<lambda>_. rest)"
    proof (cases "fs = []")
      case False
      from hoare_batch_existing [OF ctx ds fs False same] False show ?thesis unfolding rs by (simp only: simp_thms if_True)
    next
      case True
      have "if_member d \<noteq> bq_member req" if "get_in_flight consumer off ds = Some d" for off d
        using member_deliveries_exact [OF ds, of consumer "bq_member req"] fs True that
        by (metis empty_iff list.set(1) sum.inject(2))
      from hoare_batch_collect [OF ctx ds this conjunct1] True show ?thesis unfolding rs by (simp only: simp_thms if_False)
    qed
  qed
  show ?thesis
    unfolding batch_step_locked_def Let_def
    apply (rule hoare_and_then [OF hoare_rest_instant], rule hoare_reads_known [where c = legacy, OF policy], assumption)
    apply (rule hoare_and_then [OF hoare_load_kept [OF ctx]], rule hoare_fact, simp only:)
    apply (rule hoare_and_then [OF hoare_clock [where s = s and F = "kept_from ds0"]], rule hoare_fact)
    apply (rule hoare_and_then [OF hoare_observe_kept], rule hoare_fact)
    apply (rule hoare_reads_delivery)
    apply (erule (1) body)
    done
qed

end

section \<open>The outcome of a step\<close>

lemma batch_outcome:
  assumes ctx: "codec_ok cdc" "hash_order_ok (ho_keys ho)" "clock_sane b" and ok: "consumer_ok cdc stream consumer es s b"
    and name: "valid_name stream"
    and run: "poll_batch_step cdc ho stream consumer req b = (r, b')"
  shows "\<exists>t. request_kept cdc stream consumer es s b t b' \<and> (\<forall>x. r = Inr x \<longrightarrow> (\<exists>a. x = Done a \<and>
      step_answered stream consumer req es (flights_of stream b') a \<and>
      progressed (legacy_policy b) (is_dead_letter_stream (fmdom (br_streams b)) stream) s t) \<and>
      (\<forall>off. get_in_flight consumer off (flights_of stream b') \<noteq> None \<longrightarrow> \<not> settled t off))"
  by (rule locked_request_open [OF ok calm_now [OF ctx(3) name] _ run [unfolded poll_batch_step_def]],
      rule hoare_strengthen_post [OF faulty.hoare_batch_step_locked], use ctx in simp) auto

section \<open>The waiting poll\<close>

text \<open>Reading a clock or drawing a token changes nothing a request relies on.\<close>

definition same_service :: "broker \<Rightarrow> broker \<Rightarrow> bool" where
  "same_service b b1 \<longleftrightarrow>
     br_streams b1 = br_streams b \<and> env_files (br_env b1) = env_files (br_env b) \<and> legacy_policy b1 = legacy_policy b \<and>
     clock_sane b1 = clock_sane b"

lemma same_service_steps:
  "same_service b (snd (instant_now b))" "same_service b (snd (take_token b))"
  by (auto simp: same_service_def instant_now_def take_token_def clock_sane_def legacy_policy_def split: list.split prod.split)

lemma same_service_ok: "same_service b b1 \<Longrightarrow> consumer_ok cdc stream consumer es s b1 = consumer_ok cdc stream consumer es s b"
  by (simp add: same_service_def consumer_ok_def)

lemma same_service_kept:
  assumes "same_service b b1" "request_kept cdc stream consumer es s b1 t b'"
  shows "request_kept cdc stream consumer es s b t b'"
  using assms by (simp add: request_kept_def untouched_def logs_read_def same_service_ok) (simp add: same_service_def)

definition started_as :: "string \<Rightarrow> string option \<Rightarrow> consume_batch_limits \<Rightarrow> batch_request \<Rightarrow> bool" where
  "started_as member response_member limits req \<longleftrightarrow>
     bq_member req = member \<and> bq_response_member req = response_member \<and> bq_limits req = limits"

text \<open>A batch poll is refused with nothing changed, or runs its loop from a broker that serves the same.\<close>

lemma batch_wait_start:
  assumes run: "poll_batch_wait cdc ho stream consumer member response_member limits meanwhile b = (r, b')"
  shows "(isl r \<and> same_service b b') \<or>
    (\<exists>req b1. same_service b b1 \<and> valid_name stream \<and> started_as member response_member limits req \<and>
       batch_wait_loop cdc ho stream consumer req (id # meanwhile) (bq_deadline req) b1 = (r, b'))"
proof (cases "check_batch_request stream consumer member response_member limits = Inr () \<and> stream |\<in>| fmdom (br_streams b)")
  case False
  then have "isl r \<and> b' = b"
    using run by (auto simp: poll_batch_wait_def and_then_def lift_res_def on_stream_def fmdom_notI split: sum.splits option.splits)
  then show ?thesis by (simp add: same_service_def)
next
  case True
  then obtain ss where ss: "fmlookup (br_streams b) stream = Some ss" by (auto dest: fmdomE)
  have name: "valid_name stream"
    using True by (auto simp: check_batch_request_def validate_name_def split: sum.splits if_splits)
  have again: "b\<lparr>br_streams := fmupd stream ss (br_streams b)\<rparr> = b"
    using ss by (cases b) (auto intro!: fmap_ext)
  obtain start b1 where now: "instant_now b = (Inr start, b1)"
    by (cases "env_instants (br_env b)") (auto simp: instant_now_def)
  obtain seed b2 where token: "take_token b1 = (Inr seed, b2)" by (cases "next_token (br_tokens b1)") (auto simp: take_token_def)
  have b1: "same_service b b1" using same_service_steps(1) [of b] now by simp
  then have b2: "same_service b b2" using same_service_steps(2) [of b1] token by (simp add: same_service_def)
  show ?thesis
  proof (cases "instant_checked_add start (from_millis (max_wait_ms limits))")
    case None
    with run True ss again now have "r = Inl (InvalidBatchRequest ''max_wait_ms is too large'')" "b' = b1"
      by (simp_all add: poll_batch_wait_def and_then_def lift_res_def on_stream_def return_op_def throw_def)
    with b1 show ?thesis by simp
  next
    case (Some deadline)
    let ?req = "\<lparr>bq_member = member, bq_response_member = response_member, bq_limits = limits, bq_deadline = Some deadline, bq_token_seed = seed\<rparr>"
    from run True ss again now token Some
    have "batch_wait_loop cdc ho stream consumer ?req (id # meanwhile) (bq_deadline ?req) b2 = (r, b')"
      by (simp add: poll_batch_wait_def and_then_def [of "lift_res _"] and_then_def [of "on_stream _ _"] and_then_def [of instant_now]
          and_then_def [of take_token] lift_res_def on_stream_def return_op_def Let_def del: batch_wait_loop.simps)
    with b2 name show ?thesis by (intro disjI2 exI [of _ ?req] exI [of _ b2]) (simp add: started_as_def del: batch_wait_loop.simps)
  qed
qed

text \<open>
  What the other requests do while the poll waits: the stream keeps a log that can be read and the
  consumer is at rest, whatever is published to the log.
\<close>

definition batch_ready :: "codec \<Rightarrow> string \<Rightarrow> string \<Rightarrow> broker \<Rightarrow> bool" where
  "batch_ready cdc stream consumer b \<longleftrightarrow> clock_sane b \<and> (\<exists>es s. consumer_ok cdc stream consumer es s b)"

text \<open>What the whole poll answers: a batch, or that it waits, which a poll that may not wait never does.\<close>

fun wait_answered ::
  "string \<Rightarrow> string \<Rightarrow> string \<Rightarrow> string option \<Rightarrow> consume_batch_limits \<Rightarrow> log_entry list \<Rightarrow> delivery_state \<Rightarrow>
   batch_wait_result run \<Rightarrow> bool" where
  "wait_answered stream consumer member response_member limits es ds (Done (Returned ms)) =
     batched stream consumer member response_member limits es ds ms"
| "wait_answered stream consumer member response_member limits es ds (Done (StillWaiting wake)) = (max_wait_ms limits > 0)"
| "wait_answered stream consumer member response_member limits es ds OutOfFuel = False"
| "wait_answered stream consumer member response_member limits es ds (Panicked msg) = False"

lemma batch_loop_outcome:
  assumes ctx: "codec_ok cdc" "hash_order_ok (ho_keys ho)" and name: "valid_name stream"
    and others: "\<And>g b. g \<in> set meanwhile \<Longrightarrow> batch_ready cdc stream consumer b \<Longrightarrow> batch_ready cdc stream consumer (g b)"
    and ready: "batch_ready cdc stream consumer b"
    and waits: "meanwhile = [] \<Longrightarrow> max_wait_ms (bq_limits req) > 0"
    and run: "batch_wait_loop cdc ho stream consumer req meanwhile wake b = (r, b')"
  shows "\<exists>es t. clock_sane b' \<and> consumer_ok cdc stream consumer es t b' \<and>
    (\<forall>x. r = Inr x \<longrightarrow> wait_answered stream consumer (bq_member req) (bq_response_member req) (bq_limits req) es (flights_of stream b') x)"
  using others ready waits run
proof (induction meanwhile arbitrary: wake b)
  case Nil
  then show ?case by (auto simp: batch_ready_def return_op_def)
next
  case (Cons g meanwhile)
  have "batch_ready cdc stream consumer (g b)" using Cons.prems(1,2) by simp
  then obtain es s where ok: "clock_sane (g b)" "consumer_ok cdc stream consumer es s (g b)" by (auto simp: batch_ready_def)
  obtain r1 b1 where step: "poll_batch_step cdc ho stream consumer req (g b) = (r1, b1)" by fastforce
  from batch_outcome [OF ctx ok name step] obtain t where t: "request_kept cdc stream consumer es s (g b) t b1"
    "\<And>x. r1 = Inr x \<Longrightarrow> \<exists>a. x = Done a \<and> step_answered stream consumer req es (flights_of stream b1) a"
    by blast
  then have b1: "clock_sane b1" "consumer_ok cdc stream consumer es t b1" by (auto simp: request_kept_def)
  show ?case
  proof (cases r1)
    case (Inl e)
    with Cons.prems(4) step have "r = Inl e" "b' = b1" by (auto simp: and_then_def modify_def)
    with b1 show ?thesis by auto
  next
    case (Inr x)
    from t(2) [OF Inr] obtain a where a: "x = Done a" "step_answered stream consumer req es (flights_of stream b1) a" by blast
    show ?thesis
    proof (cases a)
      case (Complete ms)
      with Cons.prems(4) step Inr a(1) have "r = Inr (Done (Returned ms))" "b' = b1" by (auto simp: and_then_def modify_def return_op_def)
      with a(2) Complete b1 show ?thesis by auto
    next
      case (WaitingFor w)
      let ?wake = "case (bq_deadline req, w) of (Some deadline, Some expiry) \<Rightarrow> Some (min deadline expiry)
          | (Some deadline, None) \<Rightarrow> Some deadline | (None, expiry) \<Rightarrow> expiry"
      from Cons.prems(4) step Inr a(1) WaitingFor have "batch_wait_loop cdc ho stream consumer req meanwhile ?wake b1 = (r, b')"
        by (simp add: and_then_def modify_def)
      from Cons.IH [OF _ _ _ this] show ?thesis
        using Cons.prems(1) b1 a(2) WaitingFor by (auto simp: batch_ready_def)
    qed
  qed
qed

lemma batch_wait_outcome:
  assumes ctx: "codec_ok cdc" "hash_order_ok (ho_keys ho)"
    and others: "\<And>g b. g \<in> set meanwhile \<Longrightarrow> batch_ready cdc stream consumer b \<Longrightarrow> batch_ready cdc stream consumer (g b)"
    and ready: "batch_ready cdc stream consumer b"
    and run: "poll_batch_wait cdc ho stream consumer member response_member limits meanwhile b = (r, b')"
  shows "\<exists>es t. clock_sane b' \<and> consumer_ok cdc stream consumer es t b' \<and>
    (\<forall>x. r = Inr x \<longrightarrow> wait_answered stream consumer member response_member limits es (flights_of stream b') x)"
  using batch_wait_start [OF run]
proof (elim disjE exE conjE)
  assume "isl r" "same_service b b'"
  then show ?thesis using ready by (auto simp: batch_ready_def same_service_ok) (auto simp: same_service_def)
next
  fix req b1
  assume b1: "same_service b b1" "valid_name stream" and req: "started_as member response_member limits req"
    and loop: "batch_wait_loop cdc ho stream consumer req (id # meanwhile) (bq_deadline req) b1 = (r, b')"
  have "batch_ready cdc stream consumer b1"
    using ready b1(1) by (simp add: batch_ready_def same_service_ok) (simp add: same_service_def)
  moreover have "batch_ready cdc stream consumer (g b)" if "g \<in> set (id # meanwhile)" "batch_ready cdc stream consumer b" for g b
    using that others by auto
  ultimately show ?thesis using batch_loop_outcome [OF ctx b1(2) _ _ _ loop] req by (simp add: started_as_def)
qed

text \<open>The first step of a batch poll is a request like the others.\<close>

lemma batch_first_kept:
  assumes ctx: "codec_ok cdc" "hash_order_ok (ho_keys ho)" "clock_sane b" and ok: "consumer_ok cdc stream consumer es s b"
    and run: "poll_batch_wait cdc ho stream consumer member response_member limits [] b = (r, b')"
  shows "\<exists>t. request_kept cdc stream consumer es s b t b'"
  using batch_wait_start [OF run]
proof (elim disjE exE conjE)
  assume "isl r" and same: "same_service b b'"
  with ctx(3) ok have "request_kept cdc stream consumer es s b' s b'"
    by (intro request_kept_same) (simp_all add: same_service_ok, simp add: same_service_def)
  from same_service_kept [OF same this] show ?thesis by blast
next
  fix req b1
  assume b1: "same_service b b1" "valid_name stream"
    and loop: "batch_wait_loop cdc ho stream consumer req [id] (bq_deadline req) b1 = (r, b')"
  obtain r1 b2 where step: "poll_batch_step cdc ho stream consumer req b1 = (r1, b2)" by fastforce
  from loop step have "b' = b2"
    by (auto simp: and_then_def modify_def return_op_def split: sum.splits run.splits poll_batch_step_result.splits)
  have "clock_sane b1" "consumer_ok cdc stream consumer es s b1"
    using ctx(3) ok b1(1) by (simp_all add: same_service_ok) (simp add: same_service_def)
  from batch_outcome [OF ctx(1,2) this b1(2) step] same_service_kept [OF b1(1)] show ?thesis
    unfolding \<open>b' = b2\<close> by blast
qed

end
