(* ===== verification/Broker_Service.thy ===== *)
theory Broker_Service
  imports Broker_Batch_Steps
begin

text \<open>
  The broker as a service: sequences of requests of any consumers on any streams, of publications,
  and of restarts. The steps keep every consumer at rest, and nothing that a consumer has settled is
  ever lost.
\<close>

section \<open>Steps\<close>

text \<open>
  \<open>E\<close> maps the streams that are looked at to the entries of their logs. A consumer request on one of
  them may move records to its dead-letter stream, whose log can fail half way; a stream whose
  dead-letter stream is looked at itself is therefore not \<open>tracked\<close>.
\<close>

type_synonym entries = "string \<Rightarrow> log_entry list option"

definition tracked :: "entries \<Rightarrow> string \<Rightarrow> bool" where
  "tracked E st \<longleftrightarrow> E st \<noteq> None \<and> (\<forall>t. E t \<noteq> None \<longrightarrow> dead_letter_stream_name st \<noteq> Inr t)"

definition stream_ok :: "log_entry list \<Rightarrow> string \<Rightarrow> broker \<Rightarrow> bool" where
  "stream_ok es st b \<longleftrightarrow> (\<exists>ss. fmlookup (br_streams b) st = Some ss \<and> log_ok es [] (ss_log ss))"

definition serving :: "codec \<Rightarrow> entries \<Rightarrow> broker \<Rightarrow> bool" where
  "serving cdc E b \<longleftrightarrow>
     clock_sane b \<and> (\<forall>st es. E st = Some es \<longrightarrow> valid_name st \<and> stream_ok es st b \<and> (\<forall>c. \<exists>s. consumer_ok cdc st c es s b))"

lemma servingD:
  assumes "serving cdc E b" "E st = Some es"
  shows "valid_name st" "\<exists>s. consumer_ok cdc st c es s b"
    and "\<exists>ss. fmlookup (br_streams b) st = Some ss \<and> log_ok es [] (ss_log ss)"
  using assms unfolding serving_def stream_ok_def by blast+

definition request_identity :: "string option \<Rightarrow> record_identity" where
  "request_identity request_id = (case request_id of None \<Rightarrow> NoIdentity | Some rid \<Rightarrow> Public rid)"

definition log_of :: "string \<Rightarrow> broker \<Rightarrow> stream_log" where
  "log_of st b = (case fmlookup (br_streams b) st of Some ss \<Rightarrow> ss_log ss | None \<Rightarrow> empty_log [] [] [])"

text \<open>
  The directory a restarted process finds: the file of every stream as the last process left it.
\<close>

definition left_by :: "entries \<Rightarrow> broker \<Rightarrow> dir_entry list \<Rightarrow> bool" where
  "left_by E b found \<longleftrightarrow>
     distinct (map de_name found) \<and>
     (\<forall>st. E st \<noteq> None \<longrightarrow>
        (\<exists>e \<in> set found. de_name e = Some (st @ ''.log'') \<and> de_contents e = sl_file (log_of st b)))"

inductive serves :: "codec \<Rightarrow> hash_orders \<Rightarrow> entries \<times> broker \<Rightarrow> entries \<times> broker \<Rightarrow> bool" for cdc ho where
  serve_poll: "tracked E st \<Longrightarrow> poll_group_inner cdc ho st c member response_member limit b = (r, b') \<Longrightarrow>
    serves cdc ho (E, b) (E, b')"
| serve_ack: "tracked E st \<Longrightarrow> ack_group cdc ho st c member off token b = (r, b') \<Longrightarrow> serves cdc ho (E, b) (E, b')"
| serve_ack_batch: "tracked E st \<Longrightarrow> ack_batch cdc ho st c member receipts b = (r, b') \<Longrightarrow> serves cdc ho (E, b) (E, b')"
| serve_configure: "tracked E st \<Longrightarrow> configure_consumer cdc ho st c timeout_ms max_attempts delay_ms b = (r, b') \<Longrightarrow>
    serves cdc ho (E, b) (E, b')"
| serve_inspect: "tracked E st \<Longrightarrow> inspect_consumer cdc ho st c b = (r, b') \<Longrightarrow> serves cdc ho (E, b) (E, b')"
| serve_batch: "tracked E st \<Longrightarrow> poll_batch_wait cdc ho st c member response_member limits [] b = (r, b') \<Longrightarrow>
    serves cdc ho (E, b) (E, b')"
| serve_batch_woken: "tracked E st \<Longrightarrow> poll_batch_step cdc ho st c req b = (r, b') \<Longrightarrow> serves cdc ho (E, b) (E, b')"
| serve_publish: "E st = Some es \<Longrightarrow> texts_ok key (request_identity request_id) \<Longrightarrow> length es < u64_max \<Longrightarrow>
    publish_with_request_id st key payload request_id b = (Inr off, b') \<Longrightarrow>
    es' = (if off < length es then es else es @ [new_entry key payload (request_identity request_id) (log_of st b)]) \<Longrightarrow>
    serves cdc ho (E, b) (E(st \<mapsto> es'), b')"
| serve_restart: "left_by E b found \<Longrightarrow> env_files env = env_files (br_env b) \<Longrightarrow> list_all (\<lambda>t. t < int u64_max) (env_clock env) \<Longrightarrow>
    open_broker config found dir_script epoch env = Inr b' \<Longrightarrow> serves cdc ho (E, b) (E, b')"

section \<open>What a step keeps\<close>

definition keeps :: "codec \<Rightarrow> entries \<times> broker \<Rightarrow> entries \<times> broker \<Rightarrow> bool" where
  "keeps cdc x y \<longleftrightarrow>
     (\<forall>st c es s. fst x st = Some es \<longrightarrow> consumer_ok cdc st c es s (snd x) \<longrightarrow>
        (\<exists>es' t. fst y st = Some (es @ es') \<and> consumer_ok cdc st c (es @ es') t (snd y) \<and>
           (\<forall>off. settled s off \<longrightarrow> settled t off)))"

lemma keeps_refl: "keeps cdc x x"
  unfolding keeps_def by (metis append_Nil2)

lemma keeps_trans:
  assumes "keeps cdc x y" "keeps cdc y z"
  shows "keeps cdc x z"
  unfolding keeps_def
proof (intro allI impI)
  fix st c es s
  assume "fst x st = Some es" "consumer_ok cdc st c es s (snd x)"
  with assms(1) obtain es1 t1 where 1: "fst y st = Some (es @ es1)" "consumer_ok cdc st c (es @ es1) t1 (snd y)"
    "\<forall>off. settled s off \<longrightarrow> settled t1 off"
    unfolding keeps_def by blast
  with assms(2) obtain es2 t2 where "fst z st = Some ((es @ es1) @ es2)" "consumer_ok cdc st c ((es @ es1) @ es2) t2 (snd z)"
    "\<forall>off. settled t1 off \<longrightarrow> settled t2 off"
    unfolding keeps_def by blast
  with 1 show "\<exists>es' t. fst z st = Some (es @ es') \<and> consumer_ok cdc st c (es @ es') t (snd z) \<and> (\<forall>off. settled s off \<longrightarrow> settled t off)"
    by (intro exI [of _ "es1 @ es2"] exI [of _ t2]) simp
qed

lemma serving_stepI:
  assumes serving: "serving cdc E b" and clock: "clock_sane b'" and logs: "\<And>st es. E st = Some es \<Longrightarrow> stream_ok es st b'"
    and own: "\<And>st c es s. E st = Some es \<Longrightarrow> consumer_ok cdc st c es s b \<Longrightarrow>
      \<exists>t. consumer_ok cdc st c es t b' \<and> (\<forall>off. settled s off \<longrightarrow> settled t off)"
  shows "serving cdc E b' \<and> keeps cdc (E, b) (E, b')"
proof
  have "\<exists>t. consumer_ok cdc st c es t b'" if "E st = Some es" for st c es
    using servingD(2) [OF serving that] own [OF that, of c] by blast
  with clock logs servingD(1) [OF serving] show "serving cdc E b'" by (simp add: serving_def)
  show "keeps cdc (E, b) (E, b')"
    unfolding keeps_def
  proof (intro allI impI)
    fix st c es s
    assume "fst (E, b) st = Some es" "consumer_ok cdc st c es s (snd (E, b))"
    with own [of st es c s] show "\<exists>es1 t. fst (E, b') st = Some (es @ es1) \<and> consumer_ok cdc st c (es @ es1) t (snd (E, b')) \<and>
        (\<forall>off. settled s off \<longrightarrow> settled t off)"
      by (intro exI [of _ "[]"]) simp
  qed
qed

text \<open>The requests of a consumer.\<close>

lemma request_serving:
  assumes serving: "serving cdc E b" and st: "tracked E st"
    and kept: "\<And>es s. consumer_ok cdc st c es s b \<Longrightarrow> \<exists>t. request_kept cdc st c es s b t b'"
  shows "serving cdc E b' \<and> keeps cdc (E, b) (E, b')"
proof -
  from st obtain es where es: "E st = Some es" by (auto simp: tracked_def)
  with serving obtain s where "consumer_ok cdc st c es s b" using servingD(2) by blast
  from kept [OF this] obtain t where t: "request_kept cdc st c es s b t b'" by blast
  have target: "dead_letter_stream_name st \<noteq> Inr st'" if "E st' \<noteq> None" for st'
    using st that by (auto simp: tracked_def)
  have own: "\<exists>t. consumer_ok cdc st' c' es' t b' \<and> (\<forall>off. settled s' off \<longrightarrow> settled t off)"
    if "E st' = Some es'" "consumer_ok cdc st' c' es' s' b" for st' c' es' s'
  proof (cases "(st', c') = (st, c)")
    case True
    with kept [of es' s'] that(2) show ?thesis by (auto simp: request_kept_def)
  next
    case False
    with t that target [of st'] have "consumer_ok cdc st' c' es' s' b'"
      unfolding request_kept_def untouched_def by blast
    then show ?thesis by blast
  qed
  have logs: "stream_ok es' st' b'" if "E st' = Some es'" for st' es'
  proof -
    from servingD(3) [OF serving that] obtain ss where ss: "fmlookup (br_streams b) st' = Some ss" "log_ok es' [] (ss_log ss)"
      by blast
    with t target [of st'] that obtain ss' where "fmlookup (br_streams b') st' = Some ss'" "reading (ss_log ss) (ss_log ss')"
      unfolding request_kept_def logs_read_def by blast
    with ss reading_log_ok show ?thesis by (auto simp: stream_ok_def)
  qed
  from t have "clock_sane b'" by (simp add: request_kept_def)
  from serving_stepI [OF serving this logs own] show ?thesis .
qed

text \<open>Publishing: a request that is answered with an offset appended its record there, or had before.\<close>

lemma published_log:
  assumes ok: "log_ok es [] log" and texts: "texts_ok key (request_identity request_id)" and room: "length es < u64_max"
    and run: "publish_locked key payload request_id \<lparr>ss_log = log, ss_delivery = ds, ss_wakes = w\<rparr> = (Inr off, ss')"
  shows "\<exists>log' w'. ss' = \<lparr>ss_log = log', ss_delivery = ds, ss_wakes = w'\<rparr> \<and>
    log_ok (if off < length es then es else es @ [new_entry key payload (request_identity request_id) log]) [] log'"
proof -
  have append: ?thesis
    if "append_record_with_sync key payload (request_identity request_id) True log1 = (Inr off, log2)" "reading log log1"
      "ss' = \<lparr>ss_log = log2, ss_delivery = ds, ss_wakes = Suc w\<rparr>" for log1 log2
  proof -
    have "new_entry key payload i log1 = new_entry key payload i log" for i
      using reading_fields [OF that(2)] by (simp add: new_entry_def stamp_def)
    with append_record_cases [OF reading_log_ok [OF that(2) ok] texts room that(1)] that(3) show ?thesis by auto
  qed
  show ?thesis
  proof (cases request_id)
    case None
    then obtain log2 where "append_record_with_sync key payload (request_identity request_id) True log = (Inr off, log2)"
      "ss' = \<lparr>ss_log = log2, ss_delivery = ds, ss_wakes = Suc w\<rparr>"
      using run by (auto simp: publish_locked_def on_stream_log_def op_defs append_log_def request_identity_def stream_notify_def
        split: prod.splits sum.splits)
    then show ?thesis by (rule append [OF _ reading_refl])
  next
    case (Some rid)
    obtain r log1 where known: "request_offset_for_content rid key payload log = (r, log1)" by fastforce
    have pub: "published_as rid es = k \<and> reading log log1" if "r = Inr k" for k
    proof (cases "\<exists>off. published_as rid es = Some off \<and> \<not> same_content key payload (es ! off)")
      case True
      then obtain off where "published_as rid es = Some off" "\<not> same_content key payload (es ! off)" by blast
      from hoareD_ok [OF conflicting_request_offset [OF ok this] reading_refl] known that show ?thesis by auto
    next
      case False
      then have "reads_log log (request_offset_for_content rid key payload) (published_as rid es)"
        by (intro reads_request_offset [OF ok]) auto
      from hoareD_ok [OF this reading_refl] known that show ?thesis by auto
    qed
    obtain k where k: "r = Inr k"
      using run known Some by (cases r) (auto simp: publish_locked_def on_stream_log_def op_defs)
    note pub = pub [OF k]
    show ?thesis
    proof (cases k)
      case None
      with run known Some k obtain log2 where "append_record_with_sync key payload (request_identity request_id) True log1 = (Inr off, log2)"
        "ss' = \<lparr>ss_log = log2, ss_delivery = ds, ss_wakes = Suc w\<rparr>"
        by (auto simp: publish_locked_def on_stream_log_def op_defs append_with_request_id_def request_identity_def stream_notify_def
          split: prod.splits sum.splits)
      with pub show ?thesis by (intro append) auto
    next
      case (Some off')
      with run known \<open>request_id = Some rid\<close> k have "off = off'" "ss' = \<lparr>ss_log = log1, ss_delivery = ds, ss_wakes = w\<rparr>"
        by (auto simp: publish_locked_def on_stream_log_def op_defs)
      with pub Some published_as_less [of rid es off'] reading_log_ok [OF _ ok] show ?thesis by auto
    qed
  qed
qed

lemma rest_in_grows: "rest_in K cdc st c n s w \<Longrightarrow> n \<le> m \<Longrightarrow> rest_in K cdc st c m s w"
  by (auto simp: rest_in_def)

lemma publish_serving:
  assumes serving: "serving cdc E b" and es: "E st = Some es" and texts: "texts_ok key (request_identity request_id)"
    and room: "length es < u64_max" and run: "publish_with_request_id st key payload request_id b = (Inr off, b')"
    and es': "es' = (if off < length es then es else es @ [new_entry key payload (request_identity request_id) (log_of st b)])"
  shows "serving cdc (E(st \<mapsto> es')) b' \<and> keeps cdc (E, b) (E(st \<mapsto> es'), b')"
proof -
  from servingD(3) [OF serving es] obtain ss where "fmlookup (br_streams b) st = Some ss" "log_ok es [] (ss_log ss)"
    by blast
  then obtain log ds w where ss: "fmlookup (br_streams b) st = Some \<lparr>ss_log = log, ss_delivery = ds, ss_wakes = w\<rparr>"
    "log_ok es [] log"
    by (cases ss) auto
  have log: "log_of st b = log" using ss by (simp add: log_of_def)
  from run ss(1) obtain ss' where
    pub: "publish_locked key payload request_id \<lparr>ss_log = log, ss_delivery = ds, ss_wakes = w\<rparr> = (Inr off, ss')"
    and b': "b' = b\<lparr>br_streams := fmupd st ss' (br_streams b)\<rparr>"
    by (auto simp: publish_with_request_id_def op_defs get_or_create_stream_def on_stream_def split: sum.splits prod.splits)
  from published_log [OF ss(2) texts room pub] obtain log' w' where
    ss': "ss' = \<lparr>ss_log = log', ss_delivery = ds, ss_wakes = w'\<rparr>" "log_ok es' [] log'"
    unfolding es' log by (auto split: if_splits)
  obtain more where more: "es' = es @ more" unfolding es' by (cases "off < length es") auto
  have grown: "consumer_ok cdc st' c (es1 @ (if st' = st then more else [])) s b'"
    if "consumer_ok cdc st' c es1 s b" "E st' = Some es1" for st' c es1 s
  proof (cases "st' = st")
    case True
    with that es ss(1) have "rest_in {} cdc st c (length es) s (ds, env_files (br_env b) st c)"
      by (auto simp: consumer_ok_def)
    then have "rest_in {} cdc st c (length (es @ more)) s (ds, env_files (br_env b) st c)"
      by (rule rest_in_grows) simp
    with True that es ss' more show ?thesis by (auto simp: consumer_ok_def b' intro!: exI [of _ "[]"])
  next
    case False
    with that show ?thesis by (simp add: consumer_ok_def b')
  qed
  have "serving cdc (E(st \<mapsto> es')) b'"
    unfolding serving_def
  proof (intro conjI allI impI)
    show "clock_sane b'" using serving by (simp add: serving_def clock_sane_def b')
  next
    fix st' es1 c
    assume st': "(E(st \<mapsto> es')) st' = Some es1"
    show "valid_name st'" using st' servingD(1) [OF serving] es by (auto split: if_splits)
    show "stream_ok es1 st' b'"
      using st' servingD(3) [OF serving] ss' by (auto simp: stream_ok_def b' split: if_splits)
    from st' es obtain es0 where es0: "E st' = Some es0" "es1 = es0 @ (if st' = st then more else [])"
      by (auto simp: more split: if_splits)
    from servingD(2) [OF serving es0(1)] obtain s where "consumer_ok cdc st' c es0 s b" by blast
    with grown es0 show "\<exists>s. consumer_ok cdc st' c es1 s b'" by blast
  qed
  moreover have "keeps cdc (E, b) (E(st \<mapsto> es'), b')"
    unfolding keeps_def
  proof (intro allI impI)
    fix st' c es1 s
    assume st': "fst (E, b) st' = Some es1" "consumer_ok cdc st' c es1 s (snd (E, b))"
    with grown [of st' c es1 s] es more show "\<exists>es2 t. fst (E(st \<mapsto> es'), b') st' = Some (es1 @ es2) \<and>
        consumer_ok cdc st' c (es1 @ es2) t (snd (E(st \<mapsto> es'), b')) \<and> (\<forall>off. settled s off \<longrightarrow> settled t off)"
      by (intro exI [of _ "if st' = st then more else []"] exI [of _ s]) auto
  qed
  ultimately show ?thesis ..
qed

text \<open>Restarting: the logs are recovered from the files, and no delivery is in flight.\<close>

lemma split_extension_log: "n \<noteq> [] \<Longrightarrow> split_extension (n @ ''.log'') = (n, Some ''log'')"
  by (cases "rev n") (auto simp: split_extension_def)

lemma split_extension_some: "split_extension name = (n, Some ext) \<Longrightarrow> name = n @ CHR ''.'' # ext"
proof -
  assume a: "split_extension name = (n, Some ext)"
  let ?w = "takeWhile (\<lambda>c. c \<noteq> CHR ''.'') (rev name)" and ?r = "dropWhile (\<lambda>c. c \<noteq> CHR ''.'') (rev name)"
  from a obtain x y ys where r: "?r = x # y # ys" and n: "n = rev (y # ys)" "ext = rev ?w"
    by (auto simp: split_extension_def split: list.splits)
  from r have "x = CHR ''.''" using hd_dropWhile [of "\<lambda>c. c \<noteq> CHR ''.''" "rev name"] by (cases ?r) auto
  moreover have "rev name = ?w @ ?r" by simp
  ultimately have "rev name = rev (n @ CHR ''.'' # ext)" using r n by simp
  then show ?thesis by (simp only: rev_is_rev_conv)
qed

lemma inspect_streams_Cons:
  assumes "inspect_streams (d # found) fs = (Inr recovered, fs')"
  obtains (stream) fs1 rest n log tail where "inspect_streams found fs1 = (Inr rest, fs')" "de_name d = Some (n @ ''.log'')"
      "inspect (de_contents d) (de_script d) (de_clock d) = Inr (log, tail)" "recovered = (n, log, tail) # rest"
  | (other) fs1 where "inspect_streams found fs1 = (Inr recovered, fs')" "\<And>n. n \<noteq> [] \<Longrightarrow> de_name d \<noteq> Some (n @ ''.log'')"
proof -
  obtain fs1 where run: "(case map_option split_extension (de_name d) of
       Some (name, Some ext) \<Rightarrow>
         if ext \<noteq> ''log'' then inspect_streams found
         else and_then (lift_res (validate_name ''stream'' name)) (\<lambda>_.
              and_then (lift_res (inspect (de_contents d) (de_script d) (de_clock d))) (\<lambda>found1.
              and_then (inspect_streams found) (\<lambda>rest.
              return_op ((name, found1) # rest))))
     | _ \<Rightarrow> inspect_streams found) fs1 = (Inr recovered, fs')"
    using assms by (auto simp: and_then_def [of dir_call] split: prod.splits sum.splits)
  show thesis
  proof (cases "\<exists>n. map_option split_extension (de_name d) = Some (n, Some ''log'')")
    case True
    then obtain n where n: "map_option split_extension (de_name d) = Some (n, Some ''log'')" by blast
    then have name: "de_name d = Some (n @ ''.log'')" using split_extension_some by (cases "de_name d") auto
    from run n obtain log tail rest fs2 where "inspect (de_contents d) (de_script d) (de_clock d) = Inr (log, tail)"
      "inspect_streams found fs2 = (Inr rest, fs')" "recovered = (n, log, tail) # rest"
      by (auto simp: op_defs split: sum.splits prod.splits)
    with name show thesis by (intro stream)
  next
    case False
    then have "inspect_streams found fs1 = (Inr recovered, fs')"
      using run by (auto split: option.splits prod.splits if_splits)
    moreover have "de_name d \<noteq> Some (n @ ''.log'')" if "n \<noteq> []" for n
      using False split_extension_log [OF that] by auto
    ultimately show thesis by (rule other)
  qed
qed

lemma inspected_streams:
  assumes "inspect_streams found fs = (Inr recovered, fs')"
  shows "(\<forall>e n. e \<in> set found \<longrightarrow> de_name e = Some (n @ ''.log'') \<longrightarrow> n \<noteq> [] \<longrightarrow>
      (\<exists>log tail. inspect (de_contents e) (de_script e) (de_clock e) = Inr (log, tail) \<and> (n, log, tail) \<in> set recovered)) \<and>
    (\<forall>n. n \<in> fst ` set recovered \<longrightarrow> Some (n @ ''.log'') \<in> de_name ` set found) \<and>
    (distinct (map de_name found) \<longrightarrow> distinct (map fst recovered))"
  using assms
proof (induction found arbitrary: fs recovered)
  case Nil
  then show ?case by (simp add: return_op_def)
next
  case (Cons d found)
  from Cons.prems show ?case
  proof (cases rule: inspect_streams_Cons)
    case (stream fs1 rest n log tail)
    note IH = Cons.IH [OF stream(1)]
    show ?thesis
    proof (intro conjI allI impI)
      fix e n'
      assume e: "e \<in> set (d # found)" "de_name e = Some (n' @ ''.log'')" "n' \<noteq> []"
      show "\<exists>log tail. inspect (de_contents e) (de_script e) (de_clock e) = Inr (log, tail) \<and> (n', log, tail) \<in> set recovered"
      proof (cases "e = d")
        case True
        with e stream show ?thesis by auto
      next
        case False
        with e have "e \<in> set found" by simp
        with e conjunct1 [OF IH] obtain log tail where
          "inspect (de_contents e) (de_script e) (de_clock e) = Inr (log, tail) \<and> (n', log, tail) \<in> set rest" by blast
        with stream(4) show ?thesis by auto
      qed
    next
      fix n'
      assume "n' \<in> fst ` set recovered"
      with stream(2,4) conjunct2 [OF IH] show "Some (n' @ ''.log'') \<in> de_name ` set (d # found)"
        by (cases "n' = n") auto
    next
      assume "distinct (map de_name (d # found))"
      then have "Some (n @ ''.log'') \<notin> de_name ` set found" "distinct (map de_name found)" using stream(2) by auto
      with conjunct2 [OF IH] have "n \<notin> fst ` set rest" "distinct (map fst rest)" by blast+
      with stream(4) show "distinct (map fst recovered)" by simp
    qed
  next
    case (other fs1)
    note IH = Cons.IH [OF other(1)]
    with other(2) show ?thesis by auto
  qed
qed

lemma finished_streams:
  assumes "finish_streams recovered streams = Inr streams'" "distinct (map fst recovered)"
  shows "(n \<notin> fst ` set recovered \<longrightarrow> fmlookup streams' n = fmlookup streams n) \<and>
    (\<forall>log tail. (n, log, tail) \<in> set recovered \<longrightarrow>
       (\<exists>log'. finish_recovery tail log = (Inr (), log') \<and> fmlookup streams' n = Some (new_stream_state log')))"
  using assms
proof (induction recovered arbitrary: streams)
  case Nil
  then show ?case by simp
next
  case (Cons r recovered)
  obtain n0 log0 tail0 where r: "r = (n0, log0, tail0)" by (cases r)
  from Cons.prems r obtain log1 where log1: "finish_recovery tail0 log0 = (Inr (), log1)"
    "finish_streams recovered (fmupd n0 (new_stream_state log1) streams) = Inr streams'" "distinct (map fst recovered)" "n0 \<notin> fst ` set recovered"
    by (auto split: prod.splits sum.splits)
  from Cons.IH [OF log1(2,3)] r log1 show ?case by (cases "n = n0") force+
qed

lemma reopened_log:
  assumes ok: "entries_ok es" and run: "inspect (log_bytes es) script clock = Inr (log, tail)"
    and fin: "finish_recovery tail log = (Inr (), log')"
  shows "log_ok es [] log'"
proof -
  let ?log = "empty_log (log_bytes es) script clock"
  from run obtain log0 where calls: "and_then log_call (\<lambda>_. and_then log_call (\<lambda>_. and_then log_call (\<lambda>_. log_call))) ?log = (Inr (), log0)"
    and loop: "(case inspect_loop (log_bytes es) 0 log0 of Inl e \<Rightarrow> Inl e
      | Inr (cursor, log1) \<Rightarrow> Inr (log1, if cursor \<noteq> length (log_bytes es) then Some cursor else None)) = Inr (log, tail)"
    by (auto simp: inspect_def split: prod.splits sum.splits)
  have "reads_log ?log (and_then log_call (\<lambda>_. and_then log_call (\<lambda>_. and_then log_call (\<lambda>_. log_call)))) ()"
    by (intro reads_log_and_then [OF reads_log_call] reads_log_call)
  from hoareD_ok [OF this reading_refl calls] have "reading ?log log0" by simp
  then obtain k where "log0 = empty_log (log_bytes es) (drop k script) clock"
    by (auto simp: reading_def empty_log_def)
  with inspect_loop_entries [OF ok torn_frame_Nil, of 0 log0] have "inspect_loop (log_bytes es) 0 log0 = Inr (length (log_bytes es), indexed es log0)"
    by (simp add: indexed_Nil)
  with loop have log: "log = indexed es log0" "tail = None" by simp_all
  with fin have "reading log log'"
    using hoareD_ok [OF reads_log_call reading_refl, of log "()" log'] by (simp add: finish_recovery_def op_simps)
  moreover have "log_ok es [] log"
    using log_ok_opened [OF ok, of "[]" "drop k script" clock] \<open>log0 = _\<close> log by simp
  ultimately show ?thesis by (rule reading_log_ok)
qed

lemma restart_serving:
  assumes serving: "serving cdc E b" and left: "left_by E b found" and files: "env_files env = env_files (br_env b)"
    and clock: "list_all (\<lambda>t. t < int u64_max) (env_clock env)" and run: "open_broker config found dir_script epoch env = Inr b'"
  shows "serving cdc E b' \<and> keeps cdc (E, b) (E, b')"
proof -
  from run obtain recovered fs fs' streams where rec: "inspect_streams found fs = (Inr recovered, fs')"
    "finish_streams recovered fmempty = Inr streams" and b': "br_streams b' = streams" "br_env b' = env"
    by (auto simp: open_broker_def and_then_def [of dir_call] split: if_splits prod.splits sum.splits)
  from left have "distinct (map de_name found)" by (simp add: left_by_def)
  note found = inspected_streams [OF rec(1)] and fin = finished_streams [OF rec(2)]
  have opened: "\<exists>log. fmlookup (br_streams b') st = Some (new_stream_state log) \<and> log_ok es [] log" if es: "E st = Some es" for st es
  proof -
    from servingD(3) [OF serving es] have contents: "sl_file (log_of st b) = log_bytes es" and ok: "entries_ok es"
      using log_okD(1,2) by (auto simp: log_of_def)
    from servingD(1) [OF serving es] have "st \<noteq> []" by (auto simp: valid_name_def)
    moreover obtain e where e: "e \<in> set found" "de_name e = Some (st @ ''.log'')" "de_contents e = log_bytes es"
      using left es contents by (auto simp: left_by_def)
    ultimately obtain log tail where log: "inspect (log_bytes es) (de_script e) (de_clock e) = Inr (log, tail)" "(st, log, tail) \<in> set recovered"
      using found e by metis
    with fin [of st] found \<open>distinct (map de_name found)\<close> obtain log' where "finish_recovery tail log = (Inr (), log')"
      "fmlookup streams st = Some (new_stream_state log')"
      by blast
    with reopened_log [OF ok log(1)] b' show ?thesis by auto
  qed
  have "consumer_ok cdc st c es s b'" if "E st = Some es" "consumer_ok cdc st c es s b" for st c es s
  proof -
    from that(2) have "rest_in {} cdc st c (length es) s (new_delivery_state, env_files (br_env b) st c)"
      by (auto simp: consumer_ok_def rest_in_def request_ok_def consumer_view_def flights_open_def get_in_flight_def)
        (auto simp: new_delivery_state_def)
    with opened [OF that(1)] show ?thesis
      by (auto simp: consumer_ok_def b' files new_stream_state_def intro!: exI [of _ "[]"])
  qed
  then have own: "\<exists>t. consumer_ok cdc st c es t b' \<and> (\<forall>off. settled s off \<longrightarrow> settled t off)"
    if "E st = Some es" "consumer_ok cdc st c es s b" for st c es s
    using that by blast
  have logs: "stream_ok es st b'" if "E st = Some es" for st es
    using opened [OF that] by (auto simp: stream_ok_def new_stream_state_def)
  have "clock_sane b'" using clock by (simp add: clock_sane_def b')
  from serving_stepI [OF serving this logs own] show ?thesis .
qed

section \<open>Sequences of steps\<close>

lemma serves_keeps:
  assumes ctx: "codec_ok cdc" "hash_order_ok (ho_keys ho)" and step: "serves cdc ho x y" and serving: "serving cdc (fst x) (snd x)"
  shows "serving cdc (fst y) (snd y) \<and> keeps cdc x y"
proof -
  have clock: "clock_sane b" if "serving cdc E b" for E b using that by (simp add: serving_def)
  from step serving show ?thesis
  proof cases
    case (serve_poll E st c member response_member limit b r b')
    with serving clock request_serving [of cdc E b st c b'] poll_outcome [OF ctx] show ?thesis by fastforce
  next
    case (serve_ack E st c member off token b r b')
    with serving clock request_serving [of cdc E b st c b'] ack_outcome [OF ctx] show ?thesis by fastforce
  next
    case (serve_ack_batch E st c member receipts b r b')
    with serving clock request_serving [of cdc E b st c b'] ack_batch_outcome [OF ctx] show ?thesis by fastforce
  next
    case (serve_configure E st c timeout_ms max_attempts delay_ms b r b')
    with serving clock request_serving [of cdc E b st c b'] configure_outcome [OF ctx] show ?thesis by fastforce
  next
    case (serve_inspect E st c b r b')
    with serving clock request_serving [of cdc E b st c b'] inspect_outcome [OF ctx] show ?thesis by fastforce
  next
    case (serve_batch E st c member response_member limits b r b')
    with serving clock request_serving [of cdc E b st c b'] batch_first_kept [OF ctx] show ?thesis by fastforce
  next
    case (serve_batch_woken E st c req b r b')
    with serving have "valid_name st" by (auto simp: tracked_def dest: servingD(1))
    with serve_batch_woken serving clock request_serving [of cdc E b st c b'] batch_outcome [OF ctx] show ?thesis by fastforce
  next
    case (serve_publish E st es key request_id payload b off b' es')
    with serving publish_serving [of cdc E b st es key request_id payload off b' es'] show ?thesis by simp
  next
    case (serve_restart E b found env config dir_script epoch b')
    with serving restart_serving [of cdc E b found env config dir_script epoch b'] show ?thesis by simp
  qed
qed

lemma service_keeps:
  assumes "codec_ok cdc" "hash_order_ok (ho_keys ho)" "(serves cdc ho)\<^sup>*\<^sup>* x y" "serving cdc (fst x) (snd x)"
  shows "serving cdc (fst y) (snd y) \<and> keeps cdc x y"
  using assms(3)
proof (induction rule: rtranclp_induct)
  case base
  show ?case using assms(4) keeps_refl by simp
next
  case (step y z)
  then show ?case using serves_keeps [OF assms(1,2) step(2)] keeps_trans by blast
qed

end
