(* ===== verification/Broker_Samples.thy ===== *)
theory Broker_Samples
  imports Broker_Service
begin

text \<open>
  A broker that serves one stream with one record, and requests on it evaluated: a poll that leases
  the record, its acknowledgement, a batch of receipts, and a policy.
\<close>

section \<open>A broker with one stream\<close>

definition sample_broker :: broker where
  "sample_broker =
     \<lparr>br_streams = fmupd ''orders'' (new_stream_state sample_log) fmempty, br_ack_timeout = 3000000,
      br_max_delivery_attempts = None, br_redeliveries = 0, br_dead_letters = 0,
      br_tokens = \<lparr>tg_epoch = 1, tg_next_id = 0\<rparr>,
      br_env = \<lparr>env_files = (\<lambda>_ _. empty_store []), env_clock = [1000, 999], env_instants = [7, 8],
        env_new_logs = (\<lambda>_. ([], []))\<rparr>\<rparr>"

lemma sample_names: "valid_name ''orders''" "valid_name ''c''" "valid_name ''m''"
  by (simp_all add: valid_name_def valid_name_char_def is_ascii_alphanumeric_def)

lemma sample_clock: "clock_sane sample_broker"
  by (simp add: clock_sane_def sample_broker_def)

lemma sample_consumers:
  "consumer_ok sample_codec ''orders'' c [sample_entry] (new_consumer_state ''orders'' c) sample_broker"
proof -
  have "flights_open c s new_delivery_state" for s
    by (simp add: flights_open_def get_in_flight_def new_delivery_state_def)
  then have "rest_in {} sample_codec ''orders'' c 1 (new_consumer_state ''orders'' c) (new_delivery_state, empty_store [])"
    using empty_view [of sample_codec "''orders''" c "[]"]
    by (auto simp: rest_in_def request_ok_def state_kept_def attempts_u32_def new_consumer_state_def empty_store_def get_in_flight_def)
      (auto simp: new_delivery_state_def)
  then show ?thesis
    unfolding consumer_ok_def
    by (intro exI [of _ "new_stream_state sample_log"] exI [of _ "[]"])
      (simp add: sample_broker_def new_stream_state_def sample_log_ok)
qed

lemmas sample_consumer = sample_consumers [of "''c''"]

lemma sample_candidate:
  "find_candidate committed acknowledged in_flight sample_log =
     (Inr (map_option (entry_index [sample_entry]) (first_eligible committed acknowledged in_flight [sample_entry])), sample_log)"
  "read_message stream 0 sample_log = (Inr (entry_message stream [sample_entry] 0), sample_log)"
proof -
  have quiet: "sl_script sample_log = []" by (simp add: sample_log_def indexed_def empty_log_def)
  show "find_candidate committed acknowledged in_flight sample_log =
     (Inr (map_option (entry_index [sample_entry]) (first_eligible committed acknowledged in_flight [sample_entry])), sample_log)"
    by (rule reads_log_returns [OF reads_find_candidate [OF sample_log_ok torn_frame_Nil] quiet])
  show "read_message stream 0 sample_log = (Inr (entry_message stream [sample_entry] 0), sample_log)"
    by (rule reads_log_returns [OF reads_read_message [OF sample_log_ok] quiet]) simp
qed

lemma sample_load:
  "load_consumer_state_for_request sample_codec sorted_orders ''orders'' ''c'' (new_delivery_state, empty_store []) =
     (Inr (new_consumer_state ''orders'' ''c''), (new_delivery_state, empty_store []))"
  by (simp add: load_consumer_state_for_request_def load_consumer_state_def on_store_def empty_store_def
        replay_consumer_state_journal_def new_delivery_state_def cs_wf_validate op_simps)

lemma quiet_persist:
  assumes "cf_script d = []" "length (journal_bytes_of d) + length (enc_event cdc ev) < 1000"
  shows "persist_consumer_event cdc stream consumer s ev d =
    (Inr (), d\<lparr>cf_journal := Some (journal_bytes_of d @ enc_event cdc ev @ [10])\<rparr>)"
proof -
  let ?d = "d\<lparr>cf_journal := Some (journal_bytes_of d)\<rparr>"
  have "syscall d = (Inr (), d)" "syscall (d\<lparr>cf_journal := j\<rparr>) = (Inr (), d\<lparr>cf_journal := j\<rparr>)"
    "append_journal bs ?d = (Inr (), d\<lparr>cf_journal := Some (journal_bytes_of d @ bs)\<rparr>)" for j bs
    using assms(1) by (simp_all add: syscall_def next_fault_def append_journal_def, simp add: journal_bytes_of_def)
  with assms(2) show ?thesis
    by (simp add: persist_consumer_event_def Let_def MAX_CONSUMER_STATE_JOURNAL_BYTES_def saturating_add64_def op_simps)
qed

definition sample_attempt :: consumer_state_event where
  "sample_attempt = DeliveryAttempt \<lparr>da_offset = 0, da_attempt = 1, da_policy = policy_legacy 3 None\<rparr>"

lemma sample_event_lengths:
  "length (enc_event sample_codec sample_attempt) < 100" "length (enc_event sample_codec (Acknowledge 0)) < 100"
  by (simp_all add: sample_attempt_def braces_def enc_seq_def enc_nat_def enc_attempt_def enc_policy_def enc_map_def enc_pair_def
    enc_bool_def enc_option_def policy_legacy_def)

lemma sample_empty:
  "expired_deliveries ''c'' now new_delivery_state = []" "member_delivery ''c'' member new_delivery_state = Inr None"
  "in_flight_filter ''c'' new_delivery_state = None" "get_in_flight ''c'' off new_delivery_state = None"
  "retry_filter at_ms (new_consumer_state ''orders'' ''c'') = ({||}, {||})"
  by (simp_all add: expired_deliveries_def member_delivery_def member_offsets_def in_flight_filter_def get_in_flight_def
      retry_filter_def new_delivery_state_def new_consumer_state_def sorted_list_of_fmap_def sorted_list_of_fset.rep_eq)

lemma sample_search:
  "sl_next_offset sample_log = 1"
  "first_eligible 0 {||} None [sample_entry] = Some 0"
  "ri_offset (entry_index [sample_entry] 0) = 0" "ri_key (entry_index [sample_entry] 0) = le_key sample_entry"
  using log_okD(6) [OF sample_log_ok] entries_okD [OF sample_entries_ok, of 0] by (simp_all add: first_eligible_def eligible_def)

definition sample_token :: string where
  "sample_token = hex_string 1 @ ''-'' @ hex_string 1"

definition sample_lease :: in_flight where
  "sample_lease = \<lparr>if_member = ''m'', if_offset = 0, if_key = le_key sample_entry, if_delivery_attempt = 1,
     if_delivery_token = sample_token, if_requires_receipt = False, if_deadline = 3000008\<rparr>"

definition sample_leased :: consumer_state where
  "sample_leased = assign_attempt 0 1 (policy_legacy 3 None) (new_consumer_state ''orders'' ''c'')"

definition sample_session :: session where
  "sample_session =
     \<lparr>se_log = sample_log,
      se_delivery = (insert_in_flight ''c'' sample_lease new_delivery_state)\<lparr>consumer_states := fmupd ''c'' sample_leased fmempty\<rparr>,
      se_wakes = 1,
      se_store = (empty_store [])\<lparr>cf_journal := Some (enc_event sample_codec sample_attempt @ [10])\<rparr>,
      se_broker = sample_broker\<lparr>br_tokens := \<lparr>tg_epoch = 1, tg_next_id = 1\<rparr>,
        br_env := (br_env sample_broker)\<lparr>env_clock := [999], env_instants := []\<rparr>\<rparr>\<rparr>"

lemma sample_cached:
  assumes "fmdom (consumer_states ds) |\<subseteq>| {|c|}"
  shows "cache_consumer_state order c s ds = ds\<lparr>consumer_states := fmupd c s (consumer_states ds)\<rparr>"
proof -
  have "finsert c (fmdom (consumer_states ds)) = {|c|}" using assms by auto
  moreover have "fcard {|c|} = 1" by (simp add: fcard_finsert_disjoint)
  ultimately have "fcard (finsert c (fmdom (consumer_states ds))) = 1" by metis
  then show ?thesis
    by (simp add: cache_consumer_state_def evict_consumer_states.simps MAX_CACHED_CONSUMER_STATES_def)
qed

lemma sample_flights: "consumer_states new_delivery_state = fmempty" by (simp add: new_delivery_state_def)

lemma sample_poll_locked:
  "poll_locked sample_codec sorted_orders ''orders'' ''c'' ''m'' rm None
     (open_session ''orders'' ''c'' (new_stream_state sample_log) sample_broker) =
   (Inr (Done (PollMessage (with_delivery sample_token 1 (entry_message ''orders'' [sample_entry] 0)))), sample_session)"
proof -
  let ?cs = "new_consumer_state ''orders'' ''c''"
  have d: "persist_consumer_event sample_codec ''orders'' ''c'' ?cs
     (DeliveryAttempt \<lparr>da_offset = 0, da_attempt = 1, da_policy = policy_legacy 3 None\<rparr>) (empty_store []) =
     (Inr (), (empty_store [])\<lparr>cf_journal := Some (enc_event sample_codec sample_attempt @ [10])\<rparr>)"
    using quiet_persist [of "empty_store []" sample_codec sample_attempt] sample_event_lengths(1)
    by (simp add: sample_attempt_def empty_store_def journal_bytes_of_def)
  have pol: "policy_for_offset 0 p ?cs = Inr p" "attempts_of ?cs 0 = 0" "committed_offset ?cs = 0" "acknowledged_offsets ?cs = {||}" for p
    by (simp_all add: policy_for_offset_def attempts_of_def new_consumer_state_def)
  show ?thesis
    by (simp add: poll_locked_def open_session_def new_stream_state_def sample_broker_def on_broker_def zoom_def instant_now_def op_simps
      legacy_policy_def load_for_request_def on_request_def sample_load wall_clock_ms_def plan_expired_deliveries_def sample_empty
      apply_expired_delivery_plan_def poll_search_def sample_search find_candidate_excluding_def on_log_def on_files_def
      sample_candidate delay_orphan_def is_orphan_def pol exhausted_def policy_legacy_def take_token_def next_token_def
      check_response_def deliver_candidate_def persist_event_def d [unfolded policy_legacy_def One_nat_def] on_error_def saturating_add32_def
      change_delivery_def cache_state_def notify_waiters_def modify_def with_delivery_def sample_session_def sample_lease_def sample_token_def sample_leased_def from_millis_def)
      (subst sample_cached, simp_all add: sample_flights)
qed


text \<open>Acknowledging the lease of that poll.\<close>

definition sample_acked :: "broker \<Rightarrow> session" where
  "sample_acked b =
     sample_session\<lparr>
       se_delivery := (remove_delivery ''c'' 0 (se_delivery sample_session))\<lparr>consumer_states :=
         fmupd ''c'' (names_set ''orders'' ''c'' (acknowledge 0 sample_leased)) (fmupd ''c'' sample_leased fmempty)\<rparr>,
       se_wakes := 2,
       se_store := (se_store sample_session)\<lparr>cf_journal :=
         Some (enc_event sample_codec sample_attempt @ [10] @ enc_event sample_codec (Acknowledge 0) @ [10])\<rparr>,
       se_broker := b\<lparr>br_env := (br_env b)\<lparr>env_clock := []\<rparr>\<rparr>\<rparr>"

lemma sample_ack_locked:
  assumes env: "env_clock (br_env b) = [999]" "env_instants (br_env b) = []"
  shows "ack_locked sample_codec sorted_orders ''orders'' ''c'' ''m'' 0 sample_token (sample_session\<lparr>se_broker := b\<rparr>) =
     (Inr Acknowledged, sample_acked b)"
proof -
  define ds where "ds = se_delivery sample_session"
  define d where "d = se_store sample_session"
  define d1 where "d1 = d\<lparr>cf_journal := Some (enc_event sample_codec sample_attempt @ [10] @ enc_event sample_codec (Acknowledge 0) @ [10])\<rparr>"
  note defs = ds_def d_def sample_session_def insert_in_flight_def new_delivery_state_def Let_def
  have load: "load_consumer_state_for_request sample_codec sorted_orders ''orders'' ''c'' (ds, d) = (Inr sample_leased, (ds, d))"
    by (simp add: load_consumer_state_for_request_def op_simps defs)
  have none: "expired_deliveries ''c'' 0 ds = []"
    by (simp add: expired_deliveries_def defs sample_lease_def sorted_list_of_fmap_def sorted_list_of_fset.rep_eq)
  have held: "get_in_flight ''c'' 0 ds = Some sample_lease"
    by (simp add: get_in_flight_def defs, simp add: sample_lease_def)
  have persist: "persist_consumer_event sample_codec ''orders'' ''c'' sample_leased (Acknowledge 0) d = (Inr (), d1)"
    using quiet_persist [of d sample_codec "Acknowledge 0"] sample_event_lengths
    by (simp add: journal_bytes_of_def empty_store_def d_def d1_def sample_session_def)
  have st: "committed_offset sample_leased = 0" "acknowledged_offsets sample_leased = {||}"
    by (simp_all add: sample_leased_def assign_attempt_def new_consumer_state_def)
  have cached: "cache_consumer_state order ''c'' s (remove_delivery ''c'' 0 ds) =
      (remove_delivery ''c'' 0 ds)\<lparr>consumer_states := fmupd ''c'' s (fmupd ''c'' sample_leased fmempty)\<rparr>" for order s
    by (subst sample_cached) (simp_all add: ds_def sample_session_def)
  have lease: "if_member sample_lease = ''m''" "\<not> if_requires_receipt sample_lease" "if_delivery_token sample_lease = sample_token"
    by (simp_all add: sample_lease_def)
  have se: "sample_session\<lparr>se_broker := b\<rparr> = sample_session\<lparr>se_delivery := ds, se_store := d, se_broker := b\<rparr>"
    by (simp add: ds_def d_def)
  have acked: "sample_acked b = sample_session\<lparr>se_delivery := (remove_delivery ''c'' 0 ds)\<lparr>consumer_states :=
      fmupd ''c'' (names_set ''orders'' ''c'' (acknowledge 0 sample_leased)) (fmupd ''c'' sample_leased fmempty)\<rparr>,
      se_wakes := 2, se_store := d1, se_broker := b\<lparr>br_env := (br_env b)\<lparr>env_clock := []\<rparr>\<rparr>\<rparr>"
    by (simp add: sample_acked_def ds_def d_def d1_def)
  have wakes: "se_wakes sample_session = 1" by (simp add: sample_session_def)
  show ?thesis
    unfolding acked se
    by (simp add: ack_locked_def op_simps load_for_request_def on_request_def zoom_def load on_broker_def instant_now_def env wakes
      observe_expired_deliveries_def wall_clock_ms_def plan_expired_deliveries_def none apply_expired_delivery_plan_def st held
      ack_lease_def lease persist_event_def on_files_def persist change_delivery_def modify_def cache_state_def cached notify_waiters_def
      on_error_def)
qed

lemma sample_poll:
  "poll_group sample_codec sorted_orders ''orders'' ''c'' ''m'' sample_broker =
     (Inr (Done (PollMessage (with_delivery sample_token 1 (entry_message ''orders'' [sample_entry] 0)))),
      close_session ''orders'' ''c'' sample_session)"
proof -
  have st: "fmlookup (br_streams sample_broker) ''orders'' = Some (new_stream_state sample_log)"
    by (simp add: sample_broker_def)
  show ?thesis
    by (simp add: poll_group_def poll_group_inner_def validate_name_def sample_names op_simps lock_stream_def st sample_poll_locked)
qed

lemmas sample_context = sample_codec_ok sorted_orders_ok(2) sample_clock sample_consumer


definition leased_broker :: broker where
  "leased_broker = close_session ''orders'' ''c'' sample_session"

lemma leased_ok:
  obtains t where "consumer_ok sample_codec ''orders'' ''c'' [sample_entry] t leased_broker" "clock_sane leased_broker"
  using poll_outcome [OF sample_context sample_poll [unfolded poll_group_def]]
  by (auto simp: request_kept_def leased_broker_def)

definition sample_entries :: entries where
  "sample_entries = [''orders'' \<mapsto> [sample_entry]]"

lemma sample_tracked: "tracked sample_entries ''orders''"
  using target_no_source [OF sample_names(1), of "''orders''"] by (auto simp: tracked_def sample_entries_def split: if_splits)

lemma sample_serving: "serving sample_codec sample_entries sample_broker"
  unfolding serving_def
proof (intro conjI allI impI sample_clock)
  fix st es c
  assume "sample_entries st = Some es"
  then have st: "st = ''orders''" "es = [sample_entry]" by (auto simp: sample_entries_def split: if_splits)
  show "valid_name st" using st sample_names by simp
  show "stream_ok es st sample_broker"
    using st sample_log_ok by (simp add: stream_ok_def sample_broker_def new_stream_state_def)
  show "\<exists>s. consumer_ok sample_codec st c es s sample_broker" using st sample_consumers by blast
qed

lemma leased_serving: "serving sample_codec sample_entries leased_broker"
  using serves_keeps [OF sample_context(1,2) serve_poll [OF sample_tracked sample_poll [unfolded poll_group_def]]] sample_serving
  by (simp add: leased_broker_def)

definition acked_broker :: broker where
  "acked_broker = close_session ''orders'' ''c'' (sample_acked leased_broker)"

lemma sample_ack:
  "ack_group sample_codec sorted_orders ''orders'' ''c'' ''m'' 0 sample_token leased_broker = (Inr Acknowledged, acked_broker)"
proof -
  let ?ss = "\<lparr>ss_log = se_log sample_session, ss_delivery = se_delivery sample_session, ss_wakes = se_wakes sample_session\<rparr>"
  have st: "fmlookup (br_streams leased_broker) ''orders'' = Some ?ss"
    and "env_files (br_env leased_broker) ''orders'' ''c'' = se_store sample_session"
    by (simp_all add: leased_broker_def)
  then have se: "open_session ''orders'' ''c'' ?ss leased_broker = sample_session\<lparr>se_broker := leased_broker\<rparr>"
    by (simp add: open_session_def)
  have env: "env_clock (br_env leased_broker) = [999]" "env_instants (br_env leased_broker) = []"
    by (simp_all add: leased_broker_def close_session_def Let_def sample_session_def)
  show ?thesis
    by (simp add: ack_group_def validate_name_def sample_names op_simps lock_stream_def st se sample_ack_locked [OF env] acked_broker_def)
qed

lemma sample_receipts:
  "\<exists>b'. ack_batch sample_codec sorted_orders ''orders'' ''c'' ''m'' [\<lparr>receipt_offset = 0, receipt_token = ''t''\<rparr>] sample_broker =
     (Inr [\<lparr>item_offset = 0, item_outcome = Rejected NotInFlight\<rparr>], b')"
proof -
  have cs: "committed_offset (new_consumer_state ''orders'' ''c'') = 0" "acknowledged_offsets (new_consumer_state ''orders'' ''c'') = {||}"
    "delivery_attempts (new_consumer_state ''orders'' ''c'') = fmempty"
    by (simp_all add: new_consumer_state_def)
  have v: "validate_ack_batch_receipts [\<lparr>receipt_offset = 0, receipt_token = ''t''\<rparr>] = Inr ()"
    unfolding validate_ack_batch_receipts_Inr by (simp add: MAX_CONSUME_BATCH_RECORDS_def)
  show ?thesis
    by (simp add: ack_batch_def validate_name_def sample_names v op_simps lock_stream_def sample_broker_def
      ack_batch_locked_def open_session_def new_stream_state_def load_for_request_def on_request_def zoom_def
      sample_load legacy_policy_def on_broker_def instant_now_def wall_clock_ms_def observe_expired_deliveries_def plan_expired_deliveries_def
      sample_empty apply_expired_delivery_plan_def receipt_outcome_def cs ack_confirmed_def confirmed_offsets_def)
qed

definition tight_policy :: consumer_policy where
  "tight_policy = policy_configured 1 5 (Some 2) 1"

lemma sample_configure:
  "\<exists>b' b''. configure_consumer sample_codec sorted_orders ''orders'' ''c'' 5 (Some 2) 1 sample_broker = (Inr tight_policy, b') \<and>
     inspect_consumer sample_codec sorted_orders ''orders'' ''c'' b' = (Inr tight_policy, b'')"
proof -
  let ?cs = "new_consumer_state ''orders'' ''c''"
  let ?cs1 = "?cs\<lparr>cs_policy := Some tight_policy, cs_stream := ''orders'', cs_consumer := ''c''\<rparr>"
  let ?ds = "new_delivery_state\<lparr>consumer_states := fmupd ''c'' ?cs1 fmempty\<rparr>"
  have cs: "cs_policy ?cs = None" by (simp add: new_consumer_state_def)
  obtain d where d: "persist_consumer_event sample_codec ''orders'' ''c'' ?cs (PolicyConfigured tight_policy) (empty_store []) = (Inr (), d)"
    by (subst (asm) quiet_persist) (simp_all add: empty_store_def journal_bytes_of_def braces_def enc_seq_def enc_nat_def enc_policy_def
      enc_map_def enc_pair_def enc_bool_def enc_option_def policy_configured_def tight_policy_def)
  have cached: "cache_consumer_state order ''c'' s new_delivery_state = new_delivery_state\<lparr>consumer_states := fmupd ''c'' s fmempty\<rparr>" for order s
    by (subst sample_cached) (simp_all add: sample_flights)
  let ?se = "\<lparr>se_log = sample_log, se_delivery = ?ds, se_wakes = 1, se_store = d, se_broker = sample_broker\<rparr>"
  let ?b = "close_session ''orders'' ''c'' ?se"
  have v: "validate_consumer_policy 5 (Some 2) 1 = Inr ()"
    by (simp add: MAX_CONSUMER_POLICY_ACK_TIMEOUT_MS_def MAX_CONSUMER_POLICY_RETRY_DELAY_MS_def)
  have st: "fmlookup (br_streams sample_broker) ''orders'' = Some (new_stream_state sample_log)"
    "env_files (br_env sample_broker) ''orders'' ''c'' = empty_store []"
    by (simp_all add: sample_broker_def)
  have "configure_locked sample_codec sorted_orders ''orders'' ''c'' 5 (Some 2) 1
      (open_session ''orders'' ''c'' (new_stream_state sample_log) sample_broker) = (Inr tight_policy, ?se)"
    using d by (simp add: configure_locked_def open_session_def st new_stream_state_def load_for_request_def on_request_def zoom_def op_simps
      sample_load cs persist_event_def on_files_def Let_def tight_policy_def [symmetric, unfolded One_nat_def] on_error_def cache_state_def change_delivery_def
      modify_def cached notify_waiters_def)
  then have "configure_consumer sample_codec sorted_orders ''orders'' ''c'' 5 (Some 2) 1 sample_broker = (Inr tight_policy, ?b)"
    by (simp add: configure_consumer_def validate_name_def sample_names v [unfolded One_nat_def] op_simps lock_stream_def st)
  moreover have "load_consumer_state_for_request sample_codec sorted_orders ''orders'' ''c'' (?ds, d) = (Inr ?cs1, (?ds, d))"
    by (simp add: load_consumer_state_for_request_def op_simps new_delivery_state_def)
  then have "\<exists>b''. inspect_consumer sample_codec sorted_orders ''orders'' ''c'' ?b = (Inr tight_policy, b'')"
    by (simp add: inspect_consumer_def validate_name_def sample_names op_simps lock_stream_def open_session_def load_for_request_def
      on_request_def zoom_def)
  ultimately show ?thesis by blast
qed

text \<open>A batch poll that leases the record.\<close>

definition sample_limits :: consume_batch_limits where
  "sample_limits = \<lparr>max_records = 1, max_bytes = 4096, max_wait_ms = 0\<rparr>"

lemma sample_fits: "projected_len (sizer_new ''orders'' ''c'' None)
   (with_delivery (batch_token sample_token 0) 1 (entry_message ''orders'' [sample_entry] 0)) < 4096"
  "sz_encoded_len (sizer_new ''orders'' ''c'' None) < 4096"
proof -
  have varint: "protobuf_varint_len n = (if n < 128 then 1 else 2)" if "n < 16384" for n
  proof -
    have "n div 128 < 128" using that by (simp add: less_mult_imp_div_less)
    then show ?thesis
      by (simp add: protobuf_varint_len_def protobuf_varint_loop.simps [of n] protobuf_varint_loop.simps [of "n div 128"])
  qed
  have token: "length (batch_token sample_token 0) = 5"
    by (simp add: batch_token_def sample_token_def radix_string.simps)
  show "sz_encoded_len (sizer_new ''orders'' ''c'' None) < 4096"
    by (simp add: sizer_new_def protobuf_bytes_field_upper_bound_def protobuf_string_field_upper_bound_def
      length_delimited_field_upper_bound_def varint saturating_add64_def)
  show "projected_len (sizer_new ''orders'' ''c'' None)
     (with_delivery (batch_token sample_token 0) 1 (entry_message ''orders'' [sample_entry] 0)) < 4096"
    by (simp add: projected_len_def sizer_new_def batch_message_item_upper_bound_def message_result_upper_bound_def message_metadata_def
      protobuf_bytes_field_upper_bound_def protobuf_string_field_upper_bound_def protobuf_varint_field_upper_bound_def
      length_delimited_field_upper_bound_def varint token saturating_add64_def with_delivery_def entry_message_def sample_entry_def)
qed

lemma sample_batch_event: 
  "length (enc_event sample_codec (DeliveryAttempts [\<lparr>da_offset = 0, da_attempt = 1, da_policy = policy_legacy 3 None\<rparr>])) < 200"
    by (simp add: braces_def enc_seq_def enc_nat_def enc_attempt_def enc_policy_def enc_map_def enc_pair_def
      enc_bool_def enc_option_def policy_legacy_def)


lemma sample_batch:
  "\<exists>m b'. poll_batch_wait sample_codec sorted_orders ''orders'' ''c'' ''m'' None sample_limits [] sample_broker =
     (Inr (Done (Returned [m])), b')"
proof -
  let ?cs = "new_consumer_state ''orders'' ''c''"
  let ?ev = "DeliveryAttempts [\<lparr>da_offset = 0, da_attempt = 1, da_policy = policy_legacy 3 None\<rparr>]"
  obtain d where d: "persist_consumer_event sample_codec ''orders'' ''c'' ?cs ?ev (empty_store []) = (Inr (), d)"
    using quiet_persist [of "empty_store []" sample_codec ?ev] sample_batch_event by (simp add: empty_store_def journal_bytes_of_def)
  have pol: "policy_for_offset 0 p ?cs = Inr p" "attempts_of ?cs 0 = 0" "committed_offset ?cs = 0" "acknowledged_offsets ?cs = {||}" for p
    by (simp_all add: policy_for_offset_def attempts_of_def new_consumer_state_def)
  have chk: "check_batch_request ''orders'' ''c'' ''m'' None sample_limits = Inr ()"
    using sample_fits(2) by (simp add: check_batch_request_def validate_name_def sample_names poll_batch_response_len_def sample_limits_def
      validate_consume_batch_limits_def MAX_CONSUME_BATCH_RESPONSE_BYTES_def MAX_CONSUME_BATCH_RECORDS_def)
  have none: "member_deliveries ''c'' member new_delivery_state = Inr []" for member
    by (simp add: member_deliveries_def member_offsets_def new_delivery_state_def)
  note fits = less_not_sym [OF sample_fits(1)]
  show ?thesis
    by (simp add: poll_batch_wait_def chk [unfolded sample_limits_def One_nat_def] op_simps on_stream_def sample_broker_def instant_now_def instant_checked_add_def from_millis_def
      sample_limits_def take_token_def next_token_def poll_batch_step_def lock_stream_def batch_step_locked_def open_session_def 
      new_stream_state_def on_broker_def zoom_def modify_def none batch_collect_def
      legacy_policy_def load_for_request_def on_request_def sample_load wall_clock_ms_def observe_expired_deliveries_def plan_expired_deliveries_def sample_empty
      apply_expired_delivery_plan_def sample_search find_candidate_excluding_def on_log_def on_files_def
      sample_candidate delay_orphan_def is_orphan_def pol exhausted_def collect_candidate_def collect_due_def collect_record_def policy_legacy_def
      sample_fits(2) batch_finish_def deliver_batch_def
      assignment_of_def assign_pending_def insert_pending_def persist_event_def d [unfolded policy_legacy_def One_nat_def] on_error_def
      saturating_add32_def change_delivery_def cache_state_def notify_waiters_def Let_def)
      (use fits in \<open>simp add: sample_token_def\<close>)
qed

end
