(* ===== verification/Broker_Properties.thy ===== *)
theory Broker_Properties
  imports Broker_Samples
begin

text \<open>
  The properties of the broker's requests on a consumer, each with its instance on a broker that
  serves one stream with one record.
\<close>

section \<open>Polling\<close>











section \<open>Acknowledging\<close>





section \<open>Policies\<close>

text \<open>C13: The policy that configuring a consumer answers has the requested values, and inspecting the
  consumer afterwards returns that policy. Neither settles an offset or changes a lease.\<close>

theorem configure_then_inspect:
  assumes "codec_ok cdc" "hash_order_ok (ho_keys ho)" "clock_sane b" "consumer_ok cdc stream consumer es s b"
    and "configure_consumer cdc ho stream consumer timeout_ms max_attempts delay_ms b = (Inr p, b')"
    and "inspect_consumer cdc ho stream consumer b' = (Inr p', b'')"
  shows "p' = p \<and> cp_ack_timeout_ms p = timeout_ms \<and> cp_max_delivery_attempts p = max_attempts \<and> cp_retry_delay_ms p = delay_ms \<and>
    consumer_ok cdc stream consumer es (s\<lparr>cs_policy := Some p\<rparr>) b''"
proof -
  from configure_outcome [OF assms(1-5)] have
    p: "cp_ack_timeout_ms p = timeout_ms" "cp_max_delivery_attempts p = max_attempts" "cp_retry_delay_ms p = delay_ms"
    and b': "clock_sane b'" "consumer_ok cdc stream consumer es (s\<lparr>cs_policy := Some p\<rparr>) b'"
    by (auto simp: request_kept_def)
  from inspect_outcome [OF assms(1,2) b' assms(6)] p show ?thesis by (auto simp: request_kept_def)
qed

theorem configure_then_inspect_witness:
  "\<exists>b' b''. configure_consumer sample_codec sorted_orders ''orders'' ''c'' 5 (Some 2) 1 sample_broker = (Inr tight_policy, b') \<and>
     inspect_consumer sample_codec sorted_orders ''orders'' ''c'' b' = (Inr tight_policy, b'') \<and>
     cp_max_delivery_attempts tight_policy = Some 2"
proof -
  obtain b' b'' where run: "configure_consumer sample_codec sorted_orders ''orders'' ''c'' 5 (Some 2) 1 sample_broker = (Inr tight_policy, b')"
      "inspect_consumer sample_codec sorted_orders ''orders'' ''c'' b' = (Inr tight_policy, b'')"
    using sample_configure by blast
  from configure_then_inspect [OF sample_context run] run show ?thesis by blast
qed

section \<open>Dead letters\<close>

text \<open>A move to the dead-letter stream appends there without waking anyone who waits on that stream: the
  number of its notifications does not change.\<close>

definition wakes_of :: "string \<Rightarrow> broker \<Rightarrow> nat" where
  "wakes_of st b = (case fmlookup (br_streams b) st of None \<Rightarrow> 0 | Some ss \<Rightarrow> ss_wakes ss)"

lemma dead_letter_wakes_nobody:
  assumes "dead_letter_record stream consumer record se = (Inr (), se')"
  shows "wakes_of target (se_broker se') = wakes_of target (se_broker se)"
  using assms
  by (auto simp: dead_letter_record_def wakes_of_def op_defs on_log_def on_broker_def get_or_create_stream_def on_stream_def
      on_stream_log_def new_stream_state_def split: sum.splits prod.splits option.splits if_splits)

section \<open>The service\<close>

text \<open>A settled offset is not in an answer.\<close>

lemma poll_never_settled:
  assumes ctx: "codec_ok cdc" "hash_order_ok (ho_keys ho)" "clock_sane b" and ok: "consumer_ok cdc stream consumer es s b" "settled s off"
  shows "case fst (poll_group_inner cdc ho stream consumer member response_member limit b) of
    Inr (Done (PollMessage m)) \<Rightarrow> m_offset m \<noteq> off | _ \<Rightarrow> True"
proof -
  obtain r b' where run: "poll_group_inner cdc ho stream consumer member response_member limit b = (r, b')" by fastforce
  have "m_offset m \<noteq> off" if r: "r = Inr (Done (PollMessage m))" for m
  proof -
    from poll_outcome [OF ctx ok(1) run] r ok(2) obtain t where t: "settled t off"
      and ans: "answered stream consumer member es (is_dead_letter_stream (fmdom (br_streams b)) stream) (legacy_policy b)
        (flights_of stream b) t (flights_of stream b') (PollMessage m)"
      and leases: "\<And>x. get_in_flight consumer x (flights_of stream b') \<noteq> None \<Longrightarrow> \<not> settled t x"
      unfolding request_kept_def by blast
    from ans obtain x and d :: in_flight where "get_in_flight consumer x (flights_of stream b') = Some d"
      "m = with_delivery (if_delivery_token d) (if_delivery_attempt d) (entry_message stream es x)"
      unfolding answered.simps delivered_ok_def by blast
    with leases [of x] t show ?thesis by auto
  qed
  then show ?thesis unfolding run by (auto split: sum.split run.split poll_result.split)
qed

lemma batch_never_settled:
  assumes ctx: "codec_ok cdc" "hash_order_ok (ho_keys ho)" "clock_sane b" and ok: "consumer_ok cdc stream consumer es s b" "settled s off"
    and name: "valid_name stream"
  shows "case fst (poll_batch_step cdc ho stream consumer req b) of
    Inr (Done (Complete ms)) \<Rightarrow> off \<notin> set (map m_offset ms) | _ \<Rightarrow> True"
proof -
  obtain r b' where run: "poll_batch_step cdc ho stream consumer req b = (r, b')" by fastforce
  have "off \<notin> set (map m_offset ms)" if r: "r = Inr (Done (Complete ms))" for ms
  proof -
    from batch_outcome [OF ctx ok(1) name run] r ok(2) obtain t where t: "settled t off"
      and ans: "step_answered stream consumer req es (flights_of stream b') (Complete ms)"
      and leases: "\<And>x. get_in_flight consumer x (flights_of stream b') \<noteq> None \<Longrightarrow> \<not> settled t x"
      unfolding request_kept_def by blast
    have "get_in_flight consumer (m_offset m) (flights_of stream b') \<noteq> None" if "m \<in> set ms" for m
      using ans that by (auto simp: batched_def held_by_def)
    with leases t show ?thesis by auto
  qed
  then show ?thesis unfolding run by (auto split: sum.split run.split poll_batch_step_result.split)
qed



end
