(* ===== verification/Storage_Lanes.thy ===== *)
theory Storage_Lanes
  imports Core_Names
begin

text \<open>
  The executor of storage operations (\<open>crates/runnel-core/src/storage.rs\<close>): a FIFO lane per stream
  that hands over from the operation that holds it to the first waiter, and the permits that bound
  waiters, admitted operations and running operations. A task is one \<open>dispatch\<close>; its phase says at
  which point of \<open>dispatch_with_lane\<close> it is, and every step between two such points is one
  operation of the model, in any interleaving. \<open>tokio\<close>'s \<open>Notify\<close> is a permit per waiter: \<open>notify_one\<close>
  stores it, a parked waiter needs it to go on. Permits of a \<open>Semaphore\<close> are counted.
\<close>

section \<open>Lanes\<close>

datatype lane_ownership = Idle | Held | Handoff

type_synonym task_id = nat

record storage_lane =
  sn_ownership :: lane_ownership
  sn_waiters :: "task_id list"
  sn_poisoned :: bool

definition new_lane :: storage_lane where
  "new_lane = \<lparr>sn_ownership = Idle, sn_waiters = [], sn_poisoned = False\<rparr>"

datatype lane_reservation = Active | Queued

definition queue_full :: broker_error where
  "queue_full = Io (IoError IoWouldBlock ''storage stream queue is full'')"

text \<open>The result comes with the lane and the waiter permits that are left.\<close>

definition reserve ::
  "nat \<Rightarrow> task_id \<Rightarrow> nat \<Rightarrow> storage_lane \<Rightarrow> broker_error + lane_reservation \<times> storage_lane \<times> nat" where
  "reserve queue_capacity t waiter_permits lane =
     (if sn_poisoned lane then Inl LockPoisoned
      else if sn_ownership lane = Idle \<and> sn_waiters lane = []
      then Inr (Active, lane\<lparr>sn_ownership := Held\<rparr>, waiter_permits)
      else if length (sn_waiters lane) \<ge> queue_capacity then Inl queue_full
      else if waiter_permits = 0 then Inl queue_full
      else Inr (Queued, lane\<lparr>sn_waiters := sn_waiters lane @ [t]\<rparr>, waiter_permits - 1))"

definition claim :: "task_id \<Rightarrow> storage_lane \<Rightarrow> broker_error + bool \<times> storage_lane" where
  "claim t lane =
     (if sn_poisoned lane then Inl LockPoisoned
      else if sn_ownership lane \<noteq> Handoff then Inr (False, lane)
      else case sn_waiters lane of
             [] \<Rightarrow> Inr (False, lane)
           | front # rest \<Rightarrow>
               if front \<noteq> t then Inr (False, lane)
               else Inr (True, lane\<lparr>sn_waiters := rest, sn_ownership := Held\<rparr>))"

text \<open>Both return the waiter that is notified, if any.\<close>

definition cancel :: "task_id \<Rightarrow> storage_lane \<Rightarrow> storage_lane \<times> task_id option" where
  "cancel t lane =
     (if sn_poisoned lane then (lane, None)
      else case position (\<lambda>queued. queued = t) (sn_waiters lane) of
             None \<Rightarrow> (lane, None)
           | Some i \<Rightarrow>
               let waiters = take i (sn_waiters lane) @ drop (Suc i) (sn_waiters lane);
                   ownership = (if sn_ownership lane = Handoff \<and> waiters = [] then Idle else sn_ownership lane)
               in (lane\<lparr>sn_waiters := waiters, sn_ownership := ownership\<rparr>,
                   if i = 0 \<and> waiters \<noteq> [] then Some (hd waiters) else None))"

definition release :: "storage_lane \<Rightarrow> storage_lane \<times> task_id option" where
  "release lane =
     (if sn_poisoned lane then (lane, None)
      else case sn_waiters lane of
             next_waiter # _ \<Rightarrow> (lane\<lparr>sn_ownership := Handoff\<rparr>, Some next_waiter)
           | [] \<Rightarrow> (lane\<lparr>sn_ownership := Idle\<rparr>, None))"

section \<open>The executor\<close>

definition DEFAULT_STORAGE_EXECUTOR_CAPACITY :: nat where
  "DEFAULT_STORAGE_EXECUTOR_CAPACITY = 32"

definition DEFAULT_STORAGE_QUEUE_CAPACITY :: nat where
  "DEFAULT_STORAGE_QUEUE_CAPACITY = 32"

text \<open>
  A task waits for its lane (parked at \<open>notified.await\<close> or about to claim), holds the lane permit and
  asks for admission, is admitted and awaits execution, or runs on the blocking pool. A task without
  a stream has no lane.
\<close>

datatype task_phase =
    Waiting string bool
  | Admitting "string option"
  | Admitted "string option"
  | Running "string option"

record storage_executor =
  ex_execution_permits :: nat
  ex_admission_permits :: nat
  ex_waiter_permits :: nat
  ex_lanes :: "(string, storage_lane) fmap"
  ex_lanes_poisoned :: bool
  ex_queue_capacity :: nat
  ex_tasks :: "(task_id, task_phase) fmap"
  ex_notified :: "task_id fset"

definition executor_with_capacities :: "nat \<Rightarrow> nat \<Rightarrow> storage_executor" where
  "executor_with_capacities execution_capacity queue_capacity =
     \<lparr>ex_execution_permits = execution_capacity,
      ex_admission_permits = saturating_add64 execution_capacity queue_capacity,
      ex_waiter_permits = queue_capacity, ex_lanes = fmempty, ex_lanes_poisoned = False,
      ex_queue_capacity = queue_capacity, ex_tasks = fmempty, ex_notified = {||}\<rparr>"

definition new_executor :: storage_executor where
  "new_executor = executor_with_capacities DEFAULT_STORAGE_EXECUTOR_CAPACITY DEFAULT_STORAGE_QUEUE_CAPACITY"

text \<open>The stream whose lane a task refers to: its strong reference keeps the weak entry alive.\<close>

fun phase_stream :: "task_phase \<Rightarrow> string option" where
  "phase_stream (Waiting stream _) = Some stream"
| "phase_stream (Admitting stream) = stream"
| "phase_stream (Admitted stream) = stream"
| "phase_stream (Running stream) = stream"

definition lane_live :: "storage_executor \<Rightarrow> string \<Rightarrow> bool" where
  "lane_live ex stream = (Some stream \<in> phase_stream ` fset (fmran (ex_tasks ex)))"

definition stream_lane :: "string \<Rightarrow> (storage_executor, broker_error, storage_lane) op" where
  "stream_lane stream ex =
     (if ex_lanes_poisoned ex then (Inl LockPoisoned, ex)
      else let lanes = fmfilter (lane_live ex) (ex_lanes ex)
      in case fmlookup lanes stream of
           Some lane \<Rightarrow> (Inr lane, ex\<lparr>ex_lanes := lanes\<rparr>)
         | None \<Rightarrow> (Inr new_lane, ex\<lparr>ex_lanes := fmupd stream new_lane lanes\<rparr>))"

definition set_phase :: "task_id \<Rightarrow> task_phase \<Rightarrow> storage_executor \<Rightarrow> storage_executor" where
  "set_phase t phase ex = ex\<lparr>ex_tasks := fmupd t phase (ex_tasks ex)\<rparr>"

definition end_task :: "task_id \<Rightarrow> storage_executor \<Rightarrow> storage_executor" where
  "end_task t ex = ex\<lparr>ex_tasks := fmdrop t (ex_tasks ex), ex_notified := ex_notified ex |-| {|t|}\<rparr>"

definition notify_one :: "task_id option \<Rightarrow> storage_executor \<Rightarrow> storage_executor" where
  "notify_one waiter ex =
     (case waiter of None \<Rightarrow> ex | Some t \<Rightarrow> ex\<lparr>ex_notified := finsert t (ex_notified ex)\<rparr>)"

text \<open>Update the lane of a stream by an operation that may notify a waiter.\<close>

definition with_lane ::
  "(storage_lane \<Rightarrow> storage_lane \<times> task_id option) \<Rightarrow> string \<Rightarrow> storage_executor \<Rightarrow> storage_executor" where
  "with_lane f stream ex =
     (case fmlookup (ex_lanes ex) stream of
        None \<Rightarrow> ex
      | Some lane \<Rightarrow>
          (case f lane of (lane1, waiter) \<Rightarrow>
             notify_one waiter (ex\<lparr>ex_lanes := fmupd stream lane1 (ex_lanes ex)\<rparr>)))"

text \<open>Dropping the lane permit of a task, if it has one.\<close>

definition drop_lane_permit :: "string option \<Rightarrow> storage_executor \<Rightarrow> storage_executor" where
  "drop_lane_permit stream ex = (case stream of None \<Rightarrow> ex | Some s \<Rightarrow> with_lane release s ex)"

definition dispatch :: "task_id \<Rightarrow> (storage_executor, broker_error, unit) op" where
  "dispatch t = modify (set_phase t (Admitting None))"

definition acquire_stream_permit :: "task_id \<Rightarrow> string \<Rightarrow> storage_lane \<Rightarrow> (storage_executor, broker_error, unit) op" where
  "acquire_stream_permit t stream lane =
     and_then (reads id) (\<lambda>ex.
     case reserve (ex_queue_capacity ex) t (ex_waiter_permits ex) lane of
       Inl e \<Rightarrow> throw e
     | Inr (reservation, lane1, waiter_permits) \<Rightarrow>
         modify (\<lambda>ex. set_phase t
             (case reservation of Active \<Rightarrow> Admitting (Some stream) | Queued \<Rightarrow> Waiting stream False)
           (ex\<lparr>ex_lanes := fmupd stream lane1 (ex_lanes ex), ex_waiter_permits := waiter_permits\<rparr>)))"

text \<open>Look up or create the lane and reserve it: the future's first step.\<close>

definition dispatch_stream :: "task_id \<Rightarrow> string \<Rightarrow> (storage_executor, broker_error, unit) op" where
  "dispatch_stream t stream =
     and_then (lift_res (validate_name ''stream'' stream)) (\<lambda>_.
     and_then (stream_lane stream) (\<lambda>lane.
     acquire_stream_permit t stream lane))"

text \<open>
  One turn of the loop of \<open>QueuedStorageLaneWaiter::wait\<close>: a parked waiter takes its notification,
  any other tries to claim the lane. A claim that fails on a poisoned lock drops the waiter.
\<close>

definition poll_waiter :: "task_id \<Rightarrow> (storage_executor, broker_error, unit) op" where
  "poll_waiter t ex =
     (case fmlookup (ex_tasks ex) t of
        Some (Waiting stream parked) \<Rightarrow>
          if parked
          then (if t |\<in>| ex_notified ex
                then (Inr (), set_phase t (Waiting stream False) (ex\<lparr>ex_notified := ex_notified ex |-| {|t|}\<rparr>))
                else (Inr (), ex))
          else (case fmlookup (ex_lanes ex) stream of
                  None \<Rightarrow> (Inr (), ex)
                | Some lane \<Rightarrow>
                    (case claim t lane of
                       Inl e \<Rightarrow> (Inl e, end_task t (ex\<lparr>ex_waiter_permits := ex_waiter_permits ex + 1\<rparr>))
                     | Inr (False, _) \<Rightarrow> (Inr (), set_phase t (Waiting stream True) ex)
                     | Inr (True, lane1) \<Rightarrow>
                         (Inr (), set_phase t (Admitting (Some stream))
                            (ex\<lparr>ex_lanes := fmupd stream lane1 (ex_lanes ex),
                                ex_waiter_permits := ex_waiter_permits ex + 1,
                                ex_notified := ex_notified ex |-| {|t|}\<rparr>))))
      | _ \<Rightarrow> (Inr (), ex))"

definition admit :: "task_id \<Rightarrow> (storage_executor, broker_error, unit) op" where
  "admit t ex =
     (case fmlookup (ex_tasks ex) t of
        Some (Admitting stream) \<Rightarrow>
          if ex_admission_permits ex = 0
          then (Inl (Io (IoError IoWouldBlock ''storage execution queue is full'')),
                drop_lane_permit stream (end_task t ex))
          else (Inr (), set_phase t (Admitted stream) (ex\<lparr>ex_admission_permits := ex_admission_permits ex - 1\<rparr>))
      | _ \<Rightarrow> (Inr (), ex))"

definition start :: "task_id \<Rightarrow> storage_executor \<Rightarrow> storage_executor" where
  "start t ex =
     (case fmlookup (ex_tasks ex) t of
        Some (Admitted stream) \<Rightarrow>
          if ex_execution_permits ex = 0 then ex
          else set_phase t (Running stream) (ex\<lparr>ex_execution_permits := ex_execution_permits ex - 1\<rparr>)
      | _ \<Rightarrow> ex)"

text \<open>
  The operation returns, panics, or is dropped by a runtime that shuts down; its captured permits are
  dropped in any case. The dispatching future sees the operation's result, or an error.
\<close>

datatype 'a task_outcome = Completed "broker_error + 'a" | Panicked | Aborted

fun dispatch_result :: "'a task_outcome \<Rightarrow> broker_error + 'a" where
  "dispatch_result (Completed r) = r"
| "dispatch_result Panicked = Inl (Io (IoError IoOther ''storage execution task panicked''))"
| "dispatch_result Aborted = Inl (Io (IoError IoOther ''storage execution task was cancelled''))"

definition finish :: "task_id \<Rightarrow> storage_executor \<Rightarrow> storage_executor" where
  "finish t ex =
     (case fmlookup (ex_tasks ex) t of
        Some (Running stream) \<Rightarrow>
          drop_lane_permit stream
            (end_task t (ex\<lparr>ex_execution_permits := ex_execution_permits ex + 1,
                            ex_admission_permits := ex_admission_permits ex + 1\<rparr>))
      | _ \<Rightarrow> ex)"

text \<open>
  The dispatching future is dropped while it awaits its lane or an execution permit. Once the
  operation runs on the blocking pool it is not stopped.
\<close>

definition cancel_task :: "task_id \<Rightarrow> storage_executor \<Rightarrow> storage_executor" where
  "cancel_task t ex =
     (case fmlookup (ex_tasks ex) t of
        Some (Waiting stream _) \<Rightarrow>
          with_lane (cancel t) stream (end_task t (ex\<lparr>ex_waiter_permits := ex_waiter_permits ex + 1\<rparr>))
      | Some (Admitted stream) \<Rightarrow>
          drop_lane_permit stream (end_task t (ex\<lparr>ex_admission_permits := ex_admission_permits ex + 1\<rparr>))
      | _ \<Rightarrow> ex)"

end
