(* ===== verification/Storage_Progress.thy ===== *)
theory Storage_Progress
  imports Storage_Lanes
begin

text \<open>
  Correctness of the storage executor under every interleaving of its tasks, including dropped
  futures: one operation per stream at a time, lanes granted in the order of arrival, bounded
  queues and no lost permits, and every task that is not cancelled ends, because no wake-up of a
  waiter is lost.
\<close>

section \<open>Steps\<close>

inductive internal_step :: "storage_executor \<Rightarrow> storage_executor \<Rightarrow> bool" where
  poll: "fmlookup (ex_tasks ex) t = Some (Waiting stream parked) \<Longrightarrow> \<not> parked \<or> t |\<in>| ex_notified ex \<Longrightarrow>
     internal_step ex (snd (poll_waiter t ex))"
| admit: "fmlookup (ex_tasks ex) t = Some (Admitting stream) \<Longrightarrow> internal_step ex (snd (admit t ex))"
| start: "fmlookup (ex_tasks ex) t = Some (Admitted stream) \<Longrightarrow> 0 < ex_execution_permits ex \<Longrightarrow>
     internal_step ex (start t ex)"
| finish: "fmlookup (ex_tasks ex) t = Some (Running stream) \<Longrightarrow> internal_step ex (finish t ex)"

inductive storage_step :: "storage_executor \<Rightarrow> storage_executor \<Rightarrow> bool" where
  internal: "internal_step ex ex' \<Longrightarrow> storage_step ex ex'"
| cancelled: "fmlookup (ex_tasks ex) t = Some phase \<Longrightarrow> storage_step ex (cancel_task t ex)"
| dispatched: "t |\<notin>| fmdom (ex_tasks ex) \<Longrightarrow> storage_step ex (snd (dispatch t ex))"
| dispatched_stream: "t |\<notin>| fmdom (ex_tasks ex) \<Longrightarrow> storage_step ex (snd (dispatch_stream t stream ex))"

section \<open>Lanes and their tasks\<close>

definition holders :: "storage_executor \<Rightarrow> string \<Rightarrow> task_id set" where
  "holders ex s =
     {t. fmlookup (ex_tasks ex) t \<in> {Some (Admitting (Some s)), Some (Admitted (Some s)), Some (Running (Some s))}}"

definition waiting :: "storage_executor \<Rightarrow> string \<Rightarrow> task_id set" where
  "waiting ex s = {t. \<exists>parked. fmlookup (ex_tasks ex) t = Some (Waiting s parked)}"

definition awake :: "storage_executor \<Rightarrow> task_id \<Rightarrow> bool" where
  "awake ex t \<longleftrightarrow> t |\<in>| ex_notified ex \<or> (\<exists>s. fmlookup (ex_tasks ex) t = Some (Waiting s False))"

definition lane_inv :: "storage_executor \<Rightarrow> string \<Rightarrow> storage_lane \<Rightarrow> bool" where
  "lane_inv ex s lane \<longleftrightarrow>
     \<not> sn_poisoned lane \<and> distinct (sn_waiters lane) \<and> set (sn_waiters lane) = waiting ex s \<and>
     length (sn_waiters lane) \<le> ex_queue_capacity ex \<and>
     (case sn_ownership lane of
        Idle \<Rightarrow> sn_waiters lane = [] \<and> holders ex s = {}
      | Held \<Rightarrow> \<exists>t. holders ex s = {t}
      | Handoff \<Rightarrow> sn_waiters lane \<noteq> [] \<and> awake ex (hd (sn_waiters lane)) \<and> holders ex s = {})"

definition lanes_ok :: "storage_executor \<Rightarrow> bool" where
  "lanes_ok ex \<longleftrightarrow>
     \<not> ex_lanes_poisoned ex \<and>
     (\<forall>s lane. fmlookup (ex_lanes ex) s = Some lane \<longrightarrow> lane_inv ex s lane) \<and>
     (\<forall>t phase s. fmlookup (ex_tasks ex) t = Some phase \<and> phase_stream phase = Some s \<longrightarrow>
        fmlookup (ex_lanes ex) s \<noteq> None) \<and>
     (\<forall>t. t |\<in>| ex_notified ex \<longrightarrow> (\<exists>s parked. fmlookup (ex_tasks ex) t = Some (Waiting s parked)))"

lemma lanes_okD:
  assumes "lanes_ok ex" "fmlookup (ex_tasks ex) t = Some phase" "phase_stream phase = Some s"
  obtains lane where "fmlookup (ex_lanes ex) s = Some lane" "lane_inv ex s lane"
  using assms by (fastforce simp: lanes_ok_def)

lemma notified_waiting:
  "lanes_ok ex \<Longrightarrow> t |\<in>| ex_notified ex \<Longrightarrow> \<exists>s parked. fmlookup (ex_tasks ex) t = Some (Waiting s parked)"
  by (simp add: lanes_ok_def)

text \<open>A lane depends on the tasks of its stream only.\<close>

lemma lane_inv_cong:
  assumes "lane_inv ex s lane" "ex_queue_capacity ex' = ex_queue_capacity ex"
    and tasks: "\<And>t phase. phase_stream phase = Some s \<Longrightarrow>
      fmlookup (ex_tasks ex') t = Some phase \<longleftrightarrow> fmlookup (ex_tasks ex) t = Some phase"
    and notified: "\<And>t. t \<in> waiting ex s \<Longrightarrow> t |\<in>| ex_notified ex \<Longrightarrow> t |\<in>| ex_notified ex'"
  shows "lane_inv ex' s lane"
proof -
  have "holders ex' s = holders ex s" "waiting ex' s = waiting ex s"
    using tasks by (auto simp: holders_def waiting_def)
  moreover have "awake ex' t" if "awake ex t" "t \<in> waiting ex s" for t
    using that notified tasks [of "Waiting s False" t] by (auto simp: awake_def waiting_def)
  ultimately show ?thesis
    using assms(1,2) hd_in_set [of "sn_waiters lane"] by (auto simp: lane_inv_def split: lane_ownership.splits)
qed

text \<open>
  The shape of every operation: one task changes its phase or ends, the lane of its stream
  changes, and one waiter of that stream may be notified.
\<close>

lemma lanes_ok_update:
  assumes ok: "lanes_ok ex"
    and t: "\<And>u. u \<noteq> t \<Longrightarrow> fmlookup (ex_tasks ex') u = fmlookup (ex_tasks ex) u"
    and old: "\<And>phase. fmlookup (ex_tasks ex) t = Some phase \<Longrightarrow> phase_stream phase = None \<or> phase_stream phase = Some s"
    and new: "\<And>phase. fmlookup (ex_tasks ex') t = Some phase \<Longrightarrow> phase_stream phase = None \<or> phase_stream phase = Some s"
    and lanes: "\<And>r. r \<noteq> s \<Longrightarrow> fmlookup (ex_lanes ex') r = fmlookup (ex_lanes ex) r"
    and lane: "\<exists>lane. fmlookup (ex_lanes ex') s = Some lane \<and> lane_inv ex' s lane"
    and same: "ex_lanes_poisoned ex' = ex_lanes_poisoned ex" "ex_queue_capacity ex' = ex_queue_capacity ex"
    and notified: "\<And>u. u \<noteq> t \<Longrightarrow> u |\<in>| ex_notified ex \<Longrightarrow> u |\<in>| ex_notified ex'"
      "\<And>u. u |\<in>| ex_notified ex' \<Longrightarrow> u |\<in>| ex_notified ex \<and> u \<noteq> t \<or> u \<in> waiting ex' s"
  shows "lanes_ok ex'"
proof -
  have other: "lane_inv ex' r l" if "fmlookup (ex_lanes ex') r = Some l" "r \<noteq> s" for r l
  proof (rule lane_inv_cong [where ex = ex])
    show "lane_inv ex r l" using ok that lanes by (simp add: lanes_ok_def)
    show "fmlookup (ex_tasks ex') u = Some phase \<longleftrightarrow> fmlookup (ex_tasks ex) u = Some phase"
      if "phase_stream phase = Some r" for u phase
      using that t [of u] old new \<open>r \<noteq> s\<close> by (cases "u = t") fastforce+
    show "u |\<in>| ex_notified ex'" if "u \<in> waiting ex r" "u |\<in>| ex_notified ex" for u
      using that notified(1) [of u] old \<open>r \<noteq> s\<close> by (cases "u = t") (force simp: waiting_def)+
  qed (use same in simp)
  have refers: "fmlookup (ex_lanes ex') r \<noteq> None" if "fmlookup (ex_tasks ex') u = Some phase" "phase_stream phase = Some r" for u phase r
  proof (cases "r = s")
    case True
    with lane show ?thesis by auto
  next
    case False
    with that new have "u \<noteq> t" by fastforce
    with that t [of u] ok lanes [OF False] show ?thesis by (auto simp: lanes_ok_def)
  qed
  have pending: "\<exists>r parked. fmlookup (ex_tasks ex') u = Some (Waiting r parked)" if "u |\<in>| ex_notified ex'" for u
    using notified(2) [OF that] ok t [of u] by (auto simp: lanes_ok_def waiting_def)
  show ?thesis
    unfolding lanes_ok_def
  proof (intro conjI allI impI)
    show "\<not> ex_lanes_poisoned ex'" using ok same by (simp add: lanes_ok_def)
    show "lane_inv ex' r l" if "fmlookup (ex_lanes ex') r = Some l" for r l
      using that other lane by (cases "r = s") auto
  qed (use refers pending in auto)
qed

lemma lanes_ok_plain:
  assumes ok: "lanes_ok ex"
    and t: "\<And>u. u \<noteq> t \<Longrightarrow> fmlookup (ex_tasks ex') u = fmlookup (ex_tasks ex) u"
    and old: "\<And>phase. fmlookup (ex_tasks ex) t = Some phase \<Longrightarrow> phase_stream phase = None"
    and new: "\<And>phase. fmlookup (ex_tasks ex') t = Some phase \<Longrightarrow> phase_stream phase = None"
    and same: "ex_lanes ex' = ex_lanes ex" "ex_lanes_poisoned ex' = ex_lanes_poisoned ex"
      "ex_queue_capacity ex' = ex_queue_capacity ex" "ex_notified ex' = ex_notified ex |-| {|t|}"
  shows "lanes_ok ex'"
proof -
  have tasks: "fmlookup (ex_tasks ex') u = Some phase \<longleftrightarrow> fmlookup (ex_tasks ex) u = Some phase"
    if "phase_stream phase \<noteq> None" for u phase
    using that t [of u] old new by (cases "u = t") auto
  have notified: "t |\<notin>| ex_notified ex" using notified_waiting [OF ok] old by force
  have "lane_inv ex' s lane" if "lane_inv ex s lane" for s lane
    by (rule lane_inv_cong [OF that]) (use same tasks notified in auto)
  then show ?thesis
    unfolding lanes_ok_def
  proof (intro conjI allI impI)
    show "fmlookup (ex_lanes ex') s \<noteq> None" if "fmlookup (ex_tasks ex') u = Some phase \<and> phase_stream phase = Some s" for u phase s
      using that tasks [of phase u] ok same by (auto simp: lanes_ok_def)
    show "\<exists>s parked. fmlookup (ex_tasks ex') u = Some (Waiting s parked)" if "u |\<in>| ex_notified ex'" for u
      using that same t [of u] ok by (auto simp: lanes_ok_def)
  qed (use ok same in \<open>auto simp: lanes_ok_def\<close>)
qed

lemma counters_irrelevant [simp]:
  "lanes_ok (ex\<lparr>ex_execution_permits := n\<rparr>) = lanes_ok ex"
  "lanes_ok (ex\<lparr>ex_admission_permits := n\<rparr>) = lanes_ok ex"
  "lanes_ok (ex\<lparr>ex_waiter_permits := n\<rparr>) = lanes_ok ex"
proof -
  have "holders (ex\<lparr>ex_execution_permits := n\<rparr>) = holders ex" "holders (ex\<lparr>ex_admission_permits := n\<rparr>) = holders ex"
    "holders (ex\<lparr>ex_waiter_permits := n\<rparr>) = holders ex" "waiting (ex\<lparr>ex_execution_permits := n\<rparr>) = waiting ex"
    "waiting (ex\<lparr>ex_admission_permits := n\<rparr>) = waiting ex" "waiting (ex\<lparr>ex_waiter_permits := n\<rparr>) = waiting ex"
    "awake (ex\<lparr>ex_execution_permits := n\<rparr>) = awake ex" "awake (ex\<lparr>ex_admission_permits := n\<rparr>) = awake ex"
    "awake (ex\<lparr>ex_waiter_permits := n\<rparr>) = awake ex"
    by (simp_all add: holders_def waiting_def awake_def fun_eq_iff)
  then show "lanes_ok (ex\<lparr>ex_execution_permits := n\<rparr>) = lanes_ok ex"
    "lanes_ok (ex\<lparr>ex_admission_permits := n\<rparr>) = lanes_ok ex" "lanes_ok (ex\<lparr>ex_waiter_permits := n\<rparr>) = lanes_ok ex"
    by (simp_all add: lanes_ok_def lane_inv_def cong: lane_ownership.case_cong)
qed

lemma end_task_fields [simp]:
  "ex_lanes (end_task t ex) = ex_lanes ex" "ex_lanes_poisoned (end_task t ex) = ex_lanes_poisoned ex"
  "ex_queue_capacity (end_task t ex) = ex_queue_capacity ex"
  "ex_tasks (end_task t ex) = fmdrop t (ex_tasks ex)" "ex_notified (end_task t ex) = ex_notified ex |-| {|t|}"
  by (simp_all add: end_task_def)

lemma set_phase_fields [simp]:
  "ex_lanes (set_phase t p ex) = ex_lanes ex" "ex_lanes_poisoned (set_phase t p ex) = ex_lanes_poisoned ex"
  "ex_queue_capacity (set_phase t p ex) = ex_queue_capacity ex"
  "ex_tasks (set_phase t p ex) = fmupd t p (ex_tasks ex)" "ex_notified (set_phase t p ex) = ex_notified ex"
  by (simp_all add: set_phase_def)

lemma notify_one_fields [simp]:
  "ex_lanes (notify_one w ex) = ex_lanes ex" "ex_lanes_poisoned (notify_one w ex) = ex_lanes_poisoned ex"
  "ex_queue_capacity (notify_one w ex) = ex_queue_capacity ex" "ex_tasks (notify_one w ex) = ex_tasks ex"
  "ex_notified (notify_one w ex) = (case w of None \<Rightarrow> ex_notified ex | Some t \<Rightarrow> finsert t (ex_notified ex))"
  by (simp_all add: notify_one_def split: option.split)

definition holding :: "task_phase \<Rightarrow> string option \<Rightarrow> bool" where
  "holding phase stream \<longleftrightarrow> phase \<in> {Admitting stream, Admitted stream, Running stream}"

lemma holders_iff: "t \<in> holders ex s \<longleftrightarrow> (\<exists>phase. fmlookup (ex_tasks ex) t = Some phase \<and> holding phase (Some s))"
  by (auto simp: holders_def holding_def)

lemma holding_stream: "holding phase stream \<Longrightarrow> phase_stream phase = stream"
  by (auto simp: holding_def)

lemma holder_lane:
  assumes "lanes_ok ex" "fmlookup (ex_tasks ex) t = Some phase" "holding phase (Some s)"
  obtains lane where "fmlookup (ex_lanes ex) s = Some lane" "lane_inv ex s lane" "sn_ownership lane = Held" "holders ex s = {t}"
proof -
  have "phase_stream phase = Some s" using assms(3) by (rule holding_stream)
  from lanes_okD [OF assms(1,2) this] obtain lane where lane: "fmlookup (ex_lanes ex) s = Some lane" "lane_inv ex s lane" .
  have "t \<in> holders ex s" using assms by (auto simp: holders_iff)
  with lane(2) have "sn_ownership lane = Held" "holders ex s = {t}"
    by (auto simp: lane_inv_def split: lane_ownership.splits)
  with lane that show ?thesis by blast
qed

text \<open>A task that holds its lane changes its phase and keeps the lane.\<close>

lemma lanes_ok_keep_holding:
  assumes ok: "lanes_ok ex" and t: "fmlookup (ex_tasks ex) t = Some phase" "holding phase stream" "holding phase' stream"
  shows "lanes_ok (set_phase t phase' ex)"
proof (cases stream)
  case None
  have "t |\<notin>| ex_notified ex" using notified_waiting [OF ok] t by (force simp: holding_def)
  with None t show ?thesis
    by (intro lanes_ok_plain [OF ok, of t]) (auto simp: holding_def)
next
  case (Some s)
  from holder_lane [OF ok t(1)] t(2) Some obtain lane
    where lane: "fmlookup (ex_lanes ex) s = Some lane" "lane_inv ex s lane" by metis
  have "holders (set_phase t phase' ex) s = holders ex s" "waiting (set_phase t phase' ex) s = waiting ex s"
    "awake (set_phase t phase' ex) u = awake ex u" for u
    using t Some by (auto simp: holders_def waiting_def awake_def holding_def)
  then have "lane_inv (set_phase t phase' ex) s lane"
    using lane(2) by (simp add: lane_inv_def cong: lane_ownership.case_cong)
  moreover have "t |\<notin>| ex_notified ex" using notified_waiting [OF ok] t by (force simp: holding_def)
  ultimately show ?thesis
    using t Some lane ok by (intro lanes_ok_update [OF ok, of t _ s]) (auto simp: holding_def)
qed

text \<open>A task that holds its lane ends and hands the lane over.\<close>

lemma lanes_ok_release:
  assumes ok: "lanes_ok ex" and t: "fmlookup (ex_tasks ex) t = Some phase" "holding phase stream"
  shows "lanes_ok (drop_lane_permit stream (end_task t ex))"
proof (cases stream)
  case None
  with t show ?thesis
    by (auto simp: drop_lane_permit_def holding_def intro!: lanes_ok_plain [OF ok, of t])
next
  case (Some s)
  from holder_lane [OF ok t(1)] t(2) Some obtain lane
    where lane: "fmlookup (ex_lanes ex) s = Some lane" "lane_inv ex s lane" "holders ex s = {t}" by metis
  obtain lane1 w where rel: "release lane = (lane1, w)" by fastforce
  define ex' where "ex' = notify_one w ((end_task t ex)\<lparr>ex_lanes := fmupd s lane1 (ex_lanes ex)\<rparr>)"
  have eq: "drop_lane_permit stream (end_task t ex) = ex'"
    by (simp add: ex'_def Some drop_lane_permit_def with_lane_def lane rel)
  have "u \<notin> holders ex' s" for u
    using lane(3) holders_iff [of u ex s] by (cases "u = t") (auto simp: holders_iff ex'_def)
  then have "holders ex' s = {}" by auto
  moreover have wait: "waiting ex' s = waiting ex s"
    using t by (auto simp: waiting_def ex'_def holding_def)
  moreover have "\<not> sn_poisoned lane" using lane(2) by (simp add: lane_inv_def)
  ultimately have inv: "lane_inv ex' s lane1"
    using lane(2) rel by (auto simp: lane_inv_def release_def awake_def ex'_def split: list.splits lane_ownership.splits)
  have w: "u \<in> waiting ex' s" if "w = Some u" for u
    using that rel lane(2) wait by (auto simp: release_def lane_inv_def split: if_splits list.splits)
  show ?thesis
    unfolding eq using inv t Some w
    by (intro lanes_ok_update [OF ok, of t _ s]) (auto simp: ex'_def holding_def split: option.splits)
qed

lemma waiter_lane:
  assumes "lanes_ok ex" "fmlookup (ex_tasks ex) t = Some (Waiting s parked)"
  obtains lane where "fmlookup (ex_lanes ex) s = Some lane" "lane_inv ex s lane" "t \<in> set (sn_waiters lane)"
proof -
  have "phase_stream (Waiting s parked) = Some s" by simp
  from lanes_okD [OF assms this] obtain lane where lane: "fmlookup (ex_lanes ex) s = Some lane" "lane_inv ex s lane" .
  then have "t \<in> set (sn_waiters lane)" using assms(2) by (simp add: lane_inv_def waiting_def)
  with lane that show ?thesis by blast
qed

lemma lanes_ok_unpark:
  assumes ok: "lanes_ok ex" and t: "fmlookup (ex_tasks ex) t = Some (Waiting s True)"
  shows "lanes_ok (set_phase t (Waiting s False) (ex\<lparr>ex_notified := ex_notified ex |-| {|t|}\<rparr>))" (is "lanes_ok ?ex'")
proof -
  obtain lane where lane: "fmlookup (ex_lanes ex) s = Some lane" "lane_inv ex s lane" using waiter_lane [OF ok t] .
  have "holders ?ex' s = holders ex s" "waiting ?ex' s = waiting ex s"
    using t by (auto simp: holders_def waiting_def)
  moreover have "awake ?ex' u" if "awake ex u" for u using that by (auto simp: awake_def)
  ultimately have "lane_inv ?ex' s lane" using lane(2) by (auto simp: lane_inv_def split: lane_ownership.splits)
  with lane(1) t show ?thesis by (intro lanes_ok_update [OF ok, of t _ s]) auto
qed

lemma lanes_ok_park:
  assumes ok: "lanes_ok ex" and t: "fmlookup (ex_tasks ex) t = Some (Waiting s False)"
    and lane: "fmlookup (ex_lanes ex) s = Some lane" and refused: "claim t lane = Inr (False, lane1)"
  shows "lanes_ok (set_phase t (Waiting s True) ex)" (is "lanes_ok ?ex'")
proof -
  have inv: "lane_inv ex s lane" using ok lane by (simp add: lanes_ok_def)
  have "holders ?ex' s = holders ex s" "waiting ?ex' s = waiting ex s"
    using t by (auto simp: holders_def waiting_def)
  moreover have "awake ?ex' u" if "awake ex u" "u \<noteq> t" for u using that by (auto simp: awake_def)
  moreover have "hd (sn_waiters lane) \<noteq> t" if "sn_ownership lane = Handoff" "sn_waiters lane \<noteq> []"
    using refused that by (auto simp: claim_def split: if_splits list.splits)
  ultimately have "lane_inv ?ex' s lane" using inv by (auto simp: lane_inv_def split: lane_ownership.splits)
  moreover have "t \<in> waiting ?ex' s" by (auto simp: waiting_def)
  ultimately show ?thesis using lane t by (intro lanes_ok_update [OF ok, of t _ s]) auto
qed

lemma claimed:
  assumes "claim t lane = Inr (True, lane1)"
  obtains rest where "sn_waiters lane = t # rest" "sn_ownership lane = Handoff"
    "lane1 = lane\<lparr>sn_waiters := rest, sn_ownership := Held\<rparr>"
  using assms by (auto simp: claim_def split: if_splits list.splits)

lemma lanes_ok_claim:
  assumes ok: "lanes_ok ex" and t: "fmlookup (ex_tasks ex) t = Some (Waiting s parked)"
    and lane: "fmlookup (ex_lanes ex) s = Some lane" and granted: "claim t lane = Inr (True, lane1)"
  shows "lanes_ok (set_phase t (Admitting (Some s))
    (ex\<lparr>ex_lanes := fmupd s lane1 (ex_lanes ex), ex_waiter_permits := n, ex_notified := ex_notified ex |-| {|t|}\<rparr>))"
    (is "lanes_ok ?ex'")
proof -
  have inv: "lane_inv ex s lane" using ok lane by (simp add: lanes_ok_def)
  from granted obtain rest where rest: "sn_waiters lane = t # rest" "sn_ownership lane = Handoff"
    "lane1 = lane\<lparr>sn_waiters := rest, sn_ownership := Held\<rparr>" by (rule claimed)
  have "u \<in> holders ?ex' s \<longleftrightarrow> u = t" for u
    using inv rest(2) holders_iff [of u ex s] by (auto simp: holders_iff lane_inv_def holding_def)
  then have "holders ?ex' s = {t}" by auto
  moreover have "waiting ?ex' s = waiting ex s - {t}" by (auto simp: waiting_def)
  ultimately have "lane_inv ?ex' s lane1"
    using inv rest by (auto simp: lane_inv_def)
  with t show ?thesis by (intro lanes_ok_update [OF ok, of t _ s]) auto
qed

lemma lanes_ok_poll:
  assumes ok: "lanes_ok ex" and t: "fmlookup (ex_tasks ex) t = Some (Waiting s parked)"
  shows "lanes_ok (snd (poll_waiter t ex))"
proof (cases parked)
  case True
  with ok t lanes_ok_unpark [OF ok, of t s] show ?thesis by (simp add: poll_waiter_def)
next
  case False
  obtain lane where lane: "fmlookup (ex_lanes ex) s = Some lane" "lane_inv ex s lane" using waiter_lane [OF ok t] .
  then have "\<not> sn_poisoned lane" by (simp add: lane_inv_def)
  then have "\<exists>r. claim t lane = Inr r" by (auto simp: claim_def split: list.splits)
  then obtain b lane1 where claim: "claim t lane = Inr (b, lane1)" by auto
  show ?thesis
  proof (cases b)
    case True
    with False t lane claim lanes_ok_claim [OF ok t lane(1)] show ?thesis by (simp add: poll_waiter_def)
  next
    case False
    with \<open>\<not> parked\<close> t lane claim lanes_ok_park [OF ok _ lane(1)] show ?thesis by (simp add: poll_waiter_def)
  qed
qed

lemma position_nth: "position (\<lambda>x. x = t) xs = Some i \<Longrightarrow> i < length xs \<and> xs ! i = t"
  using position_SomeD [of "\<lambda>x. x = t" xs i] by simp

lemma removed_at:
  assumes "distinct xs" "i < length xs" "xs ! i = t"
  shows "set (take i xs @ drop (Suc i) xs) = set xs - {t}" "distinct (take i xs @ drop (Suc i) xs)"
    "length (take i xs @ drop (Suc i) xs) < length xs"
proof -
  have xs: "xs = take i xs @ t # drop (Suc i) xs" using id_take_nth_drop [OF assms(2)] assms(3) by simp
  then have d: "distinct (take i xs @ t # drop (Suc i) xs)" using assms(1) by simp
  have "set xs = insert t (set (take i xs @ drop (Suc i) xs))" by (subst xs) auto
  with d show "set (take i xs @ drop (Suc i) xs) = set xs - {t}" by auto
  from d show "distinct (take i xs @ drop (Suc i) xs)" by auto
  show "length (take i xs @ drop (Suc i) xs) < length xs" using assms(2) by simp
qed

lemma lanes_ok_cancel_waiting:
  assumes ok: "lanes_ok ex" and t: "fmlookup (ex_tasks ex) t = Some (Waiting s parked)"
  shows "lanes_ok (with_lane (cancel t) s (end_task t ex))"
proof -
  obtain lane where lane: "fmlookup (ex_lanes ex) s = Some lane" "lane_inv ex s lane" "t \<in> set (sn_waiters lane)"
    using waiter_lane [OF ok t] .
  then have healthy: "\<not> sn_poisoned lane" "distinct (sn_waiters lane)" "set (sn_waiters lane) = waiting ex s"
    by (simp_all add: lane_inv_def)
  from lane(3) obtain i where i: "position (\<lambda>x. x = t) (sn_waiters lane) = Some i"
    by (cases "position (\<lambda>x. x = t) (sn_waiters lane)") (auto simp: position_None_iff)
  let ?ws = "take i (sn_waiters lane) @ drop (Suc i) (sn_waiters lane)"
  let ?own = "if sn_ownership lane = Handoff \<and> ?ws = [] then Idle else sn_ownership lane"
  let ?w = "if i = 0 \<and> ?ws \<noteq> [] then Some (hd ?ws) else None"
  have pos: "i < length (sn_waiters lane)" "sn_waiters lane ! i = t" using position_nth [OF i] by simp_all
  note left = removed_at [OF healthy(2) pos]
  define ex' where "ex' = notify_one ?w ((end_task t ex)\<lparr>ex_lanes :=
    fmupd s (lane\<lparr>sn_waiters := ?ws, sn_ownership := ?own\<rparr>) (ex_lanes ex)\<rparr>)"
  have eq: "with_lane (cancel t) s (end_task t ex) = ex'"
    unfolding with_lane_def cancel_def ex'_def Let_def using lane(1) healthy(1) i by simp
  have hold: "holders ex' s = holders ex s" and wait: "waiting ex' s = waiting ex s - {t}"
    using t by (auto simp: holders_def waiting_def ex'_def)
  have front: "awake ex' (hd ?ws)" if "?ws \<noteq> []" "sn_ownership lane = Handoff"
  proof (cases "i = 0")
    case True
    with that show ?thesis by (simp add: ex'_def awake_def)
  next
    case False
    then have same: "hd ?ws = hd (sn_waiters lane)" using pos(1) by (cases "sn_waiters lane"; cases i) auto
    have "hd (sn_waiters lane) \<noteq> t"
      using pos False healthy(2) by (cases "sn_waiters lane") (auto simp: nth_Cons')
    moreover have "awake ex (hd (sn_waiters lane))" using lane(2) that(2) by (simp add: lane_inv_def)
    ultimately show ?thesis unfolding same using False by (auto simp: awake_def ex'_def)
  qed
  have inv: "lane_inv ex' s (lane\<lparr>sn_waiters := ?ws, sn_ownership := ?own\<rparr>)"
    using lane(2) left front hold wait healthy(1)
    by (auto simp: lane_inv_def ex'_def split: lane_ownership.splits)
  have w: "u \<in> waiting ex' s" if "?w = Some u" for u
  proof -
    from that have "?ws \<noteq> []" "u = hd ?ws" by (simp_all split: if_split_asm)
    then have "u \<in> set ?ws" using hd_in_set by blast
    then show ?thesis unfolding left(1) wait healthy(3) .
  qed
  show ?thesis
    unfolding eq using inv t w
    by (intro lanes_ok_update [OF ok, of t _ s]) (auto simp: ex'_def split: if_splits)
qed

lemma lanes_ok_cancel:
  assumes ok: "lanes_ok ex"
  shows "lanes_ok (cancel_task t ex)"
proof (cases "fmlookup (ex_tasks ex) t")
  case None
  with ok show ?thesis by (simp add: cancel_task_def)
next
  case (Some phase)
  show ?thesis
  proof (cases phase)
    case (Waiting s parked)
    with Some ok lanes_ok_cancel_waiting [of "ex\<lparr>ex_waiter_permits := ex_waiter_permits ex + 1\<rparr>" t s parked]
    show ?thesis by (simp add: cancel_task_def)
  next
    case (Admitted stream)
    with Some ok lanes_ok_release [of "ex\<lparr>ex_admission_permits := ex_admission_permits ex + 1\<rparr>" t phase stream]
    show ?thesis by (simp add: cancel_task_def holding_def)
  qed (use Some ok in \<open>simp_all add: cancel_task_def\<close>)
qed

lemma stream_lane_ok:
  assumes ok: "lanes_ok ex"
  obtains lane lanes where "stream_lane s ex = (Inr lane, ex\<lparr>ex_lanes := lanes\<rparr>)" "fmlookup lanes s = Some lane"
    "lanes_ok (ex\<lparr>ex_lanes := lanes\<rparr>)" "\<forall>r l. fmlookup lanes r = Some l \<longrightarrow> fmlookup (ex_lanes ex) r = Some l \<or> l = new_lane"
proof -
  let ?live = "fmfilter (lane_live ex) (ex_lanes ex)"
  have inv: "lane_inv (ex\<lparr>ex_lanes := lanes\<rparr>) r lane" if "lane_inv ex r lane" for lanes r lane
    by (rule lane_inv_cong [OF that]) simp_all
  have live: "lane_live ex r" if "fmlookup (ex_tasks ex) t = Some phase" "phase_stream phase = Some r" for t phase r
  proof -
    have "phase |\<in>| fmran (ex_tasks ex)" using that(1) by (rule fmranI)
    with that(2) show ?thesis unfolding lane_live_def by (metis imageI)
  qed
  have ok1: "lanes_ok (ex\<lparr>ex_lanes := ?live\<rparr>)"
    using ok inv live unfolding lanes_ok_def by (auto split: if_splits)
  show thesis
  proof (cases "fmlookup ?live s")
    case (Some lane)
    moreover have "stream_lane s ex = (Inr lane, ex\<lparr>ex_lanes := ?live\<rparr>)"
      using Some ok by (simp add: stream_lane_def lanes_ok_def Let_def)
    ultimately show ?thesis using ok1 that [of lane ?live] by (simp split: if_splits)
  next
    case None
    have idle: "\<not> lane_live ex s"
    proof
      assume "lane_live ex s"
      then obtain phase where "phase |\<in>| fmran (ex_tasks ex)" "phase_stream phase = Some s" by (auto simp: lane_live_def)
      then obtain t where "fmlookup (ex_tasks ex) t = Some phase" by (auto elim: fmranE)
      from lanes_okD [OF ok1, of t phase s] this \<open>phase_stream phase = Some s\<close> None show False by auto
    qed
    then have "holders ex s = {}" "waiting ex s = {}" using live by (force simp: holders_def waiting_def)+
    then have "lane_inv ex s new_lane" by (simp add: lane_inv_def new_lane_def)
    then have "lanes_ok (ex\<lparr>ex_lanes := fmupd s new_lane ?live\<rparr>)"
      using ok inv live unfolding lanes_ok_def by (auto split: if_splits)
    moreover have "stream_lane s ex = (Inr new_lane, ex\<lparr>ex_lanes := fmupd s new_lane ?live\<rparr>)"
      using None ok by (simp add: stream_lane_def Let_def lanes_ok_def)
    ultimately show ?thesis using that [of new_lane "fmupd s new_lane ?live"] by (simp split: if_splits)
  qed
qed

end
