(* ===== verification/Storage_Liveness.thy ===== *)
theory Storage_Liveness
  imports Storage_Progress
begin

text \<open>
  The invariant of the storage executor over all its steps, the accounting of its permits, and
  the measure that every step without a new dispatch decreases. The liveness argument is that of
  any terminating system whose states are not stuck before they are done.
\<close>

section \<open>Terminating systems\<close>

locale terminating_system =
  fixes step :: "'s \<Rightarrow> 's \<Rightarrow> bool" and inv :: "'s \<Rightarrow> bool" and finished :: "'s \<Rightarrow> bool" and mu :: "'s \<Rightarrow> nat"
  assumes inv_step: "inv s \<Longrightarrow> step s t \<Longrightarrow> inv t"
    and decreases: "inv s \<Longrightarrow> step s t \<Longrightarrow> mu t < mu s"
    and not_stuck: "inv s \<Longrightarrow> \<not> finished s \<Longrightarrow> \<exists>t. step s t"
begin

lemma inv_steps: "step\<^sup>*\<^sup>* s t \<Longrightarrow> inv s \<Longrightarrow> inv t"
  by (induction rule: rtranclp_induct) (auto intro: inv_step)

lemma reaches_finished: "inv s \<Longrightarrow> \<exists>t. step\<^sup>*\<^sup>* s t \<and> finished t"
proof (induction "mu s" arbitrary: s rule: less_induct)
  case less
  show ?case
  proof (cases "finished s")
    case False
    with less.prems not_stuck obtain t where t: "step s t" by blast
    with less.prems have "mu t < mu s" "inv t" by (auto intro: decreases inv_step)
    with less.hyps obtain u where "step\<^sup>*\<^sup>* t u" "finished u" by blast
    with t show ?thesis by (meson converse_rtranclp_into_rtranclp)
  qed blast
qed

lemma run_bounded:
  assumes "inv (f 0)" "\<forall>i<n. step (f i) (f (Suc i))"
  shows "n \<le> mu (f 0)"
proof -
  have "inv (f i) \<and> mu (f i) + i \<le> mu (f 0)" if "i \<le> n" for i
    using that
  proof (induction i)
    case 0
    from assms(1) show ?case by simp
  next
    case (Suc i)
    then have i: "inv (f i)" "mu (f i) + i \<le> mu (f 0)" and st: "step (f i) (f (Suc i))" using assms(2) by auto
    from inv_step [OF i(1) st] decreases [OF i(1) st] i(2) show ?case by simp
  qed
  from this [of n] show ?thesis by simp
qed

end

section \<open>Dispatching\<close>

lemma lanes_ok_dispatch: "lanes_ok ex \<Longrightarrow> t |\<notin>| fmdom (ex_tasks ex) \<Longrightarrow> lanes_ok (snd (dispatch t ex))"
proof -
  assume ok: "lanes_ok ex" and fresh: "t |\<notin>| fmdom (ex_tasks ex)"
  then have "t |\<notin>| ex_notified ex" using notified_waiting [OF ok, of t] by (auto dest: fmdomI)
  with fresh show ?thesis
    by (auto simp: dispatch_def modify_def dest: fmdomI intro!: lanes_ok_plain [OF ok, of t])
qed

text \<open>What a dispatch to a stream does: it is refused, starts to ask for admission, or queues.\<close>

lemma dispatch_stream_cases:
  assumes ok: "lanes_ok ex"
  obtains (refused) lanes where "snd (dispatch_stream t s ex) = ex \<or> snd (dispatch_stream t s ex) = ex\<lparr>ex_lanes := lanes\<rparr>"
      "lanes_ok (ex\<lparr>ex_lanes := lanes\<rparr>)" "\<forall>r l. fmlookup lanes r = Some l \<longrightarrow> fmlookup (ex_lanes ex) r = Some l \<or> l = new_lane"
  | (active) lane lanes where "lanes_ok (ex\<lparr>ex_lanes := lanes\<rparr>)" "fmlookup lanes s = Some lane"
      "sn_ownership lane = Idle"
      "snd (dispatch_stream t s ex) =
         set_phase t (Admitting (Some s)) (ex\<lparr>ex_lanes := fmupd s (lane\<lparr>sn_ownership := Held\<rparr>) lanes\<rparr>)"
      "\<forall>r l. fmlookup lanes r = Some l \<longrightarrow> fmlookup (ex_lanes ex) r = Some l \<or> l = new_lane"
  | (queued) lane lanes where "lanes_ok (ex\<lparr>ex_lanes := lanes\<rparr>)" "fmlookup lanes s = Some lane"
      "\<not> (sn_ownership lane = Idle \<and> sn_waiters lane = [])" "length (sn_waiters lane) < ex_queue_capacity ex"
      "0 < ex_waiter_permits ex"
      "snd (dispatch_stream t s ex) =
         set_phase t (Waiting s False) (ex\<lparr>ex_lanes := fmupd s (lane\<lparr>sn_waiters := sn_waiters lane @ [t]\<rparr>) lanes,
           ex_waiter_permits := ex_waiter_permits ex - 1\<rparr>)"
      "\<forall>r l. fmlookup lanes r = Some l \<longrightarrow> fmlookup (ex_lanes ex) r = Some l \<or> l = new_lane"
proof (cases "validate_name ''stream'' s")
  case (Inl e)
  with ok refused [of "ex_lanes ex"] show thesis
    by (simp add: dispatch_stream_def and_then_def lift_res_def)
next
  case (Inr u)
  obtain lane lanes where look: "stream_lane s ex = (Inr lane, ex\<lparr>ex_lanes := lanes\<rparr>)" "fmlookup lanes s = Some lane"
    "lanes_ok (ex\<lparr>ex_lanes := lanes\<rparr>)" "\<forall>r l. fmlookup lanes r = Some l \<longrightarrow> fmlookup (ex_lanes ex) r = Some l \<or> l = new_lane"
    using stream_lane_ok [OF ok] .
  then have healthy: "\<not> sn_poisoned lane" by (auto simp: lanes_ok_def lane_inv_def)
  have run: "dispatch_stream t s ex =
      (case reserve (ex_queue_capacity ex) t (ex_waiter_permits ex) lane of
         Inl e \<Rightarrow> (Inl e, ex\<lparr>ex_lanes := lanes\<rparr>)
       | Inr (reservation, lane1, waiter_permits) \<Rightarrow>
           (Inr (), set_phase t (case reservation of Active \<Rightarrow> Admitting (Some s) | Queued \<Rightarrow> Waiting s False)
             (ex\<lparr>ex_lanes := fmupd s lane1 lanes, ex_waiter_permits := waiter_permits\<rparr>)))"
    using Inr look by (simp add: dispatch_stream_def acquire_stream_permit_def op_simps split: sum.split prod.split)
  consider "sn_ownership lane = Idle \<and> sn_waiters lane = []"
    | "\<not> (sn_ownership lane = Idle \<and> sn_waiters lane = [])"
      "ex_queue_capacity ex \<le> length (sn_waiters lane) \<or> ex_waiter_permits ex = 0"
    | "\<not> (sn_ownership lane = Idle \<and> sn_waiters lane = [])"
      "length (sn_waiters lane) < ex_queue_capacity ex" "0 < ex_waiter_permits ex"
    by linarith
  then show thesis
  proof cases
    case 1
    with run healthy look active [of lanes lane] show ?thesis by (simp add: reserve_def)
  next
    case 2
    with run healthy look refused [of lanes] show ?thesis by (auto simp: reserve_def split: if_splits)
  next
    case 3
    with run healthy look queued [of lanes lane] show ?thesis by (auto simp: reserve_def split: if_splits)
  qed
qed

lemma lanes_ok_dispatch_stream:
  assumes ok: "lanes_ok ex" and fresh: "t |\<notin>| fmdom (ex_tasks ex)"
  shows "lanes_ok (snd (dispatch_stream t s ex))"
  using ok
proof (cases rule: dispatch_stream_cases [where t = t and s = s])
  case (refused lanes)
  with ok show ?thesis by auto
next
  case (active lane lanes)
  let ?ex1 = "ex\<lparr>ex_lanes := lanes\<rparr>"
  let ?ex' = "set_phase t (Admitting (Some s)) (ex\<lparr>ex_lanes := fmupd s (lane\<lparr>sn_ownership := Held\<rparr>) lanes\<rparr>)"
  have none: "fmlookup (ex_tasks ex) t = None" using fresh by (simp add: fmdom_notD)
  have inv: "lane_inv ?ex1 s lane" using active(1,2) by (simp add: lanes_ok_def)
  have "holders ?ex' s = {t}" "waiting ?ex' s = waiting ?ex1 s"
    using inv active(3) none by (auto simp: lane_inv_def holders_def waiting_def)
  then have "lane_inv ?ex' s (lane\<lparr>sn_ownership := Held\<rparr>)" using inv active(3) by (auto simp: lane_inv_def)
  then show ?thesis
    unfolding active(4) using none notified_waiting [OF ok, of t]
    by (intro lanes_ok_update [OF active(1), of t _ s]) auto
next
  case (queued lane lanes)
  let ?ex1 = "ex\<lparr>ex_lanes := lanes\<rparr>"
  let ?lane = "lane\<lparr>sn_waiters := sn_waiters lane @ [t]\<rparr>"
  let ?ex' = "set_phase t (Waiting s False) (ex\<lparr>ex_lanes := fmupd s ?lane lanes, ex_waiter_permits := ex_waiter_permits ex - 1\<rparr>)"
  have none: "fmlookup (ex_tasks ex) t = None" using fresh by (simp add: fmdom_notD)
  have inv: "lane_inv ?ex1 s lane" using queued(1,2) by (simp add: lanes_ok_def)
  have "holders ?ex' s = holders ?ex1 s" "waiting ?ex' s = insert t (waiting ?ex1 s)" "t \<notin> waiting ?ex1 s"
    using none by (auto simp: holders_def waiting_def)
  moreover have "awake ?ex' u" if "awake ?ex1 u" for u using that by (auto simp: awake_def)
  ultimately have "lane_inv ?ex' s ?lane"
    using inv queued(3,4) by (auto simp: lane_inv_def hd_append split: lane_ownership.splits)
  then show ?thesis
    unfolding queued(6) using none notified_waiting [OF ok, of t]
    by (intro lanes_ok_update [OF queued(1), of t _ s]) auto
qed

section \<open>Permits\<close>

definition weight :: "('v \<Rightarrow> nat) \<Rightarrow> ('k, 'v) fmap \<Rightarrow> nat" where
  "weight f m = (\<Sum>k\<in>fset (fmdom m). f (the (fmlookup m k)))"

lemma weight_empty [simp]: "weight f fmempty = 0"
  by (simp add: weight_def)

lemma weight_drop: "fmlookup m k = Some v \<Longrightarrow> weight f (fmdrop k m) + f v = weight f m"
proof -
  assume k: "fmlookup m k = Some v"
  then have mem: "k \<in> fset (fmdom m)" by (rule fmdomI)
  have "weight f (fmdrop k m) = (\<Sum>j\<in>fset (fmdom m) - {k}. f (the (fmlookup m j)))"
    unfolding weight_def by (rule sum.cong) auto
  with sum.remove [OF finite_fset mem, of "\<lambda>j. f (the (fmlookup m j))"] k show ?thesis
    by (simp add: weight_def)
qed

lemma weight_new: "fmlookup m k = None \<Longrightarrow> weight f (fmupd k v m) = weight f m + f v"
proof -
  assume k: "fmlookup m k = None"
  have "fmdrop k (fmupd k v m) = m" using k by (intro fmap_ext) simp
  with weight_drop [of "fmupd k v m" k v f] show ?thesis by simp
qed

lemma weight_upd: "fmlookup m k = Some u \<Longrightarrow> weight f (fmupd k v m) + f u = weight f m + f v"
proof -
  assume k: "fmlookup m k = Some u"
  have "fmdrop k (fmupd k v m) = fmdrop k m" by (intro fmap_ext) simp
  with weight_drop [of "fmupd k v m" k v f] weight_drop [OF k, of f] show ?thesis by simp
qed

fun waits :: "task_phase \<Rightarrow> nat" where
  "waits (Waiting _ _) = 1" | "waits _ = 0"

fun admits :: "task_phase \<Rightarrow> nat" where
  "admits (Admitted _) = 1" | "admits (Running _) = 1" | "admits _ = 0"

fun runs :: "task_phase \<Rightarrow> nat" where
  "runs (Running _) = 1" | "runs _ = 0"

text \<open>Every permit is either free or held by a task in the phase it is for.\<close>

definition permits_ok :: "nat \<Rightarrow> nat \<Rightarrow> storage_executor \<Rightarrow> bool" where
  "permits_ok execution_capacity queue_capacity ex \<longleftrightarrow>
     ex_queue_capacity ex = queue_capacity \<and>
     ex_waiter_permits ex + weight waits (ex_tasks ex) = queue_capacity \<and>
     ex_admission_permits ex + weight admits (ex_tasks ex) = saturating_add64 execution_capacity queue_capacity \<and>
     ex_execution_permits ex + weight runs (ex_tasks ex) = execution_capacity"

lemma with_lane_fields [simp]:
  "ex_tasks (with_lane f s ex) = ex_tasks ex" "ex_queue_capacity (with_lane f s ex) = ex_queue_capacity ex"
  "ex_waiter_permits (with_lane f s ex) = ex_waiter_permits ex"
  "ex_admission_permits (with_lane f s ex) = ex_admission_permits ex"
  "ex_execution_permits (with_lane f s ex) = ex_execution_permits ex"
  by (simp_all add: with_lane_def notify_one_def split: option.split prod.split)

lemma drop_lane_permit_fields [simp]:
  "ex_tasks (drop_lane_permit st ex) = ex_tasks ex" "ex_queue_capacity (drop_lane_permit st ex) = ex_queue_capacity ex"
  "ex_waiter_permits (drop_lane_permit st ex) = ex_waiter_permits ex"
  "ex_admission_permits (drop_lane_permit st ex) = ex_admission_permits ex"
  "ex_execution_permits (drop_lane_permit st ex) = ex_execution_permits ex"
  by (simp_all add: drop_lane_permit_def split: option.split)

lemma permit_fields [simp]:
  "ex_waiter_permits (end_task t ex) = ex_waiter_permits ex" "ex_admission_permits (end_task t ex) = ex_admission_permits ex"
  "ex_execution_permits (end_task t ex) = ex_execution_permits ex"
  "ex_waiter_permits (set_phase t p ex) = ex_waiter_permits ex" "ex_admission_permits (set_phase t p ex) = ex_admission_permits ex"
  "ex_execution_permits (set_phase t p ex) = ex_execution_permits ex"
  by (simp_all add: end_task_def set_phase_def)

lemma weight_changes:
  assumes "fmlookup m k = Some u"
  shows "weight f (fmupd k v m) = weight f m - f u + f v" "weight f (fmdrop k m) = weight f m - f u" "f u \<le> weight f m"
  using weight_upd [OF assms, of f v] weight_drop [OF assms, of f] by linarith+

lemma permits_ok_internal:
  assumes "permits_ok e q ex" "internal_step ex ex'" "lanes_ok ex"
  shows "permits_ok e q ex'"
  using assms(2,1,3)
proof cases
  case (poll t s parked)
  note change = weight_changes [OF poll(2)]
  have one: "1 \<le> weight waits (ex_tasks ex)" using change(3) [of waits] by simp
  show ?thesis
    using assms(1) poll one
    by (auto simp: permits_ok_def poll_waiter_def change split: option.splits sum.splits prod.splits bool.splits)
next
  case (admit t stream)
  note change = weight_changes [OF admit(2)]
  show ?thesis using assms(1) admit by (auto simp: permits_ok_def admit_def change)
next
  case (start t stream)
  note change = weight_changes [OF start(2)]
  have one: "1 \<le> weight admits (ex_tasks ex)" using change(3) [of admits] by simp
  show ?thesis using assms(1) start one by (auto simp: permits_ok_def start_def change)
next
  case (finish t stream)
  note change = weight_changes [OF finish(2)]
  have one: "1 \<le> weight admits (ex_tasks ex)" "1 \<le> weight runs (ex_tasks ex)"
    using change(3) [of admits] change(3) [of runs] by simp_all
  show ?thesis using assms(1) finish one by (auto simp: permits_ok_def finish_def change)
qed

lemma permits_ok_step:
  assumes "permits_ok e q ex" "storage_step ex ex'" "lanes_ok ex"
  shows "permits_ok e q ex'"
  using assms(2,1,3)
proof cases
  case internal
  then show ?thesis using permits_ok_internal [OF assms(1) _ assms(3)] by simp
next
  case (cancelled t phase)
  note change = weight_changes [OF cancelled(2)]
  show ?thesis
    using assms(1) cancelled change(3) [of waits] change(3) [of admits]
    by (cases phase) (auto simp: permits_ok_def cancel_task_def change)
next
  case (dispatched t)
  then have "fmlookup (ex_tasks ex) t = None" by (simp add: fmdom_notD)
  with dispatched assms(1) show ?thesis by (simp add: permits_ok_def dispatch_def modify_def weight_new)
next
  case (dispatched_stream t s)
  then have none: "fmlookup (ex_tasks ex) t = None" by (simp add: fmdom_notD)
  from assms(3) show ?thesis
  proof (cases rule: dispatch_stream_cases [where t = t and s = s])
    case (refused lanes)
    with dispatched_stream assms(1) show ?thesis by (auto simp: permits_ok_def)
  next
    case (active lane lanes)
    with dispatched_stream assms(1) none show ?thesis by (simp add: permits_ok_def weight_new)
  next
    case (queued lane lanes)
    with dispatched_stream assms(1) none show ?thesis by (simp add: permits_ok_def weight_new)
  qed
qed

lemma lanes_ok_internal:
  assumes "lanes_ok ex" "internal_step ex ex'"
  shows "lanes_ok ex'"
  using assms(2,1)
proof cases
  case (poll t s parked)
  with lanes_ok_poll [OF assms(1)] show ?thesis by simp
next
  case (admit t stream)
  note ok = lanes_ok_release [OF assms(1) admit(2), of stream]
    lanes_ok_keep_holding [of "ex\<lparr>ex_admission_permits := ex_admission_permits ex - 1\<rparr>" t "Admitting stream" stream "Admitted stream"]
  show ?thesis using admit ok assms(1) by (simp add: admit_def holding_def)
next
  case (start t stream)
  note ok = lanes_ok_keep_holding [of "ex\<lparr>ex_execution_permits := ex_execution_permits ex - 1\<rparr>" t "Admitted stream" stream "Running stream"]
  show ?thesis using start ok assms(1) by (simp add: start_def holding_def)
next
  case (finish t stream)
  note ok = lanes_ok_release [of "ex\<lparr>ex_execution_permits := ex_execution_permits ex + 1,
    ex_admission_permits := ex_admission_permits ex + 1\<rparr>" t "Running stream" stream]
  show ?thesis using finish ok assms(1) by (simp add: finish_def holding_def)
qed

lemma lanes_ok_step: "lanes_ok ex \<Longrightarrow> storage_step ex ex' \<Longrightarrow> lanes_ok ex'"
proof -
  assume ok: "lanes_ok ex" and step: "storage_step ex ex'"
  from step ok show ?thesis
    by cases (auto intro: lanes_ok_internal lanes_ok_cancel lanes_ok_dispatch lanes_ok_dispatch_stream)
qed

definition executor_ok :: "nat \<Rightarrow> nat \<Rightarrow> storage_executor \<Rightarrow> bool" where
  "executor_ok e q ex \<longleftrightarrow> lanes_ok ex \<and> permits_ok e q ex"

lemma executor_ok_new: "executor_ok e q (executor_with_capacities e q)"
  by (simp add: executor_ok_def lanes_ok_def permits_ok_def executor_with_capacities_def)

lemma executor_ok_step: "executor_ok e q ex \<Longrightarrow> storage_step ex ex' \<Longrightarrow> executor_ok e q ex'"
  using lanes_ok_step permits_ok_step by (auto simp: executor_ok_def)

lemma executor_ok_reachable:
  "storage_step\<^sup>*\<^sup>* (executor_with_capacities e q) ex \<Longrightarrow> executor_ok e q ex"
  by (induction rule: rtranclp_induct) (auto intro: executor_ok_new executor_ok_step)

section \<open>Progress\<close>

fun rank :: "task_phase \<Rightarrow> nat" where
  "rank (Waiting _ parked) = (if parked then 20 else 21)"
| "rank (Admitting _) = 15"
| "rank (Admitted _) = 10"
| "rank (Running _) = 5"

definition storage_measure :: "storage_executor \<Rightarrow> nat" where
  "storage_measure ex = weight rank (ex_tasks ex) + 2 * fcard (ex_notified ex)"

lemma with_lane_notified: "fcard (ex_notified (with_lane f s ex)) \<le> fcard (ex_notified ex) + 1"
  by (auto simp: with_lane_def fcard_finsert_if split: option.split prod.split)

lemma drop_lane_permit_notified: "fcard (ex_notified (drop_lane_permit st ex)) \<le> fcard (ex_notified ex) + 1"
  using with_lane_notified by (auto simp: drop_lane_permit_def split: option.split)

lemma fcard_without: "fcard (A |-| B) \<le> fcard A"
  by (rule fcard_mono) auto

lemma end_task_notified: "fcard (ex_notified (end_task t ex)) \<le> fcard (ex_notified ex)"
  by (simp add: fcard_without)

lemma measure_ended:
  assumes "fmlookup (ex_tasks ex) t = Some phase" "3 \<le> rank phase"
    and "ex_tasks ex' = fmdrop t (ex_tasks ex)" "fcard (ex_notified ex') \<le> fcard (ex_notified ex) + 1"
  shows "storage_measure ex' < storage_measure ex"
  using assms weight_changes(2,3) [OF assms(1), of rank] by (simp add: storage_measure_def)

lemma measure_changed:
  assumes "fmlookup (ex_tasks ex) t = Some phase" "rank phase' + 2 * fcard (ex_notified ex') < rank phase + 2 * fcard (ex_notified ex)"
    and "ex_tasks ex' = fmupd t phase' (ex_tasks ex)"
  shows "storage_measure ex' < storage_measure ex"
  using assms weight_changes(1,3) [OF assms(1), of rank] by (simp add: storage_measure_def)

lemma internal_decreases:
  assumes ok: "lanes_ok ex" and step: "internal_step ex ex'"
  shows "storage_measure ex' < storage_measure ex"
  using step
proof cases
  case (poll t s parked)
  show ?thesis
  proof (cases parked)
    case True
    with poll have "fcard (ex_notified ex |-| {|t|}) < fcard (ex_notified ex)" by (intro fcard_fminus1_less) simp
    with True poll show ?thesis
      by (intro measure_changed [OF poll(2), of "Waiting s False"]) (simp_all add: poll_waiter_def)
  next
    case False
    obtain lane where lane: "fmlookup (ex_lanes ex) s = Some lane" "lane_inv ex s lane" using waiter_lane [OF ok poll(2)] .
    then have "\<not> sn_poisoned lane" by (simp add: lane_inv_def)
    then have "\<exists>r. claim t lane = Inr r" by (auto simp: claim_def split: list.splits)
    then obtain b lane1 where claim: "claim t lane = Inr (b, lane1)" by auto
    have less: "fcard (ex_notified ex |-| {|t|}) \<le> fcard (ex_notified ex)" by (rule fcard_without)
    show ?thesis
      using False poll lane claim less
      by (cases b; intro measure_changed [OF poll(2), of "if b then Admitting (Some s) else Waiting s True"])
        (simp_all add: poll_waiter_def)
  qed
next
  case (admit t stream)
  show ?thesis
  proof (cases "ex_admission_permits ex = 0")
    case True
    with admit drop_lane_permit_notified [of stream "end_task t ex"] end_task_notified [of t ex] show ?thesis
      by (intro measure_ended [OF admit(2)]) (simp_all add: admit_def)
  next
    case False
    with admit show ?thesis by (intro measure_changed [OF admit(2), of "Admitted stream"]) (simp_all add: admit_def)
  qed
next
  case (start t stream)
  then show ?thesis by (intro measure_changed [OF start(2), of "Running stream"]) (simp_all add: start_def)
next
  case (finish t stream)
  let ?ex1 = "ex\<lparr>ex_execution_permits := ex_execution_permits ex + 1, ex_admission_permits := ex_admission_permits ex + 1\<rparr>"
  from finish drop_lane_permit_notified [of stream "end_task t ?ex1"] end_task_notified [of t ?ex1] show ?thesis
    by (intro measure_ended [OF finish(2)]) (simp_all add: finish_def)
qed

lemma not_stuck_before_end:
  assumes ok: "executor_ok e q ex" and e: "0 < e" and busy: "ex_tasks ex \<noteq> fmempty"
  shows "\<exists>ex'. internal_step ex ex'"
proof (rule ccontr)
  assume stuck: "\<nexists>ex'. internal_step ex ex'"
  have no_running: "fmlookup (ex_tasks ex) t \<noteq> Some (Running st)" for t st
    using stuck internal_step.finish by blast
  have "weight runs (ex_tasks ex) = 0"
    unfolding weight_def
  proof (rule sum.neutral, rule ballI)
    fix t assume "t |\<in>| fmdom (ex_tasks ex)"
    then obtain phase where "fmlookup (ex_tasks ex) t = Some phase" by (auto simp: fmlookup_dom_iff)
    with no_running show "runs (the (fmlookup (ex_tasks ex) t)) = 0" by (cases phase) auto
  qed
  with ok e have "0 < ex_execution_permits ex" by (simp add: executor_ok_def permits_ok_def)
  then have no_admitted: "fmlookup (ex_tasks ex) t \<noteq> Some (Admitted st)" for t st
    using stuck internal_step.start by blast
  have no_admitting: "fmlookup (ex_tasks ex) t \<noteq> Some (Admitting st)" for t st
    using stuck internal_step.admit by blast
  obtain t phase where t: "fmlookup (ex_tasks ex) t = Some phase"
    using busy by (metis fmap_ext fmempty_lookup not_None_eq)
  with no_running no_admitted no_admitting obtain s parked where "phase = Waiting s parked" by (cases phase) auto
  with t ok obtain lane where lane: "fmlookup (ex_lanes ex) s = Some lane" "lane_inv ex s lane" "t \<in> set (sn_waiters lane)"
    using waiter_lane [of ex t s parked] by (auto simp: executor_ok_def)
  have "holders ex s = {}" using no_running no_admitted no_admitting by (auto simp: holders_def)
  with lane have "sn_waiters lane \<noteq> []" "awake ex (hd (sn_waiters lane))" "hd (sn_waiters lane) \<in> waiting ex s"
    by (auto simp: lane_inv_def split: lane_ownership.splits)
  then obtain parked' where "fmlookup (ex_tasks ex) (hd (sn_waiters lane)) = Some (Waiting s parked')"
    "\<not> parked' \<or> hd (sn_waiters lane) |\<in>| ex_notified ex"
    by (auto simp: waiting_def awake_def)
  then show False using stuck internal_step.poll by blast
qed

interpretation storage: terminating_system internal_step
  "\<lambda>ex. \<exists>e q. 0 < e \<and> executor_ok e q ex" "\<lambda>ex. ex_tasks ex = fmempty" storage_measure
proof
  fix ex ex'
  assume ok: "\<exists>e q. 0 < e \<and> executor_ok e q ex" and step: "internal_step ex ex'"
  from ok obtain e q where "0 < e" "executor_ok e q ex" by blast
  with executor_ok_step [OF this(2) storage_step.internal [OF step]]
  show "\<exists>e q. 0 < e \<and> executor_ok e q ex'" by blast
  from \<open>executor_ok e q ex\<close> have "lanes_ok ex" by (simp add: executor_ok_def)
  then show "storage_measure ex' < storage_measure ex" using step by (rule internal_decreases)
next
  fix ex
  assume "\<exists>e q. 0 < e \<and> executor_ok e q ex" "ex_tasks ex \<noteq> fmempty"
  then show "\<exists>ex'. internal_step ex ex'" using not_stuck_before_end by blast
qed

lemma executor_ok_run: "internal_step\<^sup>*\<^sup>* ex ex' \<Longrightarrow> executor_ok e q ex \<Longrightarrow> executor_ok e q ex'"
  by (induction rule: rtranclp_induct) (auto intro: executor_ok_step storage_step.internal)

section \<open>Order of the lanes\<close>

definition waiters :: "storage_executor \<Rightarrow> string \<Rightarrow> task_id list" where
  "waiters ex s = (case fmlookup (ex_lanes ex) s of None \<Rightarrow> [] | Some lane \<Rightarrow> sn_waiters lane)"

lemma position_remove1: "position (\<lambda>x. x = t) xs = Some i \<Longrightarrow> take i xs @ drop (Suc i) xs = remove1 t xs"
  by (induction xs arbitrary: i) (auto split: if_splits)

lemma waiters_release: "waiters (drop_lane_permit st ex) s = waiters ex s"
  by (auto simp: drop_lane_permit_def with_lane_def waiters_def release_def split: option.splits prod.splits list.splits if_splits)

lemma waiters_cancel:
  "waiters (with_lane (cancel t) r ex) s = waiters ex s \<or> waiters (with_lane (cancel t) r ex) s = remove1 t (waiters ex s)"
  by (auto simp: with_lane_def waiters_def cancel_def Let_def position_remove1 split: option.splits prod.splits if_splits)

lemma waiters_lanes [simp]:
  "waiters (set_phase t p ex) = waiters ex" "waiters (end_task t ex) = waiters ex"
  "waiters (ex\<lparr>ex_notified := ns\<rparr>) = waiters ex" "waiters (ex\<lparr>ex_waiter_permits := n\<rparr>) = waiters ex"
  "waiters (ex\<lparr>ex_admission_permits := n\<rparr>) = waiters ex" "waiters (ex\<lparr>ex_execution_permits := n\<rparr>) = waiters ex"
  by (simp_all add: waiters_def fun_eq_iff)

lemma waiters_ok: "lanes_ok ex \<Longrightarrow> set (waiters ex s) = waiting ex s"
proof (cases "fmlookup (ex_lanes ex) s")
  case None
  assume "lanes_ok ex"
  with None have "waiting ex s = {}" using waiter_lane by (force simp: waiting_def)
  with None show ?thesis by (simp add: waiters_def)
qed (auto simp: waiters_def lanes_ok_def lane_inv_def)

lemma waiters_distinct: "lanes_ok ex \<Longrightarrow> distinct (waiters ex s)"
  by (auto simp: waiters_def lanes_ok_def lane_inv_def split: option.splits)

lemma waiters_relaned:
  assumes "lanes_ok ex" "lanes_ok (ex\<lparr>ex_lanes := lanes\<rparr>)"
    and kept: "\<forall>r l. fmlookup lanes r = Some l \<longrightarrow> fmlookup (ex_lanes ex) r = Some l \<or> l = new_lane"
  shows "waiters (ex\<lparr>ex_lanes := lanes\<rparr>) s = waiters ex s"
proof -
  have same: "set (waiters ex s) = set (waiters (ex\<lparr>ex_lanes := lanes\<rparr>) s)"
    unfolding waiters_ok [OF assms(1)] waiters_ok [OF assms(2)] by (simp add: waiting_def)
  show ?thesis
  proof (cases "\<exists>l. fmlookup lanes s = Some l \<and> fmlookup (ex_lanes ex) s = Some l")
    case True
    then show ?thesis by (auto simp: waiters_def)
  next
    case False
    with kept have "fmlookup lanes s = None \<or> fmlookup lanes s = Some new_lane" by (cases "fmlookup lanes s") auto
    then have "waiters (ex\<lparr>ex_lanes := lanes\<rparr>) s = []" by (auto simp: waiters_def new_lane_def)
    with same show ?thesis by simp
  qed
qed

text \<open>What one step may do to the queue of a lane, and to whom it may give the lane.\<close>

definition fifo_change :: "storage_executor \<Rightarrow> storage_executor \<Rightarrow> string \<Rightarrow> bool" where
  "fifo_change ex ex' s \<longleftrightarrow>
     (waiters ex' s = waiters ex s \<or>
      (\<exists>t. t |\<notin>| fmdom (ex_tasks ex) \<and> waiters ex' s = waiters ex s @ [t]) \<or>
      (\<exists>t. waiters ex' s = remove1 t (waiters ex s))) \<and>
     (\<forall>t. t \<in> waiting ex s \<and> t \<in> holders ex' s \<longrightarrow> waiters ex s = t # waiters ex' s)"

lemma fifo_changeI:
  assumes "waiters ex' s = waiters ex s \<or> (\<exists>t. t |\<notin>| fmdom (ex_tasks ex) \<and> waiters ex' s = waiters ex s @ [t]) \<or>
      (\<exists>t. waiters ex' s = remove1 t (waiters ex s))"
    and "\<And>u. u \<noteq> t \<Longrightarrow> fmlookup (ex_tasks ex') u = fmlookup (ex_tasks ex) u"
    and "t \<in> waiting ex s \<Longrightarrow> t \<in> holders ex' s \<Longrightarrow> waiters ex s = t # waiters ex' s"
  shows "fifo_change ex ex' s"
proof -
  have "u = t" if "u \<in> waiting ex s" "u \<in> holders ex' s" for u
  proof (rule ccontr)
    assume "u \<noteq> t"
    from assms(2) [OF this] that show False by (auto simp: waiting_def holders_def)
  qed
  then have "\<forall>u. u \<in> waiting ex s \<and> u \<in> holders ex' s \<longrightarrow> waiters ex s = u # waiters ex' s"
    using assms(3) by metis
  with assms(1) show ?thesis unfolding fifo_change_def by (rule conjI)
qed

lemma fifo_poll:
  assumes ok: "lanes_ok ex" and t: "fmlookup (ex_tasks ex) t = Some (Waiting r parked)"
  shows "fifo_change ex (snd (poll_waiter t ex)) s"
proof (cases parked)
  case True
  with t show ?thesis
    by (cases "t |\<in>| ex_notified ex"; intro fifo_changeI [of _ _ _ t]) (auto simp: poll_waiter_def holders_def)
next
  case False
  obtain lane where lane: "fmlookup (ex_lanes ex) r = Some lane" "lane_inv ex r lane" using waiter_lane [OF ok t] .
  then have "\<not> sn_poisoned lane" by (simp add: lane_inv_def)
  then have "\<exists>x. claim t lane = Inr x" by (auto simp: claim_def split: list.splits)
  then obtain b lane1 where claim: "claim t lane = Inr (b, lane1)" by auto
  show ?thesis
  proof (cases b)
    case True
    with claim obtain rest where rest: "sn_waiters lane = t # rest" "sn_waiters lane1 = rest"
      by (auto elim: claimed)
    let ?ex' = "snd (poll_waiter t ex)"
    have other: "waiters ?ex' s = waiters ex s" if "s \<noteq> r"
      using False True t lane claim rest that by (auto simp: poll_waiter_def waiters_def)
    have own: "waiters ex r = t # waiters ?ex' r"
      using False True t lane claim rest by (auto simp: poll_waiter_def waiters_def)
    show ?thesis
    proof (rule fifo_changeI [of _ _ _ t])
      show "waiters ?ex' s = waiters ex s \<or> (\<exists>t. t |\<notin>| fmdom (ex_tasks ex) \<and> waiters ?ex' s = waiters ex s @ [t]) \<or>
          (\<exists>t. waiters ?ex' s = remove1 t (waiters ex s))"
        using own other by (cases "s = r") (auto intro: exI [of _ t])
      show "fmlookup (ex_tasks ?ex') u = fmlookup (ex_tasks ex) u" if "u \<noteq> t" for u
        using False True t lane claim that by (simp add: poll_waiter_def)
      show "waiters ex s = t # waiters ?ex' s" if "t \<in> waiting ex s"
        using that t own by (auto simp: waiting_def)
    qed
  next
    case b: False
    with False t lane claim show ?thesis
      by (intro fifo_changeI [of _ _ _ t]) (auto simp: poll_waiter_def holders_def)
  qed
qed

lemma fifo_internal:
  assumes "lanes_ok ex" "internal_step ex ex'"
  shows "fifo_change ex ex' s"
  using assms(2)
proof cases
  case (poll t r parked)
  with fifo_poll [OF assms(1)] show ?thesis by simp
next
  case (admit t stream)
  then show ?thesis
    by (cases "ex_admission_permits ex = 0"; intro fifo_changeI [of _ _ _ t])
      (auto simp: admit_def waiters_release waiting_def)
next
  case (start t stream)
  then show ?thesis by (intro fifo_changeI [of _ _ _ t]) (auto simp: start_def waiting_def)
next
  case (finish t stream)
  then show ?thesis by (intro fifo_changeI [of _ _ _ t]) (auto simp: finish_def waiters_release waiting_def)
qed

lemma fifo_step:
  assumes ok: "lanes_ok ex" and step: "storage_step ex ex'"
  shows "fifo_change ex ex' s"
  using step
proof cases
  case internal
  with fifo_internal [OF ok] show ?thesis by simp
next
  case (cancelled t phase)
  have "waiters ex' s = waiters ex s \<or> (\<exists>t. waiters ex' s = remove1 t (waiters ex s))"
    using cancelled waiters_cancel [of t _ "end_task t (ex\<lparr>ex_waiter_permits := ex_waiter_permits ex + 1\<rparr>)" s]
    by (cases phase) (auto simp: cancel_task_def waiters_release)
  moreover have "ex_tasks ex' = ex_tasks ex \<or> ex_tasks ex' = fmdrop t (ex_tasks ex)"
    using cancelled by (cases phase) (auto simp: cancel_task_def)
  ultimately show ?thesis
    by (intro fifo_changeI [of _ _ _ t]) (auto simp: holders_def waiting_def)
next
  case (dispatched t)
  then show ?thesis
    by (intro fifo_changeI [of _ _ _ t]) (auto simp: dispatch_def modify_def holders_def)
next
  case (dispatched_stream t r)
  then have none: "t \<notin> waiting ex s" by (auto simp: waiting_def dest: fmdomI)
  from ok show ?thesis
  proof (cases rule: dispatch_stream_cases [where t = t and s = r])
    case (refused lanes)
    with dispatched_stream waiters_relaned [OF ok refused(2,3)] none show ?thesis
      by (intro fifo_changeI [of _ _ _ t]) auto
  next
    case (active lane lanes)
    have "waiters ex' s = waiters (ex\<lparr>ex_lanes := lanes\<rparr>) s"
      using active dispatched_stream by (auto simp: waiters_def)
    with waiters_relaned [OF ok active(1,5)] active dispatched_stream none show ?thesis
      by (intro fifo_changeI [of _ _ _ t]) auto
  next
    case (queued lane lanes)
    have "waiters ex' s = waiters (ex\<lparr>ex_lanes := lanes\<rparr>) s @ (if s = r then [t] else [])"
      using queued dispatched_stream by (auto simp: waiters_def)
    with waiters_relaned [OF ok queued(1,7)] queued dispatched_stream none show ?thesis
      by (intro fifo_changeI [of _ _ _ t]) (auto split: if_splits)
  qed
qed

section \<open>Properties\<close>

text \<open>C16: In every reachable state of the executor at most one task holds the lane of a stream, so its
  operations run one at a time; never more operations run, are admitted or wait than the capacities
  allow; and a stream's queue never exceeds its bound.\<close>

theorem storage_exclusive_and_bounded:
  assumes "storage_step\<^sup>*\<^sup>* (executor_with_capacities e q) ex"
  shows "(\<forall>s t u. t \<in> holders ex s \<and> u \<in> holders ex s \<longrightarrow> t = u) \<and>
    (\<forall>s. length (waiters ex s) \<le> q) \<and> weight runs (ex_tasks ex) \<le> e \<and>
    weight admits (ex_tasks ex) \<le> e + q \<and> weight waits (ex_tasks ex) \<le> q"
proof (intro conjI allI impI)
  have ok: "lanes_ok ex" "permits_ok e q ex" using executor_ok_reachable [OF assms] by (simp_all add: executor_ok_def)
  show "t = u" if both: "t \<in> holders ex s \<and> u \<in> holders ex s" for s t u
  proof -
    from both obtain phase where "fmlookup (ex_tasks ex) t = Some phase" "holding phase (Some s)" by (auto simp: holders_iff)
    from holder_lane [OF ok(1) this] both show ?thesis by auto
  qed
  show "length (waiters ex s) \<le> q" for s
    using ok by (auto simp: waiters_def lanes_ok_def lane_inv_def permits_ok_def split: option.split)
  show "weight runs (ex_tasks ex) \<le> e" "weight admits (ex_tasks ex) \<le> e + q" "weight waits (ex_tasks ex) \<le> q"
    using ok(2) by (auto simp: permits_ok_def saturating_add64_def)
qed

definition sample_executor :: storage_executor where
  "sample_executor = snd (dispatch_stream 2 ''s'' (snd (dispatch_stream 1 ''s'' (executor_with_capacities 1 1))))"

lemma sample_executor_reachable: "storage_step\<^sup>*\<^sup>* (executor_with_capacities 1 1) sample_executor"
proof -
  have "storage_step (executor_with_capacities 1 1) (snd (dispatch_stream 1 ''s'' (executor_with_capacities 1 1)))"
    by (rule storage_step.dispatched_stream) (simp add: executor_with_capacities_def)
  moreover have "storage_step (snd (dispatch_stream 1 ''s'' (executor_with_capacities 1 1))) sample_executor"
    unfolding sample_executor_def
    by (rule storage_step.dispatched_stream)
      (simp add: executor_with_capacities_def dispatch_stream_def acquire_stream_permit_def op_simps stream_lane_def Let_def reserve_def new_lane_def
        set_phase_def split: sum.split)
  ultimately show ?thesis by (meson rtranclp.rtrancl_into_rtrancl r_into_rtranclp)
qed

theorem storage_exclusive_and_bounded_witness:
  "length (waiters sample_executor ''s'') \<le> 1 \<and> weight runs (ex_tasks sample_executor) \<le> 1 \<and>
    weight admits (ex_tasks sample_executor) \<le> 1 + 1 \<and> weight waits (ex_tasks sample_executor) \<le> 1"
  using storage_exclusive_and_bounded [OF sample_executor_reachable] by blast



text \<open>C15: Every task ends: whatever has been dispatched and cancelled before, the executor is never
  stuck while a task is left, it takes at most \<open>storage_measure\<close> steps without a new dispatch, and
  when it comes to rest no task is left and all permits are back.\<close>

theorem storage_tasks_end:
  assumes "storage_step\<^sup>*\<^sup>* (executor_with_capacities e q) ex" "0 < e"
  shows "(\<exists>ex'. internal_step\<^sup>*\<^sup>* ex ex' \<and> ex_tasks ex' = fmempty) \<and>
    (\<forall>run n. run 0 = ex \<and> (\<forall>i<n. internal_step (run i) (run (Suc i))) \<longrightarrow> n \<le> storage_measure ex) \<and>
    (\<forall>ex'. internal_step\<^sup>*\<^sup>* ex ex' \<and> (\<nexists>ex''. internal_step ex' ex'') \<longrightarrow>
       ex_tasks ex' = fmempty \<and> ex_execution_permits ex' = e \<and> ex_waiter_permits ex' = q \<and>
       ex_admission_permits ex' = saturating_add64 e q)"
proof (intro conjI allI impI)
  have ok: "executor_ok e q ex" by (rule executor_ok_reachable [OF assms(1)])
  then have inv: "\<exists>e q. 0 < e \<and> executor_ok e q ex" using assms(2) by blast
  from storage.reaches_finished [OF inv] show "\<exists>ex'. internal_step\<^sup>*\<^sup>* ex ex' \<and> ex_tasks ex' = fmempty" .
  show "n \<le> storage_measure ex" if "run 0 = ex \<and> (\<forall>i<n. internal_step (run i) (run (Suc i)))" for run n
    using storage.run_bounded [of run n] inv that by blast
  fix ex'
  assume rest: "internal_step\<^sup>*\<^sup>* ex ex' \<and> (\<nexists>ex''. internal_step ex' ex'')"
  then have "executor_ok e q ex'" using executor_ok_run [OF _ ok] by blast
  moreover from this rest not_stuck_before_end assms(2) have "ex_tasks ex' = fmempty" by blast
  ultimately show "ex_tasks ex' = fmempty" "ex_execution_permits ex' = e" "ex_waiter_permits ex' = q"
    "ex_admission_permits ex' = saturating_add64 e q"
    by (simp_all add: executor_ok_def permits_ok_def)
qed

theorem storage_tasks_end_witness:
  "\<exists>ex'. internal_step\<^sup>*\<^sup>* sample_executor ex' \<and> ex_tasks ex' = fmempty"
  using storage_tasks_end [OF sample_executor_reachable] by simp

end
