(* ===== verification/Spec2Isabelle.thy ===== *)
theory Spec2Isabelle
  imports Engine_Contract Core_Names Consumer_Durability Delivery_Requests Broker_Properties Storage_Liveness
begin

text \<open>
  A verification library for runnel, a message broker in Rust. The library models the local engine:
  the engine contract (\<open>crates/runnel-engine\<close>) and the whole of the broker behind it
  (\<open>crates/runnel-core\<close>): its stream logs, consumer states and their files, deliveries, requests and
  the executor that runs them.

  \<^bold>\<open>The program.\<close> A broker serves streams. A stream is an append-only log in a file
  (\<open>stream_log.rs\<close>). Consumers of a stream poll records, which leases them to a member for a time,
  and acknowledge them, which settles them. The progress of a consumer is durable: a checkpoint and a
  journal of events in two files (\<open>consumer_state.rs\<close>). The leases are in memory
  (\<open>delivery_state.rs\<close>). A lease that expires is retried after a delay; a record whose attempts are
  used up moves to the dead-letter stream of its stream. The requests (\<open>broker.rs\<close>) run under the lock
  of their stream, on lanes of a storage executor (\<open>storage.rs\<close>).

  \<^bold>\<open>Representation.\<close> Operations are functions of type \<open>('s, 'e, 'a) op\<close>, from a state to an error or a
  result and the state that is left, also on the error path; \<open>and_then\<close> is \<open>?\<close>. Every system call
  takes the next entry of a script of faults: it succeeds, fails, or writes a part and fails, so a
  theorem about all scripts is about all patterns of I/O failures. The clocks are lists of readings.
  Offsets, lengths and times are natural numbers with the saturating, checked and wrapping operations
  of \<open>u64\<close> and \<open>u32\<close> written out; the checksum works on 32-bit words. Maps and sets are finite maps
  and sets; the iteration order of a hash map is a parameter \<open>ho\<close> that only has to enumerate the map.
  The JSON library is a parameter \<open>cdc\<close> with the contract \<open>codec_ok\<close> (what was encoded is decoded, and
  an event is one line); \<open>Sample_Codec\<close> has an instance. Loops are structural recursions or have a
  termination proof; the searches of a poll and of a batch, each of whose rounds excludes or settles a
  record, run with \<open>next_offset + 1\<close> rounds of fuel, and it is proved that this is enough.

  \<^bold>\<open>Theories.\<close>
  \<^item> \<open>Runnel_Prelude\<close>: machine integers, strings, the monad and its Hoare triples.
  \<^item> \<open>Engine_Contract\<close> (\<open>runnel-engine/src/lib.rs\<close>): limits, validation, error kinds and outcomes, and
    the size bounds of responses with their arithmetic.
  \<^item> \<open>Core_Names\<close> (\<open>runnel-core/src/lib.rs\<close>): names, dead-letter streams and move identities.
  \<^item> \<open>Consumer_State\<close>, \<open>Consumer_Files\<close>, \<open>Consumer_Durability\<close> (\<open>consumer_state.rs\<close>): the state and its
    events; checkpoint, journal and compaction. Acknowledging refines a set of settled offsets (locale
    \<open>ack_progress\<close>), replaying a journal is idempotent, and persisting an event is atomic under all
    faults.
  \<^item> \<open>Delivery_State\<close>, \<open>Delivery_Requests\<close> (\<open>delivery_state.rs\<close>): the table of leases with its four
    indexes (locale \<open>delivery_table\<close>), the cache, reconciliation and the tokens. The indexes agree with
    the leases in every reachable state.
  \<^item> \<open>Crc32c\<close>, \<open>Record_Frame\<close>, \<open>Stream_Log\<close> (\<open>stream_log.rs\<close>): checksum, frame and log. \<open>Log_Recovery\<close>,
    \<open>Log_Reads\<close>, \<open>Log_Appends\<close>, \<open>Log_Batches\<close>, \<open>Log_Properties\<close>: the log refines the list of its
    entries; every read answers from that list, every append extends it, and what a crash leaves of
    the file opens as a prefix of it.
  \<^item> \<open>Storage_Lanes\<close>, \<open>Storage_Progress\<close>, \<open>Storage_Liveness\<close> (\<open>storage.rs\<close>): lanes and tasks as a step
    relation; exclusion, order, bounds, and that every task ends (locale \<open>terminating_system\<close>).
  \<^item> \<open>Broker_State\<close>, \<open>Broker_Requests\<close>, \<open>Broker_Batches\<close> (\<open>broker.rs\<close>): the model of the broker, one
    definition per request and per step of it. A request on a consumer is a session on the stream, the
    files of the consumer, and the rest of the broker.
  \<^item> \<open>Broker_Sessions\<close>, \<open>Broker_Steps\<close>, \<open>Broker_Polls\<close>, \<open>Broker_Deliveries\<close>, \<open>Broker_Answers\<close>,
    \<open>Broker_Acks\<close>, \<open>Broker_Receipts\<close>, \<open>Broker_Collect\<close>, \<open>Broker_Leases\<close>, \<open>Broker_Batch_Steps\<close>: every step
    of every request against the invariant of a session, in the locale \<open>request_env\<close>, which states
    what a request relies on in the broker around it. \<open>Broker_Surroundings\<close> interprets it on the broker,
    for all faults and all clocks below the largest \<open>u64\<close>; \<open>Broker_Outcomes\<close> draws the conclusions.
  \<^item> \<open>Broker_Service\<close>: sequences of requests, publications and restarts. \<open>Broker_Samples\<close>: a broker with
    one record, evaluated. \<open>Broker_Properties\<close>: what polls, batch polls, acknowledgements and policies
    promise, and that an acknowledged record is never delivered again.

  \<^bold>\<open>Interference.\<close> A request holds the lock of its stream, so the requests on one stream are
  sequential, and a request is one step of the service. A waiting batch poll gives the lock up between
  its steps: the model interleaves any functions on the broker there, and the theorems ask of them only
  that they leave the consumer at rest. A request looks twice at whether its stream is a dead-letter
  stream; that another request creates the source stream between the two is not modelled.

  \<^bold>\<open>Not modelled.\<close> The clustered engine (\<open>runnel-raft\<close>) replicates its own state machine through
  openraft and its storage and network traits, third-party code whose contracts would have to be
  assumed throughout; its files are listed with the components and no property is about them. The wire
  protocol (\<open>runnel-protocol\<close>: prost messages generated at build time, serde documents), the server and
  the client (\<open>runnel-server\<close>, \<open>runnel-client\<close>: tokio tasks, TLS, metrics), the command line and the
  test support are input and output around the engine. Of the local engine, the asynchronous facade of
  \<open>runnel-core/src/lib.rs\<close>, which dispatches each call to one of the broker's functions, the
  instrumentation, the failure injection of the unit tests and the poisoning of the broker's mutexes
  are left out.
\<close>

end
